(* ===== verification/Prelude.thy ===== *)
theory Prelude
  imports Main "HOL-Library.Word" "HOL-Library.List_Lexorder" "HOL-Library.Char_ord"
begin

text \<open>
  What every component of the development shares: the identifier types of the wire contract,
  Go's error values (sentinels, wrapping, \<open>errors.Is\<close>, \<open>errors.As\<close>, \<open>errors.Join\<close>), the
  collections of simplification rules, and generic facts on lists and machine words.
\<close>

section \<open>Identifiers and machine integers\<close>

type_synonym tenant_id = string
type_synonym session_id = string
type_synonym host_id = string
type_synonym bytes = string
type_synonym u64 = "64 word"
type_synonym time = int

section \<open>Collections of rules\<close>

named_theorems go_errors \<open>evaluation of Go error values\<close>
named_theorems queue_simps \<open>branches of the delivery queue\<close>
named_theorems route_simps \<open>branches of the routing table\<close>
named_theorems inv_keep \<open>operations that keep their component's invariant\<close>

section \<open>Go error values\<close>

text \<open>
  A Go error is a sentinel or typed value, a value wrapping others (\<open>fmt.Errorf\<close> with
  \<open>%w\<close>, \<open>errors.Join\<close>), or an opaque message. The nil error is \<open>None\<close>.
\<close>

datatype 's go_err = Sentinel 's | Wrapped "'s go_err list" | Opaque string

fun errors_is :: "'s \<Rightarrow> 's go_err \<Rightarrow> bool" where
  "errors_is s (Sentinel t) = (s = t)"
| "errors_is s (Wrapped es) = list_ex (errors_is s) es"
| "errors_is s (Opaque m) = False"

text \<open>\<open>errors.As\<close>: the first value of the chain, depth first, that a selector accepts.\<close>

fun first_some :: "'a option list \<Rightarrow> 'a option" where
  "first_some [] = None"
| "first_some (x # xs) = (case x of None \<Rightarrow> first_some xs | Some y \<Rightarrow> Some y)"

fun errors_as :: "('s \<Rightarrow> 'a option) \<Rightarrow> 's go_err \<Rightarrow> 'a option" where
  "errors_as sel (Sentinel t) = sel t"
| "errors_as sel (Wrapped es) = first_some (map (errors_as sel) es)"
| "errors_as sel (Opaque m) = None"

text \<open>\<open>errors.Join\<close> drops nil errors and is nil when nothing is left.\<close>

definition errors_join :: "'s go_err option list \<Rightarrow> 's go_err option" where
  "errors_join es =
     (case map the (filter (\<lambda>e. e \<noteq> None) es) of [] \<Rightarrow> None | fs \<Rightarrow> Some (Wrapped fs))"

text \<open>\<open>errors.Is\<close> on an error that may be nil.\<close>

definition err_is :: "'s \<Rightarrow> 's go_err option \<Rightarrow> bool" where
  "err_is s e = (case e of None \<Rightarrow> False | Some x \<Rightarrow> errors_is s x)"

lemma err_is_simps [simp, go_errors]:
  "err_is s None = False"
  "err_is s (Some e) = errors_is s e"
  by (simp_all add: err_is_def)

lemma errors_join_None [go_errors]: "errors_join es = None \<longleftrightarrow> set es \<subseteq> {None}"
proof -
  have "filter (\<lambda>e. e \<noteq> None) es = [] \<longleftrightarrow> set es \<subseteq> {None}"
    by (auto simp: filter_empty_conv)
  then show ?thesis
    by (cases "filter (\<lambda>e. e \<noteq> None) es") (auto simp: errors_join_def)
qed

lemma errors_join_Nil [simp, go_errors]: "errors_join [] = None"
  by (simp add: errors_join_def)

lemma errors_join_Cons_None [simp, go_errors]: "errors_join (None # es) = errors_join es"
  by (simp add: errors_join_def)

text \<open>A joined error is in a class exactly when one of its members is.\<close>

lemma err_is_join [go_errors]: "err_is s (errors_join es) = list_ex (err_is s) es"
proof -
  have "list_ex (errors_is s) (map the (filter (\<lambda>e. e \<noteq> None) es)) = list_ex (err_is s) es"
    by (induction es) (auto simp: err_is_def split: option.splits)
  then show ?thesis
    by (cases "map the (filter (\<lambda>e. e \<noteq> None) es)") (auto simp: errors_join_def)
qed

section \<open>Lists\<close>

definition remove_nth :: "nat \<Rightarrow> 'a list \<Rightarrow> 'a list" where
  "remove_nth i xs = take i xs @ drop (Suc i) xs"

lemma length_remove_nth [simp]: "i < length xs \<Longrightarrow> length (remove_nth i xs) = length xs - 1"
  by (simp add: remove_nth_def)

lemma set_remove_nth: "set (remove_nth i xs) \<subseteq> set xs"
  by (auto simp: remove_nth_def dest: in_set_takeD in_set_dropD)

lemma filter_remove_nth:
  assumes "i < length xs" and "\<not> P (xs ! i)"
  shows "filter P (remove_nth i xs) = filter P xs"
proof -
  have "filter P xs = filter P (take i xs @ xs ! i # drop (Suc i) xs)"
    by (simp add: id_take_nth_drop [OF assms(1), symmetric])
  then show ?thesis
    using assms(2) by (simp add: remove_nth_def)
qed

text \<open>A search returns the first element of its class.\<close>

lemma find_SomeD:
  "find P xs = Some x \<Longrightarrow> \<exists>ys zs. xs = ys @ x # zs \<and> P x \<and> (\<forall>y \<in> set ys. \<not> P y)"
proof (induction xs)
  case Nil
  then show ?case by simp
next
  case (Cons a xs)
  show ?case
  proof (cases "P a")
    case True
    with Cons.prems show ?thesis by force
  next
    case False
    with Cons obtain ys zs where "xs = ys @ x # zs" "P x" "\<forall>y \<in> set ys. \<not> P y"
      by auto
    with False have "a # xs = (a # ys) @ x # zs \<and> P x \<and> (\<forall>y \<in> set (a # ys). \<not> P y)"
      by simp
    then show ?thesis by blast
  qed
qed

text \<open>The index of the first element of a class.\<close>

fun first_index :: "('a \<Rightarrow> bool) \<Rightarrow> 'a list \<Rightarrow> nat option" where
  "first_index P [] = None"
| "first_index P (x # xs) = (if P x then Some 0 else map_option Suc (first_index P xs))"

lemma first_index_None: "first_index P xs = None \<longleftrightarrow> (\<forall>x \<in> set xs. \<not> P x)"
  by (induction xs) auto

lemma first_index_SomeD:
  "first_index P xs = Some i \<Longrightarrow> i < length xs \<and> P (xs ! i) \<and> (\<forall>j < i. \<not> P (xs ! j))"
proof (induction xs arbitrary: i)
  case Nil
  then show ?case by simp
next
  case (Cons a xs)
  show ?case
  proof (cases "P a")
    case True
    with Cons.prems show ?thesis by simp
  next
    case False
    with Cons.prems obtain n where n: "first_index P xs = Some n" "i = Suc n" by auto
    with Cons.IH have "n < length xs \<and> P (xs ! n) \<and> (\<forall>j < n. \<not> P (xs ! j))" by simp
    with False n(2) show ?thesis by (auto simp: less_Suc_eq_0_disj)
  qed
qed

lemma first_index_SomeI:
  assumes "i < length xs" "P (xs ! i)"
  obtains n where "first_index P xs = Some n" "n \<le> i"
proof -
  from assms have "first_index P xs \<noteq> None"
    by (auto simp: first_index_None)
  then obtain n where n: "first_index P xs = Some n" by auto
  with first_index_SomeD assms(2) have "n \<le> i" by (metis not_le)
  with n that show thesis by blast
qed

end
