(* ===== verification/Delivery.thy ===== *)
theory Delivery
  imports Prelude
begin

text \<open>
  The bounded record queue of \<open>internal/realtime/delivery/queue.go\<close> and the parse of an
  enduring publication's envelope. The queue is a record of its capacity, its closed flag and
  its buffer; every method is a function from the queue to its answer and the new queue, since
  each runs wholly under the queue's mutex. The scan of a full buffer for a victim ranges over
  a Go map: the order of that range is an explicit argument, and the answer is shown not to
  depend on it. Core's decoders are parameters (\<open>core_codec\<close>).
\<close>

section \<open>Errors, classes and records\<close>

datatype core_error = RequestValidationError string | DecodeError string

datatype delivery_error =
    ErrInvalidConfig | ErrQueueClosed | ErrOverflow | ErrDropped | ErrNotEnduring
  | ErrMalformed | ErrWatermarkNotItsEventSequence | ErrWatermarkAboveCommitted
  | CoreErr core_error

datatype rclass = ClassEnduring | ClassEphemeral | ClassControl

definition droppable :: "rclass \<Rightarrow> bool" where
  "droppable c \<longleftrightarrow> c = ClassEphemeral"

record qrec =
  rec_class :: rclass
  rec_encoded :: bytes
  rec_seq :: u64
  coalesce_key :: string

section \<open>The queue\<close>

record queue =
  qcapacity :: int
  qclosed :: bool
  qbuf :: "qrec list"

definition new_queue :: "int \<Rightarrow> delivery_error + queue" where
  "new_queue cap =
     (if cap < 1 then Inl ErrInvalidConfig
      else Inr \<lparr>qcapacity = cap, qclosed = False, qbuf = []\<rparr>)"

definition qlen :: "queue \<Rightarrow> int" where
  "qlen q = int (length (qbuf q))"

subsection \<open>The victim of a full buffer\<close>

record victim_scan =
  oldest_of_key :: "string \<rightharpoonup> int"
  count_of_key :: "string \<rightharpoonup> int"
  oldest_ephemeral :: int

definition empty_scan :: victim_scan where
  "empty_scan = \<lparr>oldest_of_key = Map.empty, count_of_key = Map.empty, oldest_ephemeral = -1\<rparr>"

definition map_int :: "('k \<rightharpoonup> int) \<Rightarrow> 'k \<Rightarrow> int" where
  \<comment> \<open>Go reads an absent key of a \<open>map[K]int\<close> as zero.\<close>
  "map_int m k = (case m k of None \<Rightarrow> 0 | Some n \<Rightarrow> n)"

definition scan_record :: "int \<Rightarrow> qrec \<Rightarrow> victim_scan \<Rightarrow> victim_scan" where
  "scan_record i r s =
     (if \<not> droppable (rec_class r) then s
      else
        let s1 = (if oldest_ephemeral s < 0 then s\<lparr>oldest_ephemeral := i\<rparr> else s);
            k = coalesce_key r
        in if k = [] then s1
           else
             let s2 = s1\<lparr>count_of_key := (count_of_key s1)(k \<mapsto> map_int (count_of_key s1) k + 1)\<rparr>
             in if oldest_of_key s2 k = None
                then s2\<lparr>oldest_of_key := (oldest_of_key s2)(k \<mapsto> i)\<rparr> else s2)"

fun scan_from :: "int \<Rightarrow> qrec list \<Rightarrow> victim_scan \<Rightarrow> victim_scan" where
  "scan_from i [] s = s"
| "scan_from i (r # rs) s = scan_from (i + 1) rs (scan_record i r s)"

definition pick_key :: "victim_scan \<Rightarrow> string \<Rightarrow> int \<times> int \<Rightarrow> int \<times> int" where
  "pick_key s k = (\<lambda>(victim, best).
     let count = map_int (count_of_key s) k; oldest = map_int (oldest_of_key s) k
     in if count > best \<or> (count = best \<and> oldest < victim) then (oldest, count)
        else (victim, best))"

definition select_victim_in :: "string list \<Rightarrow> qrec list \<Rightarrow> int" where
  "select_victim_in order buf =
     (let s = scan_from 0 buf empty_scan;
          (victim, best) = fold (pick_key s) order (-1, 0)
      in if victim \<ge> 0 then victim else oldest_ephemeral s)"

definition keyed :: "qrec \<Rightarrow> bool" where
  "keyed r \<longleftrightarrow> droppable (rec_class r) \<and> coalesce_key r \<noteq> []"

definition key_order :: "qrec list \<Rightarrow> string list" where
  \<comment> \<open>One enumeration of the keys of \<open>countOfKey\<close>; any other gives the same victim.\<close>
  "key_order buf = remdups (map coalesce_key (filter keyed buf))"

definition select_victim :: "qrec list \<Rightarrow> int" where
  "select_victim buf = select_victim_in (key_order buf) buf"

subsection \<open>The operations\<close>

definition enqueue :: "qrec \<Rightarrow> queue \<Rightarrow> delivery_error option \<times> queue" where
  "enqueue r q =
     (if qclosed q then (Some ErrQueueClosed, q)
      else if int (length (qbuf q)) < qcapacity q then (None, q\<lparr>qbuf := qbuf q @ [r]\<rparr>)
      else
        let victim = select_victim (qbuf q)
        in if victim < 0
           then (if droppable (rec_class r) then (Some ErrDropped, q) else (Some ErrOverflow, q))
           else (None, q\<lparr>qbuf := remove_nth (nat victim) (qbuf q) @ [r]\<rparr>))"

definition qhead :: "queue \<Rightarrow> qrec option" where
  "qhead q =
     (if qclosed q then None else case qbuf q of [] \<Rightarrow> None | r # rs \<Rightarrow> Some r)"

definition qclear :: "queue \<Rightarrow> queue" where
  "qclear q = (if qclosed q then q else q\<lparr>qbuf := []\<rparr>)"

definition qnext :: "queue \<Rightarrow> qrec option \<times> queue" where
  "qnext q =
     (if qclosed q then (None, q)
      else case qbuf q of [] \<Rightarrow> (None, q) | r # rs \<Rightarrow> (Some r, q\<lparr>qbuf := rs\<rparr>))"

definition qrepair :: "qrec \<Rightarrow> queue \<Rightarrow> delivery_error option \<times> queue" where
  "qrepair control q =
     (if qclosed q then (Some ErrQueueClosed, q) else (None, q\<lparr>qbuf := [control]\<rparr>))"

definition qclose :: "queue \<Rightarrow> queue" where
  "qclose q = q\<lparr>qclosed := True, qbuf := []\<rparr>"

section \<open>The envelope of an enduring publication\<close>

datatype session_record_type = RTEnduring | RTEphemeral | RTOther string

record enduring_publication =
  pub_tenant :: tenant_id
  pub_session :: session_id
  pub_event :: string
  pub_seq :: u64
  pub_covered :: u64
  pub_body :: bytes

record ephemeral_publication =
  eph_tenant :: tenant_id
  eph_session :: session_id

text \<open>
  Core's decoders: the record discriminator and the two publication decoders. They are code
  of another module, so they are parameters.
\<close>

record core_codec =
  record_type_of :: "bytes \<Rightarrow> delivery_error go_err + session_record_type"
  unmarshal_enduring :: "bytes \<Rightarrow> delivery_error go_err + enduring_publication"
  unmarshal_ephemeral :: "bytes \<Rightarrow> delivery_error go_err + ephemeral_publication"

text \<open>Core refuses a live publication whose watermark is not its own sequence.\<close>

definition core_watermark :: "core_codec \<Rightarrow> bool" where
  "core_watermark core \<longleftrightarrow>
     (\<forall>b p. unmarshal_enduring core b = Inr p \<longrightarrow> pub_covered p = pub_seq p)"

record enduring =
  end_tenant :: tenant_id
  end_session :: session_id
  end_event :: string
  journal_seq :: u64
  covered_through :: u64
  end_body :: bytes
  end_encoded :: bytes

definition enduring_record :: "enduring \<Rightarrow> qrec" where
  "enduring_record e =
     \<lparr>rec_class = ClassEnduring, rec_encoded = end_encoded e, rec_seq = journal_seq e,
      coalesce_key = []\<rparr>"

definition validation_field :: "delivery_error \<Rightarrow> string option" where
  "validation_field e = (case e of CoreErr (RequestValidationError f) \<Rightarrow> Some f | _ \<Rightarrow> None)"

definition parse_enduring ::
  "core_codec \<Rightarrow> bytes \<Rightarrow> u64 \<Rightarrow> delivery_error go_err + enduring" where
  "parse_enduring core encoded committed =
     (case record_type_of core encoded of
        Inl err \<Rightarrow> Inl (Wrapped [Sentinel ErrNotEnduring, err])
      | Inr ty \<Rightarrow>
          if ty \<noteq> RTEnduring then Inl (Sentinel ErrNotEnduring)
          else
            (case unmarshal_enduring core encoded of
               Inl err \<Rightarrow>
                 if errors_as validation_field err = Some ''covered_through''
                 then Inl (Wrapped [Sentinel ErrWatermarkNotItsEventSequence, err])
                 else Inl (Wrapped [Sentinel ErrMalformed, err])
             | Inr p \<Rightarrow>
                 if pub_covered p > committed then Inl (Sentinel ErrWatermarkAboveCommitted)
                 else Inr \<lparr>end_tenant = pub_tenant p, end_session = pub_session p,
                           end_event = pub_event p, journal_seq = pub_seq p,
                           covered_through = pub_covered p, end_body = pub_body p,
                           end_encoded = encoded\<rparr>))"

section \<open>What the victim scan computes\<close>

definition key_is :: "string \<Rightarrow> qrec \<Rightarrow> bool" where
  "key_is k r \<longleftrightarrow> keyed r \<and> coalesce_key r = k"

definition key_count :: "string \<Rightarrow> qrec list \<Rightarrow> int" where
  "key_count k buf = int (length (filter (key_is k) buf))"

text \<open>
  The victim rule in the words of the code's contract: the oldest member of the busiest key,
  ties broken by age; without a keyed record the oldest ephemeral one; otherwise none.
\<close>

definition victim_rule :: "qrec list \<Rightarrow> int \<Rightarrow> bool" where
  "victim_rule buf v \<longleftrightarrow>
     (if \<exists>r \<in> set buf. keyed r then
        (\<exists>n k. v = int n \<and> first_index (key_is k) buf = Some n \<and>
           (\<forall>k'. key_count k' buf \<le> key_count k buf) \<and>
           (\<forall>k' n'. first_index (key_is k') buf = Some n' \<longrightarrow>
              key_count k' buf = key_count k buf \<longrightarrow> n \<le> n'))
      else v = (case first_index (\<lambda>r. droppable (rec_class r)) buf of
                  None \<Rightarrow> -1 | Some n \<Rightarrow> int n))"

lemma key_is_droppable: "key_is k r \<Longrightarrow> droppable (rec_class r)"
  by (simp add: key_is_def keyed_def)

lemma key_is_nonempty: "key_is k r \<Longrightarrow> k \<noteq> []"
  by (auto simp: key_is_def keyed_def)

lemma key_count_Cons [simp]:
  "key_count k (r # rs) = (if key_is k r then 1 else 0) + key_count k rs"
  by (simp add: key_count_def)

lemma key_count_Nil [simp]: "key_count k [] = 0"
  by (simp add: key_count_def)

lemma key_count_nonneg [simp]: "0 \<le> key_count k buf"
  by (simp add: key_count_def)

lemma key_count_pos: "0 < key_count k buf \<longleftrightarrow> (\<exists>r \<in> set buf. key_is k r)"
  by (induction buf) (auto simp: add_pos_nonneg)

lemma scan_record_not_keyed:
  "\<not> keyed r \<Longrightarrow> count_of_key (scan_record i r s) = count_of_key s \<and>
    oldest_of_key (scan_record i r s) = oldest_of_key s"
  by (auto simp: scan_record_def keyed_def Let_def)

lemma scan_record_keyed:
  "keyed r \<Longrightarrow>
    count_of_key (scan_record i r s) =
      (count_of_key s)(coalesce_key r \<mapsto> map_int (count_of_key s) (coalesce_key r) + 1) \<and>
    oldest_of_key (scan_record i r s) =
      (case oldest_of_key s (coalesce_key r) of
         None \<Rightarrow> (oldest_of_key s)(coalesce_key r \<mapsto> i) | Some j \<Rightarrow> oldest_of_key s)"
  by (auto simp: scan_record_def keyed_def Let_def split: option.splits)

lemma scan_count:
  "map_int (count_of_key (scan_from i rs s)) k = map_int (count_of_key s) k + key_count k rs"
proof (induction rs arbitrary: i s)
  case Nil
  then show ?case by simp
next
  case (Cons r rs)
  then show ?case
    by (cases "keyed r")
      (auto simp: scan_record_not_keyed scan_record_keyed key_is_def map_int_def)
qed

lemma scan_oldest:
  "oldest_of_key (scan_from i rs s) k =
    (case oldest_of_key s k of
       Some j \<Rightarrow> Some j
     | None \<Rightarrow> map_option (\<lambda>n. i + int n) (first_index (key_is k) rs))"
proof (induction rs arbitrary: i s)
  case Nil
  then show ?case by (simp split: option.splits)
next
  case (Cons r rs)
  show ?case
  proof (cases "keyed r")
    case True
    then show ?thesis
      using Cons scan_record_keyed [OF True, of i s]
      by (auto simp: key_is_def [of k r] option.map_comp comp_def algebra_simps split: option.splits)
  next
    case False
    then show ?thesis
      using Cons scan_record_not_keyed [OF False, of i s]
      by (auto simp: key_is_def [of k r] option.map_comp comp_def algebra_simps split: option.splits)
  qed
qed

lemma scan_ephemeral:
  "0 \<le> i \<Longrightarrow> oldest_ephemeral (scan_from i rs s) =
    (if oldest_ephemeral s < 0 then
       (case first_index (\<lambda>r. droppable (rec_class r)) rs of
          None \<Rightarrow> oldest_ephemeral s | Some n \<Rightarrow> i + int n)
     else oldest_ephemeral s)"
proof (induction rs arbitrary: i s)
  case Nil
  then show ?case by simp
next
  case (Cons r rs)
  have "oldest_ephemeral (scan_record i r s) =
      (if droppable (rec_class r) \<and> oldest_ephemeral s < 0 then i else oldest_ephemeral s)"
    by (simp add: scan_record_def Let_def)
  with Cons show ?case
    by (auto split: option.splits)
qed

subsection \<open>The range over the keys\<close>

text \<open>
  What the range has settled on after a list of keys: nothing yet, or the key that is busiest
  among them and, of the equally busy ones, oldest.
\<close>

definition best_of :: "(string \<Rightarrow> int) \<Rightarrow> (string \<Rightarrow> int) \<Rightarrow> string list \<Rightarrow> int \<times> int \<Rightarrow> bool" where
  "best_of c old ks vb \<longleftrightarrow>
     (if ks = [] then vb = (-1, 0)
      else \<exists>k \<in> set ks. vb = (old k, c k) \<and>
             (\<forall>k' \<in> set ks. c k' < c k \<or> (c k' = c k \<and> old k \<le> old k')))"

lemma best_of_pick:
  assumes vb: "best_of (map_int (count_of_key s)) (map_int (oldest_of_key s)) ks vb"
    and pos: "0 < map_int (count_of_key s) k"
  shows "best_of (map_int (count_of_key s)) (map_int (oldest_of_key s)) (ks @ [k])
           (pick_key s k vb)"
proof (cases "ks = []")
  case True
  with vb pos show ?thesis
    by (simp add: best_of_def pick_key_def Let_def)
next
  case False
  with vb obtain j where j: "j \<in> set ks"
      "vb = (map_int (oldest_of_key s) j, map_int (count_of_key s) j)"
      "\<forall>k' \<in> set ks. map_int (count_of_key s) k' < map_int (count_of_key s) j \<or>
         (map_int (count_of_key s) k' = map_int (count_of_key s) j \<and>
          map_int (oldest_of_key s) j \<le> map_int (oldest_of_key s) k')"
    by (auto simp: best_of_def)
  let ?c = "map_int (count_of_key s)" and ?o = "map_int (oldest_of_key s)"
  show ?thesis
  proof (cases "?c k > ?c j \<or> (?c k = ?c j \<and> ?o k < ?o j)")
    case True
    with j have "pick_key s k vb = (?o k, ?c k)"
      by (auto simp: pick_key_def Let_def)
    moreover have "\<forall>k' \<in> set (ks @ [k]). ?c k' < ?c k \<or> (?c k' = ?c k \<and> ?o k \<le> ?o k')"
      using True j(3) by fastforce
    ultimately show ?thesis by (auto simp: best_of_def)
  next
    case kept: False
    with j(2) have "pick_key s k vb = (?o j, ?c j)"
      by (simp add: pick_key_def Let_def)
    moreover have "\<forall>k' \<in> set (ks @ [k]). ?c k' < ?c j \<or> (?c k' = ?c j \<and> ?o j \<le> ?o k')"
      using kept j(3) by fastforce
    ultimately show ?thesis using j(1) by (auto simp: best_of_def)
  qed
qed

lemma best_of_fold:
  "(\<forall>k \<in> set ks. 0 < map_int (count_of_key s) k) \<Longrightarrow>
    best_of (map_int (count_of_key s)) (map_int (oldest_of_key s)) ks
      (fold (pick_key s) ks (-1, 0))"
proof (induction ks rule: rev_induct)
  case Nil
  then show ?case by (simp add: best_of_def)
next
  case (snoc k ks)
  then show ?case by (simp add: best_of_pick)
qed

lemma full_scan_count: "map_int (count_of_key (scan_from 0 buf empty_scan)) k = key_count k buf"
  using scan_count [of 0 buf empty_scan k] by (simp add: map_int_def empty_scan_def)

lemma full_scan_oldest:
  "first_index (key_is k) buf = Some n \<Longrightarrow>
    map_int (oldest_of_key (scan_from 0 buf empty_scan)) k = int n"
  by (simp add: scan_oldest empty_scan_def map_int_def)

definition enumerates_keys :: "string list \<Rightarrow> qrec list \<Rightarrow> bool" where
  "enumerates_keys order buf \<longleftrightarrow> set order = {k. \<exists>r \<in> set buf. key_is k r}"

lemma key_first_exists:
  "(\<exists>r \<in> set buf. key_is k r) \<longleftrightarrow> (\<exists>n. first_index (key_is k) buf = Some n)"
  using first_index_None [of "key_is k" buf] by auto

lemma select_victim_in_rule:
  assumes "enumerates_keys order buf"
  shows "victim_rule buf (select_victim_in order buf)"
proof (cases "order = []")
  case True
  with assms have none: "\<not> (\<exists>r \<in> set buf. keyed r)"
    by (auto simp: enumerates_keys_def key_is_def)
  then show ?thesis
    using True scan_ephemeral [of 0 buf empty_scan]
    by (simp add: victim_rule_def select_victim_in_def Let_def empty_scan_def split: option.splits)
next
  case False
  let ?s = "scan_from 0 buf empty_scan"
  obtain v b where vb: "fold (pick_key ?s) order (-1, 0) = (v, b)" by fastforce
  have keys: "k \<in> set order \<longleftrightarrow> (\<exists>n. first_index (key_is k) buf = Some n)" for k
    using assms key_first_exists by (simp add: enumerates_keys_def)
  have "\<forall>k \<in> set order. 0 < map_int (count_of_key ?s) k"
    using assms by (simp add: full_scan_count key_count_pos enumerates_keys_def)
  from best_of_fold [OF this] vb False obtain k where k: "k \<in> set order"
      "v = map_int (oldest_of_key ?s) k"
      "\<forall>k' \<in> set order. key_count k' buf < key_count k buf \<or>
         (key_count k' buf = key_count k buf \<and>
          map_int (oldest_of_key ?s) k \<le> map_int (oldest_of_key ?s) k')"
    by (auto simp: best_of_def full_scan_count)
  from k(1) keys obtain n where n: "first_index (key_is k) buf = Some n" by blast
  have v: "v = int n" using k(2) full_scan_oldest [OF n] by simp
  have "key_count k' buf \<le> key_count k buf" for k'
  proof (cases "k' \<in> set order")
    case True
    with k(3) show ?thesis by force
  next
    case False
    with keys key_first_exists [of buf k'] key_count_pos [of k' buf]
    have "\<not> 0 < key_count k' buf" by simp
    with key_count_nonneg [of k buf] show ?thesis by linarith
  qed
  moreover have "n \<le> n'" if "first_index (key_is k') buf = Some n'"
    "key_count k' buf = key_count k buf" for k' n'
  proof -
    from keys that(1) have "k' \<in> set order" by blast
    with k(3) that(2) have "map_int (oldest_of_key ?s) k \<le> map_int (oldest_of_key ?s) k'"
      by force
    with k(2) v full_scan_oldest [OF that(1)] show ?thesis by simp
  qed
  moreover have "\<exists>r \<in> set buf. keyed r"
    using n key_first_exists [of buf k] by (auto simp: key_is_def)
  ultimately have "victim_rule buf v"
    using v n by (auto simp: victim_rule_def)
  with vb v show ?thesis by (simp add: select_victim_in_def)
qed

lemma victim_rule_unique: "victim_rule buf v \<Longrightarrow> victim_rule buf w \<Longrightarrow> v = w"
proof (cases "\<exists>r \<in> set buf. keyed r")
  case True
  assume "victim_rule buf v" "victim_rule buf w"
  with True obtain n k n' k' where
      v: "v = int n" "first_index (key_is k) buf = Some n" "\<And>j. key_count j buf \<le> key_count k buf"
        "\<And>j m. first_index (key_is j) buf = Some m \<Longrightarrow> key_count j buf = key_count k buf \<Longrightarrow> n \<le> m"
    and w: "w = int n'" "first_index (key_is k') buf = Some n'"
        "\<And>j. key_count j buf \<le> key_count k' buf"
        "\<And>j m. first_index (key_is j) buf = Some m \<Longrightarrow> key_count j buf = key_count k' buf \<Longrightarrow> n' \<le> m"
    by (auto simp: victim_rule_def)
  have "key_count k buf = key_count k' buf"
    using v(3) w(3) by (simp add: order_antisym)
  with v(4) [OF w(2)] w(4) [OF v(2)] v(1) w(1) show ?thesis by simp
next
  case False
  assume "victim_rule buf v" "victim_rule buf w"
  with False show ?thesis by (auto simp: victim_rule_def)
qed

lemma key_order_enumerates: "enumerates_keys (key_order buf) buf"
  by (auto simp: enumerates_keys_def key_order_def key_is_def)

lemma select_victim_rule: "victim_rule buf (select_victim buf)"
  by (simp add: select_victim_def select_victim_in_rule key_order_enumerates)

text \<open>The rule names an index exactly when the buffer holds an ephemeral record.\<close>

lemma victim_rule_cases:
  assumes "victim_rule buf v"
  obtains n where "v = int n" "n < length buf" "droppable (rec_class (buf ! n))"
  | "v = -1" "\<forall>r \<in> set buf. \<not> droppable (rec_class r)"
proof (cases "\<exists>r \<in> set buf. keyed r")
  case True
  with assms obtain n k where n: "v = int n" "first_index (key_is k) buf = Some n"
    unfolding victim_rule_def by auto
  from first_index_SomeD [OF n(2)] n(1) show ?thesis
    using that(1) [of n] key_is_droppable by blast
next
  case False
  with assms have v: "v = (case first_index (\<lambda>r. droppable (rec_class r)) buf of
      None \<Rightarrow> -1 | Some n \<Rightarrow> int n)"
    unfolding victim_rule_def by simp
  show ?thesis
  proof (cases "first_index (\<lambda>r. droppable (rec_class r)) buf")
    case None
    with v that(2) show ?thesis by (simp add: first_index_None)
  next
    case (Some n)
    with v that(1) [of n] first_index_SomeD [OF Some] show ?thesis by simp
  qed
qed

lemma victim_rule_droppable:
  assumes "victim_rule buf v" and "0 \<le> v"
  shows "nat v < length buf \<and> droppable (rec_class (buf ! nat v))"
  using assms(1) by (rule victim_rule_cases) (use assms(2) in simp_all)

lemma victim_rule_none:
  assumes "victim_rule buf v"
  shows "v < 0 \<longleftrightarrow> (\<forall>r \<in> set buf. \<not> droppable (rec_class r))"
  using assms by (rule victim_rule_cases) auto

lemmas select_victim_droppable = victim_rule_droppable [OF select_victim_rule]
lemmas select_victim_none = victim_rule_none [OF select_victim_rule]

section \<open>Invariant and branches of the queue\<close>

definition queue_ok :: "queue \<Rightarrow> bool" where
  "queue_ok q \<longleftrightarrow>
     1 \<le> qcapacity q \<and> int (length (qbuf q)) \<le> qcapacity q \<and> (qclosed q \<longrightarrow> qbuf q = [])"

definition durable :: "qrec \<Rightarrow> bool" where
  "durable r \<longleftrightarrow> \<not> droppable (rec_class r)"

lemma new_queue_ok [inv_keep]: "new_queue cap = Inr q \<Longrightarrow> queue_ok q"
  by (auto simp: new_queue_def queue_ok_def split: if_splits)

text \<open>The five branches of an enqueue, by what the queue holds.\<close>

lemma enqueue_closed [queue_simps]: "qclosed q \<Longrightarrow> enqueue r q = (Some ErrQueueClosed, q)"
  by (simp add: enqueue_def)

lemma enqueue_room [queue_simps]:
  "\<not> qclosed q \<Longrightarrow> qlen q < qcapacity q \<Longrightarrow> enqueue r q = (None, q\<lparr>qbuf := qbuf q @ [r]\<rparr>)"
  by (simp add: enqueue_def qlen_def)

lemma enqueue_full_durable [queue_simps]:
  assumes "\<not> qclosed q" "\<not> qlen q < qcapacity q" "\<forall>x \<in> set (qbuf q). durable x"
  shows "enqueue r q = (Some (if durable r then ErrOverflow else ErrDropped), q)"
  using assms select_victim_none [of "qbuf q"]
  by (simp add: enqueue_def qlen_def durable_def Let_def)

lemma enqueue_full_evicts:
  assumes "\<not> qclosed q" "\<not> qlen q < qcapacity q" "\<exists>x \<in> set (qbuf q). \<not> durable x"
  obtains n where "n < length (qbuf q)" "\<not> durable (qbuf q ! n)" "victim_rule (qbuf q) (int n)"
    "enqueue r q = (None, q\<lparr>qbuf := remove_nth n (qbuf q) @ [r]\<rparr>)"
proof -
  let ?v = "select_victim (qbuf q)"
  from assms(3) have v: "0 \<le> ?v"
    using select_victim_none [of "qbuf q"] by (auto simp: durable_def)
  with assms have "enqueue r q = (None, q\<lparr>qbuf := remove_nth (nat ?v) (qbuf q) @ [r]\<rparr>)"
    by (simp add: enqueue_def qlen_def Let_def)
  with v select_victim_droppable [OF v] select_victim_rule [of "qbuf q"] show thesis
    using that [of "nat ?v"] by (simp add: durable_def)
qed

lemma enqueue_cases [case_names closed room full evict]:
  obtains "qclosed q" "enqueue r q = (Some ErrQueueClosed, q)"
  | "\<not> qclosed q" "qlen q < qcapacity q" "enqueue r q = (None, q\<lparr>qbuf := qbuf q @ [r]\<rparr>)"
  | "\<not> qclosed q" "\<not> qlen q < qcapacity q" "\<forall>x \<in> set (qbuf q). durable x"
    "enqueue r q = (Some (if durable r then ErrOverflow else ErrDropped), q)"
  | n where "\<not> qclosed q" "\<not> qlen q < qcapacity q" "n < length (qbuf q)"
    "\<not> durable (qbuf q ! n)" "victim_rule (qbuf q) (int n)"
    "enqueue r q = (None, q\<lparr>qbuf := remove_nth n (qbuf q) @ [r]\<rparr>)"
proof -
  consider "qclosed q" | "\<not> qclosed q" "qlen q < qcapacity q"
    | "\<not> qclosed q" "\<not> qlen q < qcapacity q" "\<forall>x \<in> set (qbuf q). durable x"
    | "\<not> qclosed q" "\<not> qlen q < qcapacity q" "\<exists>x \<in> set (qbuf q). \<not> durable x"
    by blast
  then show thesis
  proof cases
    case 1
    then show thesis using that(1) enqueue_closed by blast
  next
    case 2
    then show thesis using that(2) enqueue_room by blast
  next
    case 3
    then show thesis using that(3) enqueue_full_durable by blast
  next
    case 4
    then show thesis using that(4) by (metis enqueue_full_evicts)
  qed
qed

lemma enqueue_refused: "fst (enqueue r q) \<noteq> None \<Longrightarrow> snd (enqueue r q) = q"
  by (cases r q rule: enqueue_cases) simp_all

lemma enqueue_durable:
  "filter durable (qbuf (snd (enqueue r q))) =
    filter durable (qbuf q) @ (if fst (enqueue r q) = None \<and> durable r then [r] else [])"
  by (cases r q rule: enqueue_cases) (simp_all add: filter_remove_nth)

lemma enqueue_ok [inv_keep]: "queue_ok q \<Longrightarrow> queue_ok (snd (enqueue r q))"
  by (cases r q rule: enqueue_cases) (auto simp: queue_ok_def qlen_def)

lemma qnext_ok [inv_keep]: "queue_ok q \<Longrightarrow> queue_ok (snd (qnext q))"
  by (auto simp: queue_ok_def qnext_def split: list.splits)

lemma qnext_Some: "fst (qnext q) = Some r \<Longrightarrow> qbuf q = r # qbuf (snd (qnext q))"
  by (auto simp: qnext_def split: if_splits list.splits)

lemma qnext_None: "fst (qnext q) = None \<Longrightarrow> snd (qnext q) = q"
  by (auto simp: qnext_def split: if_splits list.splits)

lemma qhead_qnext: "qhead q = fst (qnext q)"
  by (simp add: qhead_def qnext_def split: list.split)

lemma qclear_ok [inv_keep]: "queue_ok q \<Longrightarrow> queue_ok (qclear q)"
  by (auto simp: queue_ok_def qclear_def)

lemma qrepair_ok [inv_keep]: "queue_ok q \<Longrightarrow> queue_ok (snd (qrepair c q))"
  by (auto simp: queue_ok_def qrepair_def)

lemma qclose_ok [inv_keep]: "queue_ok q \<Longrightarrow> queue_ok (qclose q)"
  by (auto simp: queue_ok_def qclose_def)

section \<open>The interface the delivery path relies on\<close>

text \<open>
  What a producer and a consumer of a bounded buffer may assume: a refused offer changes
  nothing, an accepted one adds its record behind the durable records already there and takes
  none of them away, and a take removes exactly the oldest record. The relay's pump is such a
  client.
\<close>

fun offer_all :: "('r \<Rightarrow> 'q \<Rightarrow> 'e option \<times> 'q) \<Rightarrow> 'r list \<Rightarrow> 'q \<Rightarrow> 'r list \<times> 'q" where
  \<comment> \<open>Offers a list in order; returns the records the buffer took and the new buffer.\<close>
  "offer_all enq [] q = ([], q)"
| "offer_all enq (r # rs) q =
     (let (e, q1) = enq r q; (taken, q2) = offer_all enq rs q1
      in (if e = None then r # taken else taken, q2))"

locale durable_buffer =
  fixes enq :: "'r \<Rightarrow> 'q \<Rightarrow> 'e option \<times> 'q"
    and deq :: "'q \<Rightarrow> 'r option \<times> 'q"
    and items :: "'q \<Rightarrow> 'r list"
    and lasting :: "'r \<Rightarrow> bool"
    and invar :: "'q \<Rightarrow> bool"
  assumes enq_invar: "invar q \<Longrightarrow> invar (snd (enq r q))"
    and enq_lasting: "invar q \<Longrightarrow>
      filter lasting (items (snd (enq r q))) =
        filter lasting (items q) @ (if fst (enq r q) = None \<and> lasting r then [r] else [])"
    and enq_refuse: "invar q \<Longrightarrow> fst (enq r q) \<noteq> None \<Longrightarrow> snd (enq r q) = q"
    and deq_invar: "invar q \<Longrightarrow> invar (snd (deq q))"
    and deq_oldest: "invar q \<Longrightarrow> fst (deq q) = Some r \<Longrightarrow> items q = r # items (snd (deq q))"
    and deq_none: "invar q \<Longrightarrow> fst (deq q) = None \<Longrightarrow> snd (deq q) = q"
begin

lemma offer_all_lasting:
  "invar q \<Longrightarrow> offer_all enq rs q = (taken, q') \<Longrightarrow>
    invar q' \<and> filter lasting (items q') = filter lasting (items q) @ filter lasting taken"
proof (induction rs arbitrary: q taken q')
  case Nil
  then show ?case by simp
next
  case (Cons r rs)
  obtain e q1 where e: "enq r q = (e, q1)" by fastforce
  obtain ts q2 where ts: "offer_all enq rs q1 = (ts, q2)" by fastforce
  from Cons.prems(1) e enq_invar [of q r] have "invar q1" by simp
  from Cons.IH [OF this ts]
  have "invar q2" "filter lasting (items q2) = filter lasting (items q1) @ filter lasting ts"
    by simp_all
  moreover have "filter lasting (items q1) =
      filter lasting (items q) @ (if e = None \<and> lasting r then [r] else [])"
    using enq_lasting [OF Cons.prems(1), of r] e by simp
  ultimately show ?case
    using Cons.prems(2) e ts by (auto simp: Let_def split: if_splits)
qed

lemma take_lasting:
  assumes "invar q"
  shows "filter lasting (items q) =
    (case fst (deq q) of Some r \<Rightarrow> (if lasting r then [r] else []) | None \<Rightarrow> []) @
    filter lasting (items (snd (deq q)))"
  using assms by (cases "fst (deq q)") (simp_all add: deq_oldest deq_none)

end

interpretation dq: durable_buffer enqueue qnext qbuf durable queue_ok
  by unfold_locales
    (simp_all add: enqueue_ok enqueue_durable enqueue_refused qnext_ok qnext_Some qnext_None)

section \<open>Interleavings of queue operations\<close>

text \<open>
  Every method holds the mutex for its whole body, so any concurrent use is a sequence of
  operations. A step reports the records that entered the queue and those that left it: handed
  out by \<open>Next\<close>, or discarded unapplied by \<open>Clear\<close>, \<open>Repair\<close> and \<open>Close\<close>.
\<close>

datatype queue_op =
    OpEnqueue qrec | OpHead | OpNext | OpClear | OpRepair qrec | OpClose

fun queue_step :: "queue_op \<Rightarrow> queue \<Rightarrow> qrec list \<times> qrec list \<times> queue" where
  "queue_step (OpEnqueue r) q =
     (let (e, q') = enqueue r q in (if e = None then [r] else [], [], q'))"
| "queue_step OpHead q = ([], [], q)"
| "queue_step OpNext q =
     (let (r, q') = qnext q in ([], case r of None \<Rightarrow> [] | Some x \<Rightarrow> [x], q'))"
| "queue_step OpClear q = ([], qbuf q, qclear q)"
| "queue_step (OpRepair c) q =
     (let (e, q') = qrepair c q in if e = None then ([c], qbuf q, q') else ([], [], q'))"
| "queue_step OpClose q = ([], qbuf q, qclose q)"

fun queue_run :: "queue_op list \<Rightarrow> queue \<Rightarrow> qrec list \<times> qrec list \<times> queue" where
  "queue_run [] q = ([], [], q)"
| "queue_run (x # xs) q =
     (let (ins, outs, q1) = queue_step x q; (ins', outs', q2) = queue_run xs q1
      in (ins @ ins', outs @ outs', q2))"

lemma queue_step_ok [inv_keep]: "queue_ok q \<Longrightarrow> queue_ok (snd (snd (queue_step x q)))"
  by (cases x)
    (simp_all add: Let_def split_beta enqueue_ok qnext_ok qrepair_ok qclear_ok qclose_ok)

text \<open>One step moves durable records in at the back and out at the front, and loses none.\<close>

lemma queue_step_durable:
  assumes "queue_ok q"
  shows "filter durable (fst (snd (queue_step x q))) @ filter durable (qbuf (snd (snd (queue_step x q))))
    = filter durable (qbuf q) @ filter durable (fst (queue_step x q))"
proof (cases x)
  case (OpEnqueue r)
  then show ?thesis by (simp add: Let_def split_beta enqueue_durable)
next
  case OpNext
  then show ?thesis
    using dq.take_lasting [OF assms] by (simp add: Let_def split_beta split: option.splits)
next
  case OpClear
  with assms show ?thesis by (auto simp: qclear_def queue_ok_def)
qed (auto simp: qrepair_def qclose_def)

lemma queue_run_durable:
  "queue_ok q \<Longrightarrow> queue_run ops q = (ins, outs, q') \<Longrightarrow>
    queue_ok q' \<and>
    filter durable outs @ filter durable (qbuf q') = filter durable (qbuf q) @ filter durable ins"
proof (induction ops arbitrary: q ins outs q')
  case Nil
  then show ?case by simp
next
  case (Cons x ops)
  obtain i1 o1 q1 where st: "queue_step x q = (i1, o1, q1)" by (metis prod_cases3)
  obtain i2 o2 q2 where rn: "queue_run ops q1 = (i2, o2, q2)" by (metis prod_cases3)
  have ok: "queue_ok q1" using queue_step_ok [OF Cons.prems(1), of x] st by simp
  have step: "filter durable o1 @ filter durable (qbuf q1) = filter durable (qbuf q) @ filter durable i1"
    using queue_step_durable [OF Cons.prems(1), of x] st by simp
  have rest: "queue_ok q2"
      "filter durable o2 @ filter durable (qbuf q2) = filter durable (qbuf q1) @ filter durable i2"
    using Cons.IH [OF ok rn] by simp_all
  have "filter durable (o1 @ o2) @ filter durable (qbuf q2) =
      filter durable o1 @ filter durable (qbuf q1) @ filter durable i2"
    using rest(2) by simp
  also have "\<dots> = filter durable (qbuf q) @ filter durable (i1 @ i2)"
    using step by (metis append.assoc filter_append)
  finally show ?case
    using Cons.prems(2) st rn rest(1) by auto
qed

lemma queue_step_capacity: "qcapacity (snd (snd (queue_step x q))) = qcapacity q"
proof (cases x)
  case (OpEnqueue r)
  then show ?thesis by (cases r q rule: enqueue_cases) simp_all
qed (auto simp: Let_def split_beta qnext_def qclear_def qrepair_def qclose_def split: list.split)

lemma queue_run_capacity: "queue_run ops q = (ins, outs, q') \<Longrightarrow> qcapacity q' = qcapacity q"
proof (induction ops arbitrary: q ins outs q')
  case Nil
  then show ?case by simp
next
  case (Cons x ops)
  then show ?case
    using queue_step_capacity [of x q]
    by (auto simp: Let_def split: prod.splits)
qed

section \<open>Properties\<close>

text \<open>
  C6. However its operations interleave, a queue made by \<open>NewQueue\<close> never loses or reorders a
  durable record: the durable records that left it, delivered by \<open>Next\<close> or discarded by an
  explicit \<open>Clear\<close>, \<open>Repair\<close> or \<open>Close\<close>, followed by those still buffered, are exactly the
  durable records it accepted, in the order of acceptance; and it never holds more records
  than its capacity.
\<close>

theorem durable_records_conserved:
  assumes "new_queue cap = Inr q0" and "queue_run ops q0 = (ins, outs, q)"
  shows "filter durable outs @ filter durable (qbuf q) = filter durable ins \<and> qlen q \<le> cap"
proof -
  from assms(1) have q0: "queue_ok q0" "qbuf q0 = []" "qcapacity q0 = cap"
    by (auto simp: new_queue_ok new_queue_def split: if_splits)
  with queue_run_durable [OF q0(1) assms(2)] queue_run_capacity [OF assms(2)] show ?thesis
    by (simp add: queue_ok_def qlen_def)
qed

definition rec_e :: "nat \<Rightarrow> qrec" where
  "rec_e n = \<lparr>rec_class = ClassEnduring, rec_encoded = ''e'', rec_seq = of_nat n, coalesce_key = []\<rparr>"

definition rec_d :: "string \<Rightarrow> qrec" where
  "rec_d k = \<lparr>rec_class = ClassEphemeral, rec_encoded = ''d'', rec_seq = 0, coalesce_key = k\<rparr>"

theorem durable_records_conserved_witness:
  "filter durable [rec_e 1] @ filter durable [rec_e 2] = filter durable [rec_e 1, rec_d ''k'', rec_e 2]
    \<and> (1::int) \<le> 2"
proof -
  have q0: "new_queue 2 = Inr \<lparr>qcapacity = 2, qclosed = False, qbuf = []\<rparr>"
    by (simp add: new_queue_def)
  have run: "queue_run [OpEnqueue (rec_e 1), OpEnqueue (rec_d ''k''), OpEnqueue (rec_e 2), OpNext]
      \<lparr>qcapacity = 2, qclosed = False, qbuf = []\<rparr> =
      ([rec_e 1, rec_d ''k'', rec_e 2], [rec_e 1],
       \<lparr>qcapacity = 2, qclosed = False, qbuf = [rec_e 2]\<rparr>)"
    by (simp add: enqueue_def select_victim_def select_victim_in_def key_order_def keyed_def
        scan_record_def empty_scan_def pick_key_def map_int_def droppable_def rec_e_def rec_d_def
        qnext_def remove_nth_def Let_def)
  show ?thesis
    using durable_records_conserved [OF q0 run] by (simp add: qlen_def)
qed

text \<open>
  The three outcomes of \<open>Enqueue\<close> on an open queue are exactly the documented ones: an
  overflow is reported precisely when the queue is full, holds nothing ephemeral and the
  arrival is durable; a drop precisely when it is full, holds nothing ephemeral and the
  arrival is ephemeral; both leave the queue unchanged. Otherwise the record is taken at the
  back and, when the queue was full, exactly one ephemeral record chosen by the victim rule
  makes room for it.
\<close>

theorem enqueue_outcomes:
  assumes "\<not> qclosed q" and "enqueue r q = (e, q')"
  shows "(e = Some ErrOverflow \<longleftrightarrow>
            qcapacity q \<le> qlen q \<and> (\<forall>x \<in> set (qbuf q). durable x) \<and> durable r) \<and>
         (e = Some ErrDropped \<longleftrightarrow>
            qcapacity q \<le> qlen q \<and> (\<forall>x \<in> set (qbuf q). durable x) \<and> \<not> durable r) \<and>
         (e = None \<or> (e \<in> {Some ErrOverflow, Some ErrDropped} \<and> q' = q)) \<and>
         (e = None \<longrightarrow>
            (if qlen q < qcapacity q then qbuf q' = qbuf q @ [r]
             else \<exists>n < length (qbuf q). \<not> durable (qbuf q ! n) \<and> victim_rule (qbuf q) (int n) \<and>
                    qbuf q' = remove_nth n (qbuf q) @ [r]))"
  by (cases r q rule: enqueue_cases) (use assms in \<open>auto\<close>)

theorem enqueue_outcomes_witness:
  "fst (enqueue (rec_e 2) \<lparr>qcapacity = 1, qclosed = False, qbuf = [rec_e 1]\<rparr>) = Some ErrOverflow"
proof -
  have "enqueue (rec_e 2) \<lparr>qcapacity = 1, qclosed = False, qbuf = [rec_e 1]\<rparr> =
      (Some ErrOverflow, \<lparr>qcapacity = 1, qclosed = False, qbuf = [rec_e 1]\<rparr>)"
    by (simp add: enqueue_full_durable qlen_def durable_def droppable_def rec_e_def)
  from enqueue_outcomes [OF _ this] this show ?thesis by simp
qed

text \<open>
  C35. The victim of a full buffer is a function of the buffer and not of Go's map iteration
  order: ranging over the keys in any order that enumerates them gives the same index, and
  that index obeys the coalesce-then-drop rule (the oldest member of the busiest key, ties to
  the older key; else the oldest ephemeral record; else none).
\<close>

theorem victim_independent_of_range_order:
  assumes "enumerates_keys order buf"
  shows "select_victim_in order buf = select_victim buf \<and> victim_rule buf (select_victim buf)"
  using victim_rule_unique [OF select_victim_in_rule [OF assms] select_victim_rule]
    select_victim_rule by simp

theorem victim_independent_of_range_order_witness:
  "select_victim_in [''b'', ''a''] [rec_e 1, rec_d ''a'', rec_d ''b'', rec_d ''b'', rec_d ''a''] = 1"
proof -
  let ?buf = "[rec_e 1, rec_d ''a'', rec_d ''b'', rec_d ''b'', rec_d ''a'']"
  have "enumerates_keys [''b'', ''a''] ?buf"
    by (auto simp: enumerates_keys_def key_is_def keyed_def droppable_def rec_e_def rec_d_def)
  from victim_independent_of_range_order [OF this] show ?thesis
    by (simp add: select_victim_def select_victim_in_def key_order_def keyed_def
        scan_record_def empty_scan_def pick_key_def map_int_def droppable_def rec_e_def rec_d_def
        Let_def)
qed

text \<open>
  An accepted enduring record carries a watermark equal to its own journal sequence and no
  higher than what the Host says it has committed, and is queued for forwarding with exactly
  the bytes that were received; a record above the committed sequence is refused with
  \<open>ErrWatermarkAboveCommitted\<close>, and Core's own watermark refusal is classified apart from a
  malformed record.
\<close>

theorem parse_enduring_fenced:
  assumes "core_watermark core"
  shows "(\<forall>e. parse_enduring core b committed = Inr e \<longrightarrow>
            journal_seq e = covered_through e \<and> journal_seq e \<le> committed \<and>
            rec_encoded (enduring_record e) = b \<and> rec_seq (enduring_record e) = journal_seq e) \<and>
         (\<forall>p. record_type_of core b = Inr RTEnduring \<longrightarrow> unmarshal_enduring core b = Inr p \<longrightarrow>
            committed < pub_seq p \<longrightarrow>
            parse_enduring core b committed = Inl (Sentinel ErrWatermarkAboveCommitted)) \<and>
         (\<forall>err. record_type_of core b = Inr RTEnduring \<longrightarrow> unmarshal_enduring core b = Inl err \<longrightarrow>
            \<not> errors_is ErrMalformed err \<longrightarrow> \<not> errors_is ErrWatermarkNotItsEventSequence err \<longrightarrow>
            (\<exists>err'. parse_enduring core b committed = Inl err' \<and>
               (errors_is ErrWatermarkNotItsEventSequence err' \<longleftrightarrow>
                  errors_as validation_field err = Some ''covered_through'') \<and>
               (errors_is ErrMalformed err' \<longleftrightarrow>
                  errors_as validation_field err \<noteq> Some ''covered_through'')))"
  using assms
  by (auto simp: parse_enduring_def core_watermark_def enduring_record_def not_le
      split: sum.splits if_splits)

definition sample_codec :: core_codec where
  "sample_codec = \<lparr>record_type_of = (\<lambda>b. Inr RTEnduring),
     unmarshal_enduring = (\<lambda>b. if b = ''bad'' then Inl (Sentinel (CoreErr (RequestValidationError ''covered_through'')))
       else Inr \<lparr>pub_tenant = ''t'', pub_session = ''s'', pub_event = ''v'', pub_seq = 7,
                pub_covered = 7, pub_body = b\<rparr>),
     unmarshal_ephemeral = (\<lambda>b. Inr \<lparr>eph_tenant = ''t'', eph_session = ''s''\<rparr>)\<rparr>"

theorem parse_enduring_fenced_witness:
  "core_watermark sample_codec \<and>
   parse_enduring sample_codec ''x'' 6 = Inl (Sentinel ErrWatermarkAboveCommitted) \<and>
   (\<exists>e. parse_enduring sample_codec ''x'' 7 = Inr e \<and> journal_seq e = 7 \<and> journal_seq e \<le> 7)"
proof -
  have h: "core_watermark sample_codec"
    by (auto simp: core_watermark_def sample_codec_def split: if_splits)
  have "record_type_of sample_codec ''x'' = Inr RTEnduring"
    by (simp add: sample_codec_def)
  moreover obtain p where "unmarshal_enduring sample_codec ''x'' = Inr p" "pub_seq p = 7"
    by (auto simp: sample_codec_def)
  ultimately have "parse_enduring sample_codec ''x'' 6 = Inl (Sentinel ErrWatermarkAboveCommitted)"
    using parse_enduring_fenced [OF h, of "''x''" 6] by simp
  moreover have "\<exists>e. parse_enduring sample_codec ''x'' 7 = Inr e \<and> journal_seq e = 7"
    by (simp add: parse_enduring_def sample_codec_def)
  ultimately show ?thesis
    using h parse_enduring_fenced [OF h, of "''x''" 7] by blast
qed

end
