(* ===== verification/Wire.thy ===== *)
theory Wire
  imports Delivery
begin

text \<open>
  The records of the wire contract and of the session store that several components read:
  Core's registry observation, capacity report and bind requests, and the catalog record.
  They are data of other modules; each is a record of the members the source reads. The
  decimal rendering of \<open>strconv\<close> and the error values of the store and of the routing package
  are here too.
\<close>

section \<open>Enumerations of the wire contract\<close>

datatype placement = Pooled | Dedicated | OtherPlacement string

datatype residency = Resident | OtherResidency string

datatype isolation = CrossTenantIsolated | OtherIsolation string

section \<open>Records\<close>

record registry_observation =
  obs_tenant :: tenant_id
  obs_session :: session_id
  obs_host :: host_id
  obs_generation :: u64
  obs_epoch :: u64
  obs_endpoint :: string
  obs_runtime :: string
  obs_agent :: string
  obs_placement :: placement
  obs_residency :: residency
  obs_accepting :: bool
  obs_expires :: time

record capacity_report =
  cap_host :: host_id
  cap_agent :: string
  cap_runtime :: string
  cap_placement :: placement
  cap_isolation :: isolation
  cap_accepting :: bool
  cap_available :: int
  cap_generation :: u64
  cap_endpoint :: string

record desired_workload =
  dw_version :: string
  dw_payload :: bytes

record catalog_record =
  cat_tenant :: tenant_id
  cat_session :: session_id
  cat_agent :: string
  cat_runtime :: string
  cat_placement :: placement
  cat_generation :: u64
  cat_workload :: desired_workload
  cat_last_seq :: u64
  cat_checkpoint_seq :: u64
  cat_initial_workload :: "desired_workload option" \<comment> \<open>absent when the record has no public create\<close>

record session_key =
  sk_tenant :: tenant_id
  sk_session :: session_id

text \<open>A request for the reconciliation claim of a session.\<close>

record claim_request =
  cl_key :: session_key
  cl_holder :: string
  cl_expires :: time

text \<open>A cursor is an opaque string, empty when there is none.\<close>

type_synonym cursor = string

section \<open>Store errors\<close>

datatype registry_code = RegistryNotFound | RegistryExpired | RegistryReleased | RegistryOther string

datatype keyspace_code = KeyspaceBindingNotFound | KeyspaceOther string

datatype reconcile_code = ReconcileHeld | ReconcileLapsed | ReconcileNotFound | ReconcileConflict | ReconcileOther string

datatype target_code = HostTargetCursor | HostTargetOther string

datatype catalog_code =
    CatalogConflict | CatalogNotFound | CatalogDeleted | CatalogIdentity | CatalogTooSoon | CatalogCursor
  | CatalogOther string

datatype inbox_code =
    InboxCursor | InboxEvidence | InboxClaimHeld | InboxClaimLost | InboxConflict | InboxTerminal
  | InboxNotFound | InboxDeleted | InboxState | InboxOther string

text \<open>A catalog error has its code and the field it is about.\<close>

datatype store_error =
    RegistryError registry_code | KeyspaceError keyspace_code
  | ReconcileError reconcile_code time | HostTargetError target_code
  | CatalogError catalog_code string | InboxError inbox_code | StoreOther string

section \<open>Decimal rendering\<close>

text \<open>\<open>strconv.Itoa\<close> of a length and \<open>strconv.FormatUint\<close> in base ten.\<close>

definition digit :: "nat \<Rightarrow> char" where
  "digit n = char_of (48 + n)"

fun decimal :: "nat \<Rightarrow> string" where
  "decimal n = (if n < 10 then [digit n] else decimal (n div 10) @ [digit (n mod 10)])"

declare decimal.simps [simp del]

definition digit_val :: "char \<Rightarrow> nat" where
  "digit_val c = of_char c - 48"

definition undecimal :: "string \<Rightarrow> nat" where
  "undecimal = foldl (\<lambda>a c. 10 * a + digit_val c) 0"

definition nul :: char where
  "nul = char_of (0::nat)"

lemma of_char_digit: "n < 10 \<Longrightarrow> of_char (digit n) = 48 + n"
  by (simp add: digit_def)

lemma digit_val_digit [simp]: "n < 10 \<Longrightarrow> digit_val (digit n) = n"
  by (simp add: digit_val_def of_char_digit)

lemma digit_not_nul: "n < 10 \<Longrightarrow> digit n \<noteq> nul"
  using of_char_digit [of n] by (auto simp: nul_def)

lemma undecimal_decimal [simp]: "undecimal (decimal n) = n"
proof (induction n rule: decimal.induct)
  case (1 n)
  then show ?case
    by (subst decimal.simps) (auto simp: undecimal_def)
qed

lemma decimal_nul_free: "nul \<notin> set (decimal n)"
proof (induction n rule: decimal.induct)
  case (1 n)
  then show ?case
    by (subst decimal.simps) (auto dest: sym simp: digit_not_nul [symmetric])
qed

lemma decimal_inject: "decimal m = decimal n \<longleftrightarrow> m = n"
  by (metis undecimal_decimal)

end
