(* ===== verification/Bindings.thy ===== *)
theory Bindings
  imports Wire
begin

text \<open>
  The local routing table of \<open>internal/routing/bindings.go\<close>: which Host each watched session is
  bound to and how many local subscribers want it. The table's mutex is held across the
  registry read and the bind, so each operation is one function of the table. The seams
  (\<open>Resolver\<close>, \<open>Binder\<close>, Core's \<open>Validate\<close>, the SHA-256 digest) are a record of functions over a
  world \<open>'w\<close> they may read and change; nothing is assumed of them.
\<close>

section \<open>Errors and requests\<close>

datatype routing_error =
    RErrInvalidConfig | ErrBindingsClosed | ErrNoOwner | ErrUnroutableOwner | ErrNoBinding
  | ErrNoDemand | ErrRouteGone | ErrDemandClosed | ErrRelayClosed | ErrNoHostBinding
  | ErrUnexpectedControl | ErrForeignRecord | ErrWouldBlock
  | DeliveryErr delivery_error | StoreErr store_error | CtxDone

type_synonym rerr = "routing_error go_err"

record binding_key =
  bk_tenant :: tenant_id
  bk_session :: session_id
  bk_host :: host_id
  bk_generation :: u64
  bk_epoch :: u64

record binding =
  b_key :: binding_key
  b_endpoint :: string
  b_runtime :: string

record bind_request =
  br_tenant :: tenant_id
  br_session :: session_id
  br_host :: host_id
  br_generation :: u64
  br_epoch :: u64
  br_runtime :: string
  br_idempotency :: string

record unbind_request =
  ub_tenant :: tenant_id
  ub_session :: session_id
  ub_host :: host_id
  ub_generation :: u64
  ub_epoch :: u64
  ub_idempotency :: string

record 'w route_seams =
  owner_of :: "tenant_id \<Rightarrow> session_id \<Rightarrow> 'w \<Rightarrow> (rerr + registry_observation option) \<times> 'w"
  binder_bind :: "string \<Rightarrow> bind_request \<Rightarrow> 'w \<Rightarrow> rerr option \<times> 'w"
  binder_unbind :: "unbind_request \<Rightarrow> 'w \<Rightarrow> rerr option \<times> 'w"
  binder_deliver :: "tenant_id \<Rightarrow> session_id \<Rightarrow> string \<Rightarrow> 'w \<Rightarrow> rerr option \<times> 'w"
  bind_validate :: "bind_request \<Rightarrow> rerr option"
  sha256_hex :: "bytes \<Rightarrow> string"
  route_reporter :: "(tenant_id \<Rightarrow> session_id \<Rightarrow> 'w \<Rightarrow> bool) option"

section \<open>The idempotency key of a bind\<close>

definition frame :: "string \<Rightarrow> bytes" where
  "frame field = decimal (length field) @ [nul] @ field"

definition bind_preimage :: "binding_key \<Rightarrow> bytes" where
  "bind_preimage k =
     frame ''hostbind/v1'' @ frame (bk_tenant k) @ frame (bk_session k) @ frame (bk_host k) @
     frame (decimal (unat (bk_generation k))) @ frame (decimal (unat (bk_epoch k)))"

definition bind_idempotency_key :: "(bytes \<Rightarrow> string) \<Rightarrow> binding_key \<Rightarrow> string" where
  "bind_idempotency_key sha k = sha (bind_preimage k)"

definition mk_bind_request :: "(bytes \<Rightarrow> string) \<Rightarrow> binding \<Rightarrow> bind_request" where
  "mk_bind_request sha b =
     \<lparr>br_tenant = bk_tenant (b_key b), br_session = bk_session (b_key b),
      br_host = bk_host (b_key b), br_generation = bk_generation (b_key b),
      br_epoch = bk_epoch (b_key b), br_runtime = b_runtime b,
      br_idempotency = bind_idempotency_key sha (b_key b)\<rparr>"

definition mk_unbind_request :: "(bytes \<Rightarrow> string) \<Rightarrow> binding \<Rightarrow> unbind_request" where
  "mk_unbind_request sha b =
     \<lparr>ub_tenant = bk_tenant (b_key b), ub_session = bk_session (b_key b),
      ub_host = bk_host (b_key b), ub_generation = bk_generation (b_key b),
      ub_epoch = bk_epoch (b_key b), ub_idempotency = bind_idempotency_key sha (b_key b)\<rparr>"

section \<open>The table\<close>

record session_route =
  rt_demand :: int
  rt_binding :: "binding option"  \<comment> \<open>\<open>Some\<close> is the Go pair with \<open>bound\<close> set\<close>

record bindings =
  bt_closed :: bool
  bt_sessions :: "session_key \<rightharpoonup> session_route"

definition new_bindings :: "bool \<Rightarrow> bool \<Rightarrow> rerr + bindings" where
  \<comment> \<open>The arguments say whether each seam was supplied, that is, is not nil.\<close>
  "new_bindings resolver binder =
     (if \<not> resolver then Inl (Sentinel RErrInvalidConfig)
      else if \<not> binder then Inl (Sentinel RErrInvalidConfig)
      else Inr \<lparr>bt_closed = False, bt_sessions = Map.empty\<rparr>)"

definition transport_holds :: "'w route_seams \<Rightarrow> session_key \<Rightarrow> 'w \<Rightarrow> bool" where
  "transport_holds sm k w =
     (case route_reporter sm of None \<Rightarrow> True | Some held \<Rightarrow> held (sk_tenant k) (sk_session k) w)"

definition bind_locked :: "'w route_seams \<Rightarrow> session_key \<Rightarrow> 'w \<Rightarrow> (rerr + binding) \<times> 'w" where
  "bind_locked sm k w =
     (case owner_of sm (sk_tenant k) (sk_session k) w of
        (Inl err, w1) \<Rightarrow> (Inl err, w1)
      | (Inr None, w1) \<Rightarrow> (Inl (Sentinel ErrNoOwner), w1)
      | (Inr (Some obs), w1) \<Rightarrow>
          let b = \<lparr>b_key = \<lparr>bk_tenant = sk_tenant k, bk_session = sk_session k,
                              bk_host = obs_host obs, bk_generation = obs_generation obs,
                              bk_epoch = obs_epoch obs\<rparr>,
                   b_endpoint = obs_endpoint obs, b_runtime = obs_runtime obs\<rparr>;
              req = mk_bind_request (sha256_hex sm) b
          in case bind_validate sm req of
               Some err \<Rightarrow> (Inl (Wrapped [Sentinel ErrUnroutableOwner, err]), w1)
             | None \<Rightarrow>
                 (case binder_bind sm (b_endpoint b) req w1 of
                    (Some err, w2) \<Rightarrow> (Inl err, w2)
                  | (None, w2) \<Rightarrow> (Inr b, w2)))"

definition route_locked ::
  "'w route_seams \<Rightarrow> session_key \<Rightarrow> bindings \<Rightarrow> 'w \<Rightarrow> (rerr + binding) \<times> bindings \<times> 'w" where
  \<comment> \<open>The Go function returns the route pointer; its callers read the binding and update the
     table entry, which the returned table already holds.\<close>
  "route_locked sm k t w =
     (case bt_sessions t k of
        Some r \<Rightarrow>
          (case rt_binding r of
             Some b \<Rightarrow> (Inr b, t, w)
           | None \<Rightarrow>
               (case bind_locked sm k w of
                  (Inl err, w1) \<Rightarrow> (Inl err, t, w1)
                | (Inr b, w1) \<Rightarrow>
                    (Inr b, t\<lparr>bt_sessions := (bt_sessions t)(k \<mapsto> r\<lparr>rt_binding := Some b\<rparr>)\<rparr>, w1)))
      | None \<Rightarrow>
          (case bind_locked sm k w of
             (Inl err, w1) \<Rightarrow> (Inl err, t, w1)
           | (Inr b, w1) \<Rightarrow>
               (Inr b, t\<lparr>bt_sessions := (bt_sessions t)(k \<mapsto> \<lparr>rt_demand = 0, rt_binding = Some b\<rparr>)\<rparr>, w1)))"

definition add_demand :: "session_key \<Rightarrow> int \<Rightarrow> bindings \<Rightarrow> bindings" where
  "add_demand k n t =
     (case bt_sessions t k of
        None \<Rightarrow> t
      | Some r \<Rightarrow> t\<lparr>bt_sessions := (bt_sessions t)(k \<mapsto> r\<lparr>rt_demand := rt_demand r + n\<rparr>)\<rparr>)"

definition acquire ::
  "'w route_seams \<Rightarrow> session_key \<Rightarrow> bindings \<Rightarrow> 'w \<Rightarrow> (rerr + binding) \<times> bindings \<times> 'w" where
  "acquire sm k t w =
     (if bt_closed t then (Inl (Sentinel ErrBindingsClosed), t, w)
      else case route_locked sm k t w of
             (Inl err, t1, w1) \<Rightarrow> (Inl err, t1, w1)
           | (Inr b, t1, w1) \<Rightarrow> (Inr b, add_demand k 1 t1, w1))"

definition release ::
  "'w route_seams \<Rightarrow> session_key \<Rightarrow> bindings \<Rightarrow> 'w \<Rightarrow> rerr option \<times> bindings \<times> 'w" where
  "release sm k t w =
     (if bt_closed t then (Some (Sentinel ErrBindingsClosed), t, w)
      else case bt_sessions t k of
             None \<Rightarrow> (Some (Sentinel ErrNoDemand), t, w)
           | Some r \<Rightarrow>
               if rt_demand r = 0 then (Some (Sentinel ErrNoDemand), t, w)
               else if rt_demand r - 1 > 0 then (None, add_demand k (-1) t, w)
               else
                 let t1 = t\<lparr>bt_sessions := (bt_sessions t)(k := None)\<rparr>
                 in case rt_binding r of
                      None \<Rightarrow> (None, t1, w)
                    | Some b \<Rightarrow>
                        let (err, w1) = binder_unbind sm (mk_unbind_request (sha256_hex sm) b) w
                        in (err, t1, w1))"

text \<open>The part of \<open>Deliver\<close> that runs under the lock, and the delivery itself, which does not.\<close>

definition deliver_route ::
  "'w route_seams \<Rightarrow> session_key \<Rightarrow> bindings \<Rightarrow> 'w \<Rightarrow> (rerr + binding_key) \<times> bindings \<times> 'w" where
  "deliver_route sm k t w =
     (if bt_closed t then (Inl (Sentinel ErrBindingsClosed), t, w)
      else case bt_sessions t k of
             None \<Rightarrow> (Inl (Sentinel ErrNoBinding), t, w)
           | Some r \<Rightarrow>
               if rt_demand r = 0 then (Inl (Sentinel ErrNoBinding), t, w)
               else case route_locked sm k t w of
                      (Inl err, t1, w1) \<Rightarrow> (Inl err, t1, w1)
                    | (Inr b, t1, w1) \<Rightarrow> (Inr (b_key b), t1, w1))"

definition deliver ::
  "'w route_seams \<Rightarrow> session_key \<Rightarrow> string \<Rightarrow> bindings \<Rightarrow> 'w \<Rightarrow> rerr option \<times> bindings \<times> 'w" where
  "deliver sm k cmd t w =
     (case deliver_route sm k t w of
        (Inl err, t1, w1) \<Rightarrow> (Some err, t1, w1)
      | (Inr target, t1, w1) \<Rightarrow>
          let (err, w2) = binder_deliver sm (bk_tenant target) (bk_session target) cmd w1
          in (err, t1, w2))"

definition stale_or_same :: "binding_key \<Rightarrow> registry_observation \<Rightarrow> bool" where
  "stale_or_same held obs \<longleftrightarrow>
     obs_epoch obs < bk_epoch held \<or>
     (obs_host obs = bk_host held \<and> obs_generation obs = bk_generation held \<and>
      obs_epoch obs = bk_epoch held)"

definition observe ::
  "'w route_seams \<Rightarrow> registry_observation \<Rightarrow> bindings \<Rightarrow> 'w \<Rightarrow> bool \<times> bindings \<times> 'w" where
  "observe sm obs t w =
     (let k = \<lparr>sk_tenant = obs_tenant obs, sk_session = obs_session obs\<rparr>
      in if bt_closed t then (False, t, w)
         else case bt_sessions t k of
                None \<Rightarrow> (False, t, w)
              | Some r \<Rightarrow>
                  (case rt_binding r of
                     None \<Rightarrow> (False, t, w)
                   | Some b \<Rightarrow>
                       if stale_or_same (b_key b) obs then (False, t, w)
                       else
                         let t1 = t\<lparr>bt_sessions := (bt_sessions t)(k \<mapsto> r\<lparr>rt_binding := None\<rparr>)\<rparr>;
                             (err, w1) = binder_unbind sm (mk_unbind_request (sha256_hex sm) b) w
                         in (True, t1, w1)))"

definition binding_of :: "session_key \<Rightarrow> bindings \<Rightarrow> binding option" where
  "binding_of k t = (case bt_sessions t k of None \<Rightarrow> None | Some r \<Rightarrow> rt_binding r)"

definition demand_of :: "session_key \<Rightarrow> bindings \<Rightarrow> int" where
  "demand_of k t = (case bt_sessions t k of None \<Rightarrow> 0 | Some r \<Rightarrow> rt_demand r)"

definition bindings_len :: "bindings \<Rightarrow> nat" where
  "bindings_len t = card (dom (bt_sessions t))"

text \<open>\<open>Close\<close> ranges over the table in Go's unspecified order, given here as \<open>order\<close>.\<close>

fun close_loop ::
  "'w route_seams \<Rightarrow> session_key list \<Rightarrow> bindings \<Rightarrow> 'w \<Rightarrow> rerr option list \<times> bindings \<times> 'w" where
  "close_loop sm [] t w = ([], t, w)"
| "close_loop sm (k # ks) t w =
     (case bt_sessions t k of
        None \<Rightarrow> close_loop sm ks t w
      | Some r \<Rightarrow>
          let t1 = t\<lparr>bt_sessions := (bt_sessions t)(k := None)\<rparr>
          in case rt_binding r of
               None \<Rightarrow> close_loop sm ks t1 w
             | Some b \<Rightarrow>
                 let (err, w1) = binder_unbind sm (mk_unbind_request (sha256_hex sm) b) w;
                     (fs, t2, w2) = close_loop sm ks t1 w1
                 in (if err \<noteq> None \<and> \<not> err_is ErrRouteGone err then err # fs else fs, t2, w2))"

definition close_bindings ::
  "'w route_seams \<Rightarrow> session_key list \<Rightarrow> bindings \<Rightarrow> 'w \<Rightarrow> rerr option \<times> bindings \<times> 'w" where
  "close_bindings sm order t w =
     (let (fs, t1, w1) = close_loop sm order (t\<lparr>bt_closed := True\<rparr>) w
      in (errors_join fs, t1, w1))"

section \<open>The framing is injective\<close>

lemma frame_inject:
  assumes "frame a @ xs = frame b @ ys"
  shows "a = b \<and> xs = ys"
proof -
  have tw: "takeWhile (\<lambda>c. c \<noteq> nul) (frame f @ zs) = decimal (length f)" for f zs
    by (simp add: frame_def takeWhile_append2 decimal_nul_free takeWhile_append1)
      (metis (mono_tags, lifting) append_self_conv decimal_nul_free takeWhile_append2 takeWhile.simps(2))
  from tw [of a xs] tw [of b ys] assms have len: "length a = length b"
    by (simp add: decimal_inject)
  from assms len have "a @ xs = b @ ys"
    by (simp add: frame_def)
  with len show ?thesis by simp
qed

lemma bind_preimage_inject: "bind_preimage k = bind_preimage k' \<longleftrightarrow> k = k'"
proof
  assume "bind_preimage k = bind_preimage k'"
  then have *: "frame (bk_tenant k) @ frame (bk_session k) @ frame (bk_host k) @
       frame (decimal (unat (bk_generation k))) @ frame (decimal (unat (bk_epoch k))) =
     frame (bk_tenant k') @ frame (bk_session k') @ frame (bk_host k') @
       frame (decimal (unat (bk_generation k'))) @ frame (decimal (unat (bk_epoch k')))"
    by (simp add: bind_preimage_def)
  from frame_inject [OF *] have t: "bk_tenant k = bk_tenant k'"
    and *: "frame (bk_session k) @ frame (bk_host k) @
       frame (decimal (unat (bk_generation k))) @ frame (decimal (unat (bk_epoch k))) =
     frame (bk_session k') @ frame (bk_host k') @
       frame (decimal (unat (bk_generation k'))) @ frame (decimal (unat (bk_epoch k')))"
    by blast+
  from frame_inject [OF *] have s: "bk_session k = bk_session k'"
    and *: "frame (bk_host k) @
       frame (decimal (unat (bk_generation k))) @ frame (decimal (unat (bk_epoch k))) =
     frame (bk_host k') @
       frame (decimal (unat (bk_generation k'))) @ frame (decimal (unat (bk_epoch k')))"
    by blast+
  from frame_inject [OF *] have h: "bk_host k = bk_host k'"
    and *: "frame (decimal (unat (bk_generation k))) @ frame (decimal (unat (bk_epoch k))) =
       frame (decimal (unat (bk_generation k'))) @ frame (decimal (unat (bk_epoch k')))"
    by blast+
  from frame_inject [OF *] have "bk_generation k = bk_generation k'"
    and *: "frame (decimal (unat (bk_epoch k))) = frame (decimal (unat (bk_epoch k')))"
    by (auto simp: decimal_inject word_unat_eq_iff)
  moreover from * have "bk_epoch k = bk_epoch k'"
    using frame_inject [of "decimal (unat (bk_epoch k))" "[]" "decimal (unat (bk_epoch k'))" "[]"]
    by (simp add: decimal_inject word_unat_eq_iff)
  ultimately show "k = k'"
    using t s h by (simp add: binding_key.equality)
qed simp

section \<open>Invariant of the table\<close>

definition key_of :: "binding \<Rightarrow> session_key" where
  "key_of b = \<lparr>sk_tenant = bk_tenant (b_key b), sk_session = bk_session (b_key b)\<rparr>"

definition route_ok :: "session_key \<Rightarrow> session_route \<Rightarrow> bool" where
  "route_ok k r \<longleftrightarrow> 1 \<le> rt_demand r \<and> (\<forall>b. rt_binding r = Some b \<longrightarrow> key_of b = k)"

definition bindings_ok :: "bindings \<Rightarrow> bool" where
  "bindings_ok t \<longleftrightarrow>
     (bt_closed t \<longrightarrow> bt_sessions t = Map.empty) \<and>
     (\<forall>k r. bt_sessions t k = Some r \<longrightarrow> route_ok k r)"

lemma bindings_okD: "bindings_ok t \<Longrightarrow> bt_sessions t k = Some r \<Longrightarrow> route_ok k r"
  by (simp add: bindings_ok_def)

lemma bindings_ok_upd [intro]:
  "bindings_ok t \<Longrightarrow> \<not> bt_closed t \<Longrightarrow> route_ok k r \<Longrightarrow>
    bindings_ok (t\<lparr>bt_sessions := (bt_sessions t)(k \<mapsto> r)\<rparr>)"
  by (simp add: bindings_ok_def)

lemma bindings_ok_del [intro]:
  "bindings_ok t \<Longrightarrow> \<not> bt_closed t \<Longrightarrow> bindings_ok (t\<lparr>bt_sessions := (bt_sessions t)(k := None)\<rparr>)"
  by (simp add: bindings_ok_def)

lemma bindings_ok_demand [intro]:
  "bindings_ok t \<Longrightarrow> \<not> bt_closed t \<Longrightarrow> bt_sessions t k = Some r \<Longrightarrow> 1 \<le> n \<Longrightarrow>
    bindings_ok (t\<lparr>bt_sessions := (bt_sessions t)(k \<mapsto> r\<lparr>rt_demand := n\<rparr>)\<rparr>)"
  by (rule bindings_ok_upd) (auto simp: route_ok_def dest: bindings_okD)

lemma bindings_ok_unbind [intro]:
  "bindings_ok t \<Longrightarrow> \<not> bt_closed t \<Longrightarrow> bt_sessions t k = Some r \<Longrightarrow>
    bindings_ok (t\<lparr>bt_sessions := (bt_sessions t)(k \<mapsto> r\<lparr>rt_binding := None\<rparr>)\<rparr>)"
  by (rule bindings_ok_upd) (auto simp: route_ok_def dest: bindings_okD)

lemma bindings_ok_rt_demand: "bindings_ok t \<Longrightarrow> bt_sessions t k = Some r \<Longrightarrow> 1 \<le> rt_demand r"
  by (auto dest: bindings_okD simp: route_ok_def)

lemma bind_locked_key: "bind_locked sm k w = (Inr b, w') \<Longrightarrow> key_of b = k"
  by (auto simp: bind_locked_def key_of_def Let_def split: prod.splits sum.splits option.splits)

lemma route_set_binding:
  "r\<lparr>rt_binding := b\<rparr> = \<lparr>rt_demand = rt_demand r, rt_binding = b\<rparr>"
  by (cases r) simp

text \<open>What a resolution of a route can be: a reuse, a failed bind, or a fresh bind.\<close>

lemma route_locked_cases [case_names reuse failed bound]:
  obtains r b where "bt_sessions t k = Some r" "rt_binding r = Some b"
      "route_locked sm k t w = (Inr b, t, w)"
  | err w1 where "binding_of k t = None" "bind_locked sm k w = (Inl err, w1)"
      "route_locked sm k t w = (Inl err, t, w1)"
  | b w1 where "binding_of k t = None" "bind_locked sm k w = (Inr b, w1)"
      "route_locked sm k t w =
        (Inr b, t\<lparr>bt_sessions := (bt_sessions t)(k \<mapsto>
           \<lparr>rt_demand = demand_of k t, rt_binding = Some b\<rparr>)\<rparr>, w1)"
proof (cases "binding_of k t")
  case (Some b)
  then show thesis
    using that(1) by (auto simp: binding_of_def route_locked_def split: option.splits)
next
  case None
  obtain x w1 where b: "bind_locked sm k w = (x, w1)" by fastforce
  show thesis
  proof (cases x)
    case (Inl err)
    with None b show thesis
      using that(2) by (auto simp: binding_of_def route_locked_def split: option.splits)
  next
    case (Inr b')
    with None b show thesis
      using that(3) [of b' w1]
      by (cases "bt_sessions t k")
        (auto simp: binding_of_def demand_of_def route_locked_def route_set_binding
          split: option.splits)
  qed
qed

text \<open>Every operation keeps the invariant.\<close>

lemma demand_of_ge: "bindings_ok t \<Longrightarrow> bt_sessions t k = Some r \<Longrightarrow> 1 \<le> demand_of k t"
  by (simp add: bindings_ok_rt_demand demand_of_def)

lemma demand_of_nonneg: "bindings_ok t \<Longrightarrow> 0 \<le> demand_of k t"
  using demand_of_ge [of t k] by (cases "bt_sessions t k") (force simp: demand_of_def)+

lemma acquire_cases [case_names closed reuse failed bound]:
  assumes "bindings_ok t"
  obtains "bt_closed t" "acquire sm k t w = (Inl (Sentinel ErrBindingsClosed), t, w)"
  | r b where "\<not> bt_closed t" "bt_sessions t k = Some r" "rt_binding r = Some b"
      "acquire sm k t w = (Inr b, t\<lparr>bt_sessions := (bt_sessions t)(k \<mapsto>
         r\<lparr>rt_demand := rt_demand r + 1\<rparr>)\<rparr>, w)"
  | err w1 where "\<not> bt_closed t" "binding_of k t = None" "bind_locked sm k w = (Inl err, w1)"
      "acquire sm k t w = (Inl err, t, w1)"
  | b w1 where "\<not> bt_closed t" "binding_of k t = None" "bind_locked sm k w = (Inr b, w1)"
      "key_of b = k" "0 \<le> demand_of k t"
      "acquire sm k t w = (Inr b, t\<lparr>bt_sessions := (bt_sessions t)(k \<mapsto>
         \<lparr>rt_demand = demand_of k t + 1, rt_binding = Some b\<rparr>)\<rparr>, w1)"
proof (cases "bt_closed t")
  case True
  then show thesis using that(1) by (simp add: acquire_def)
next
  case False
  then show thesis
  proof (cases rule: route_locked_cases [where t = t and k = k and sm = sm and w = w])
    case (reuse r b)
    with False that(2) [of r b] show thesis by (simp add: acquire_def add_demand_def)
  next
    case (failed err w1)
    with False that(3) show thesis by (simp add: acquire_def)
  next
    case (bound b w1)
    with False demand_of_nonneg [OF assms, of k] bind_locked_key [OF bound(2)] that(4) [of b w1] show thesis
      by (simp add: acquire_def add_demand_def)
  qed
qed

lemma acquire_ok [inv_keep]: "bindings_ok t \<Longrightarrow> bindings_ok (fst (snd (acquire sm k t w)))"
  by (rule acquire_cases [where t = t and k = k and sm = sm and w = w])
    (auto simp: route_ok_def intro!: bindings_ok_demand dest: bindings_ok_rt_demand)

lemma route_locked_ok [inv_keep]:
  assumes "bindings_ok t" "\<not> bt_closed t" "bt_sessions t k = Some r0"
  shows "bindings_ok (fst (snd (route_locked sm k t w)))"
  by (cases rule: route_locked_cases [where t = t and k = k and sm = sm and w = w])
    (use assms demand_of_ge [OF assms(1,3)] bind_locked_key [of sm k w] in
      \<open>auto simp: route_ok_def\<close>)

lemma deliver_route_ok [inv_keep]:
  assumes "bindings_ok t"
  shows "bindings_ok (fst (snd (deliver_route sm k t w)))"
proof (cases "bt_closed t \<or> bt_sessions t k = None")
  case True
  with assms show ?thesis by (auto simp: deliver_route_def)
next
  case False
  then obtain r where "bt_sessions t k = Some r" "\<not> bt_closed t" by auto
  with assms route_locked_ok [OF assms this(2,1), of sm w] show ?thesis
    by (auto simp: deliver_route_def split: prod.splits sum.splits)
qed

lemma deliver_table: "fst (snd (deliver sm k cmd t w)) = fst (snd (deliver_route sm k t w))"
  by (simp add: deliver_def Let_def split: prod.splits sum.splits)

lemma deliver_ok [inv_keep]: "bindings_ok t \<Longrightarrow> bindings_ok (fst (snd (deliver sm k cmd t w)))"
  by (simp add: deliver_table deliver_route_ok)

lemma release_cases [case_names refused shared unbound last]:
  assumes "bindings_ok t"
  obtains err where "bt_closed t \<or> bt_sessions t k = None"
      "release sm k t w = (Some err, t, w)"
  | r where "\<not> bt_closed t" "bt_sessions t k = Some r" "1 < rt_demand r"
      "release sm k t w =
        (None, t\<lparr>bt_sessions := (bt_sessions t)(k \<mapsto> r\<lparr>rt_demand := rt_demand r - 1\<rparr>)\<rparr>, w)"
  | r where "\<not> bt_closed t" "bt_sessions t k = Some r" "rt_demand r = 1" "rt_binding r = None"
      "release sm k t w = (None, t\<lparr>bt_sessions := (bt_sessions t)(k := None)\<rparr>, w)"
  | r b where "\<not> bt_closed t" "bt_sessions t k = Some r" "rt_demand r = 1" "rt_binding r = Some b"
      "key_of b = k"
      "release sm k t w =
        (fst (binder_unbind sm (mk_unbind_request (sha256_hex sm) b) w),
         t\<lparr>bt_sessions := (bt_sessions t)(k := None)\<rparr>,
         snd (binder_unbind sm (mk_unbind_request (sha256_hex sm) b) w))"
proof (cases "bt_closed t \<or> bt_sessions t k = None")
  case True
  then have "\<exists>err. release sm k t w = (Some err, t, w)" by (auto simp: release_def)
  with True show thesis using that(1) by blast
next
  case False
  then obtain r where r: "\<not> bt_closed t" "bt_sessions t k = Some r" by auto
  with assms have ok: "route_ok k r" by (simp add: bindings_okD)
  then have ge: "1 \<le> rt_demand r" by (simp add: route_ok_def)
  show thesis
  proof (cases "1 < rt_demand r")
    case True
    with r that(2) show thesis by (simp add: release_def add_demand_def)
  next
    case False
    with ge have one: "rt_demand r = 1" by simp
    show thesis
    proof (cases "rt_binding r")
      case None
      with one r that(3) show thesis by (simp add: release_def)
    next
      case (Some b)
      with ok have "key_of b = k" by (simp add: route_ok_def)
      with Some one r that(4) show thesis by (simp add: release_def Let_def split_beta)
    qed
  qed
qed

lemma release_ok [inv_keep]: "bindings_ok t \<Longrightarrow> bindings_ok (fst (snd (release sm k t w)))"
  by (rule release_cases [where t = t and k = k and sm = sm and w = w]) auto

lemma observe_cases [case_names kept dropped]:
  fixes obs
  defines "k \<equiv> \<lparr>sk_tenant = obs_tenant obs, sk_session = obs_session obs\<rparr>"
  obtains "observe sm obs t w = (False, t, w)"
      "bt_closed t \<or> binding_of k t = None \<or> (\<exists>b. binding_of k t = Some b \<and> stale_or_same (b_key b) obs)"
  | r b where "\<not> bt_closed t" "bt_sessions t k = Some r" "rt_binding r = Some b"
      "\<not> stale_or_same (b_key b) obs"
      "observe sm obs t w =
        (True, t\<lparr>bt_sessions := (bt_sessions t)(k \<mapsto> r\<lparr>rt_binding := None\<rparr>)\<rparr>,
         snd (binder_unbind sm (mk_unbind_request (sha256_hex sm) b) w))"
proof (cases "bt_closed t \<or> binding_of k t = None \<or>
    (\<exists>b. binding_of k t = Some b \<and> stale_or_same (b_key b) obs)")
  case True
  then have "observe sm obs t w = (False, t, w)"
    by (auto simp: observe_def binding_of_def k_def Let_def split: option.splits)
  with True that(1) show thesis by blast
next
  case False
  then obtain r b where rb: "\<not> bt_closed t" "bt_sessions t k = Some r" "rt_binding r = Some b"
      "\<not> stale_or_same (b_key b) obs"
    by (auto simp: binding_of_def split: option.splits)
  then have "observe sm obs t w =
        (True, t\<lparr>bt_sessions := (bt_sessions t)(k \<mapsto> r\<lparr>rt_binding := None\<rparr>)\<rparr>,
         snd (binder_unbind sm (mk_unbind_request (sha256_hex sm) b) w))"
    by (simp add: observe_def k_def Let_def split_beta)
  with rb that(2) show thesis by blast
qed

lemma observe_ok [inv_keep]: "bindings_ok t \<Longrightarrow> bindings_ok (fst (snd (observe sm obs t w)))"
  by (rule observe_cases [where t = t and obs = obs and sm = sm and w = w]) auto

section \<open>The calls the table makes, and what the Hosts hold\<close>

text \<open>
  The same operations over seams that log every call beside the world. Replaying the log gives
  the routes the Hosts hold for this table: a successful bind opens one, which fails the replay
  when the session already has one; an unbind closes exactly the tuple that is open, and fails
  the replay otherwise.
\<close>

datatype route_call =
    CallOwner session_key
  | CallBind bind_request bool
  | CallUnbind unbind_request
  | CallDeliver session_key string

type_synonym route_tuple = "host_id \<times> u64 \<times> u64 \<times> string"

definition log_call :: "route_call \<Rightarrow> 'r \<times> 'w \<Rightarrow> route_call list \<Rightarrow> 'r \<times> 'w \<times> route_call list" where
  "log_call c rw l = (fst rw, snd rw, l @ [c])"

definition logged_routes :: "'w route_seams \<Rightarrow> ('w \<times> route_call list) route_seams" where
  "logged_routes sm =
     \<lparr>owner_of = (\<lambda>t s (w, l). log_call (CallOwner \<lparr>sk_tenant = t, sk_session = s\<rparr>) (owner_of sm t s w) l),
      binder_bind = (\<lambda>e req (w, l).
        let rw = binder_bind sm e req w in log_call (CallBind req (fst rw = None)) rw l),
      binder_unbind = (\<lambda>req (w, l). log_call (CallUnbind req) (binder_unbind sm req w) l),
      binder_deliver = (\<lambda>t s c (w, l).
        log_call (CallDeliver \<lparr>sk_tenant = t, sk_session = s\<rparr> c) (binder_deliver sm t s c w) l),
      bind_validate = bind_validate sm,
      sha256_hex = sha256_hex sm,
      route_reporter = map_option (\<lambda>h t s (w, l). h t s w) (route_reporter sm)\<rparr>"

fun replay_call :: "route_call \<Rightarrow> (session_key \<rightharpoonup> route_tuple) \<Rightarrow> (session_key \<rightharpoonup> route_tuple) option" where
  "replay_call (CallBind req ok) m =
     (let k = \<lparr>sk_tenant = br_tenant req, sk_session = br_session req\<rparr>
      in if \<not> ok then Some m
         else if m k = None
         then Some (m(k \<mapsto> (br_host req, br_generation req, br_epoch req, br_idempotency req)))
         else None)"
| "replay_call (CallUnbind req) m =
     (let k = \<lparr>sk_tenant = ub_tenant req, sk_session = ub_session req\<rparr>
      in if m k = Some (ub_host req, ub_generation req, ub_epoch req, ub_idempotency req)
         then Some (m(k := None)) else None)"
| "replay_call (CallOwner k) m = Some m"
| "replay_call (CallDeliver k c) m = Some m"

fun replay :: "route_call list \<Rightarrow> (session_key \<rightharpoonup> route_tuple) \<Rightarrow> (session_key \<rightharpoonup> route_tuple) option" where
  "replay [] m = Some m"
| "replay (c # cs) m = (case replay_call c m of None \<Rightarrow> None | Some m' \<Rightarrow> replay cs m')"

definition tuple_of :: "(bytes \<Rightarrow> string) \<Rightarrow> binding \<Rightarrow> route_tuple" where
  "tuple_of sha b =
     (bk_host (b_key b), bk_generation (b_key b), bk_epoch (b_key b), bind_idempotency_key sha (b_key b))"

definition table_routes :: "(bytes \<Rightarrow> string) \<Rightarrow> bindings \<Rightarrow> session_key \<rightharpoonup> route_tuple" where
  "table_routes sha t = (\<lambda>k. map_option (tuple_of sha) (binding_of k t))"

definition mirrors :: "(bytes \<Rightarrow> string) \<Rightarrow> bindings \<Rightarrow> route_call list \<Rightarrow> bool" where
  "mirrors sha t l \<longleftrightarrow> replay l Map.empty = Some (table_routes sha t)"

lemma replay_append: "replay (xs @ ys) m = Option.bind (replay xs m) (replay ys)"
  by (induction xs arbitrary: m) (auto split: option.splits)

lemma logged_sha [simp]: "sha256_hex (logged_routes sm) = sha256_hex sm"
  by (simp add: logged_routes_def)

lemma logged_unbind:
  "binder_unbind (logged_routes sm) req (w, l) =
    (fst (binder_unbind sm req w), snd (binder_unbind sm req w), l @ [CallUnbind req])"
  by (simp add: logged_routes_def log_call_def)

lemma logged_deliver:
  "binder_deliver (logged_routes sm) t s c (w, l) =
    (fst (binder_deliver sm t s c w), snd (binder_deliver sm t s c w),
     l @ [CallDeliver \<lparr>sk_tenant = t, sk_session = s\<rparr> c])"
  by (simp add: logged_routes_def log_call_def)

text \<open>A bind's log: the registry read, then at most one bind, successful exactly on success.\<close>

lemma bind_locked_logged_ok:
  assumes "bind_locked (logged_routes sm) k (w, l) = (Inr b, w', l')"
  shows "l' = l @ [CallOwner k, CallBind (mk_bind_request (sha256_hex sm) b) True]"
  using assms
  by (auto simp: bind_locked_def logged_routes_def log_call_def Let_def split_beta
      split: prod.splits sum.splits option.splits)

lemma bind_locked_logged_err:
  assumes "bind_locked (logged_routes sm) k (w, l) = (Inl err, w', l')"
  shows "l' = l @ [CallOwner k] \<or> (\<exists>req. l' = l @ [CallOwner k, CallBind req False])"
  using assms
  by (auto simp: bind_locked_def logged_routes_def log_call_def Let_def split_beta
      split: prod.splits sum.splits option.splits)

lemma replay_bind:
  assumes "mirrors sha t l" "binding_of k t = None" "key_of b = k"
  shows "replay (l @ [CallOwner k, CallBind (mk_bind_request sha b) True]) Map.empty =
    Some ((table_routes sha t)(k \<mapsto> tuple_of sha b))"
  using assms
  by (auto simp: mirrors_def replay_append table_routes_def mk_bind_request_def key_of_def
      tuple_of_def Let_def)

lemma replay_unbind:
  assumes "mirrors sha t l" "binding_of k t = Some b" "key_of b = k"
  shows "replay (l @ [CallUnbind (mk_unbind_request sha b)]) Map.empty =
    Some ((table_routes sha t)(k := None))"
  using assms
  by (auto simp: mirrors_def replay_append table_routes_def mk_unbind_request_def key_of_def
      tuple_of_def Let_def)

lemma replay_noop:
  "mirrors sha t l \<Longrightarrow> l' = l @ [CallOwner k] \<or> (\<exists>req. l' = l @ [CallOwner k, CallBind req False]) \<Longrightarrow>
    mirrors sha t l'"
  by (auto simp: mirrors_def replay_append Let_def)

lemma table_routes_upd:
  "table_routes sha (t\<lparr>bt_sessions := (bt_sessions t)(k \<mapsto> r)\<rparr>) =
    (table_routes sha t)(k := map_option (tuple_of sha) (rt_binding r))"
  by (auto simp: table_routes_def binding_of_def)

lemma table_routes_del:
  "table_routes sha (t\<lparr>bt_sessions := (bt_sessions t)(k := None)\<rparr>) = (table_routes sha t)(k := None)"
  by (auto simp: table_routes_def binding_of_def)

lemmas mirror_simps = mirrors_def table_routes_upd table_routes_del replay_append

lemma table_routes_demand:
  "bt_sessions t k = Some r \<Longrightarrow>
    table_routes sha (t\<lparr>bt_sessions := (bt_sessions t)(k \<mapsto> r\<lparr>rt_demand := n\<rparr>)\<rparr>) = table_routes sha t"
  by (auto simp: table_routes_def binding_of_def)

lemma acquire_mirrors:
  assumes "bindings_ok t" "mirrors (sha256_hex sm) t l"
    and "acquire (logged_routes sm) k t (w, l) = (x, t', w', l')"
  shows "mirrors (sha256_hex sm) t' l'"
  using assms(1)
proof (cases rule: acquire_cases [where sm = "logged_routes sm" and k = k and w = "(w, l)", case_names closed reuse failed bound])
  case closed
  with assms show ?thesis by simp
next
  case (reuse r b)
  with assms show ?thesis by (auto simp: mirrors_def table_routes_demand)
next
  case (failed err w1)
  with assms bind_locked_logged_err [of sm k w l err w' l'] show ?thesis
    by (auto intro: replay_noop)
next
  case (bound b w1)
  with assms have b: "bind_locked (logged_routes sm) k (w, l) = (Inr b, w', l')"
    and t': "t' = t\<lparr>bt_sessions := (bt_sessions t)(k \<mapsto>
       \<lparr>rt_demand = demand_of k t + 1, rt_binding = Some b\<rparr>)\<rparr>"
    by auto
  from bind_locked_logged_ok [OF b] replay_bind [OF assms(2) bound(2,4)] t' show ?thesis
    by (simp add: mirrors_def table_routes_upd)
qed

lemma route_locked_mirrors:
  assumes "mirrors (sha256_hex sm) t l" and "route_locked (logged_routes sm) k t (w, l) = (x, t', w', l')"
  shows "mirrors (sha256_hex sm) t' l'"
proof (cases rule: route_locked_cases [where t = t and sm = "logged_routes sm" and k = k and w = "(w, l)", case_names reuse failed bound])
  case (reuse r b)
  with assms show ?thesis by simp
next
  case (failed err w1)
  with assms bind_locked_logged_err [of sm k w l err w' l'] show ?thesis
    by (auto intro: replay_noop)
next
  case (bound b w1)
  with assms have b: "bind_locked (logged_routes sm) k (w, l) = (Inr b, w', l')"
    and t': "t' = t\<lparr>bt_sessions := (bt_sessions t)(k \<mapsto>
       \<lparr>rt_demand = demand_of k t, rt_binding = Some b\<rparr>)\<rparr>"
    by auto
  from bind_locked_logged_ok [OF b] replay_bind [OF assms(1) bound(1) bind_locked_key [OF b]] t'
  show ?thesis by (simp add: mirrors_def table_routes_upd)
qed

lemma deliver_mirrors:
  assumes "mirrors (sha256_hex sm) t l" and "deliver (logged_routes sm) k cmd t (w, l) = (x, t', w', l')"
  shows "mirrors (sha256_hex sm) t' l'"
proof -
  obtain y t1 w1 l1 where y: "deliver_route (logged_routes sm) k t (w, l) = (y, t1, w1, l1)"
    by (metis prod_cases4)
  then have "mirrors (sha256_hex sm) t1 l1"
    using assms(1) route_locked_mirrors [OF assms(1), of k w]
    by (auto simp: deliver_route_def split: if_splits option.splits prod.splits sum.splits)
  with assms(2) y show ?thesis
    by (cases y) (auto simp: deliver_def logged_deliver Let_def mirrors_def replay_append)
qed

lemma release_mirrors:
  assumes "bindings_ok t" "mirrors (sha256_hex sm) t l"
    and "release (logged_routes sm) k t (w, l) = (x, t', w', l')"
  shows "mirrors (sha256_hex sm) t' l'"
  using assms(1)
proof (cases rule: release_cases [where sm = "logged_routes sm" and k = k and w = "(w, l)", case_names refused shared unbound last])
  case (refused err)
  with assms show ?thesis by simp
next
  case (shared r)
  with assms show ?thesis by (auto simp: mirrors_def table_routes_demand)
next
  case (unbound r)
  then have "(table_routes (sha256_hex sm) t)(k := None) = table_routes (sha256_hex sm) t"
    by (auto simp: table_routes_def binding_of_def)
  with unbound assms show ?thesis by (auto simp: mirrors_def table_routes_del)
next
  case (last r b)
  then have "binding_of k t = Some b" by (simp add: binding_of_def)
  from replay_unbind [OF assms(2) this last(5)] last assms(3) show ?thesis
    by (auto simp: mirrors_def table_routes_del logged_unbind)
qed

lemma observe_mirrors:
  assumes "bindings_ok t" "mirrors (sha256_hex sm) t l"
    and "observe (logged_routes sm) obs t (w, l) = (x, t', w', l')"
  shows "mirrors (sha256_hex sm) t' l'"
proof (cases rule: observe_cases [where t = t and sm = "logged_routes sm" and obs = obs and w = "(w, l)", case_names kept dropped])
  case kept
  with assms show ?thesis by simp
next
  case (dropped r b)
  let ?k = "\<lparr>sk_tenant = obs_tenant obs, sk_session = obs_session obs\<rparr>"
  have "binding_of ?k t = Some b" "key_of b = ?k"
    using dropped bindings_okD [OF assms(1) dropped(2)] by (simp_all add: binding_of_def route_ok_def)
  from replay_unbind [OF assms(2) this] dropped assms(3) show ?thesis
    by (auto simp: mirrors_def table_routes_upd logged_unbind)
qed

lemma close_loop_mirrors:
  assumes "\<forall>k r b. bt_sessions t k = Some r \<longrightarrow> rt_binding r = Some b \<longrightarrow> key_of b = k"
    and "mirrors (sha256_hex sm) t l" and "close_loop (logged_routes sm) ks t (w, l) = (fs, t', w', l')"
  shows "mirrors (sha256_hex sm) t' l' \<and> bt_sessions t' = bt_sessions t |` (- set ks) \<and>
    bt_closed t' = bt_closed t"
  using assms
proof (induction ks arbitrary: t w l fs)
  case Nil
  then show ?case by (simp add: restrict_map_def)
next
  case (Cons k ks)
  show ?case
  proof (cases "bt_sessions t k")
    case None
    with Cons.prems(3) have "close_loop (logged_routes sm) ks t (w, l) = (fs, t', w', l')" by simp
    moreover from None have "bt_sessions t |` (- set ks) = bt_sessions t |` (- set (k # ks))"
      by (auto simp: restrict_map_def)
    ultimately show ?thesis using Cons.IH [OF Cons.prems(1,2)] by simp
  next
    case (Some r)
    let ?t = "t\<lparr>bt_sessions := (bt_sessions t)(k := None)\<rparr>"
    have keys: "\<forall>k r b. bt_sessions ?t k = Some r \<longrightarrow> rt_binding r = Some b \<longrightarrow> key_of b = k"
      using Cons.prems(1) by simp
    have res: "bt_sessions ?t |` (- set ks) = bt_sessions t |` (- set (k # ks))"
      by (auto simp: restrict_map_def)
    show ?thesis
    proof (cases "rt_binding r")
      case None
      then have "table_routes (sha256_hex sm) ?t = table_routes (sha256_hex sm) t"
        using Some by (auto simp: table_routes_def binding_of_def)
      with Cons.prems(2) have "mirrors (sha256_hex sm) ?t l" by (simp add: mirrors_def)
      moreover have "close_loop (logged_routes sm) ks ?t (w, l) = (fs, t', w', l')"
        using Cons.prems(3) Some None by simp
      ultimately show ?thesis using Cons.IH [OF keys] unfolding res by simp
    next
      case b: (Some b)
      with Some Cons.prems(1) have "key_of b = k" "binding_of k t = Some b"
        by (auto simp: binding_of_def)
      from replay_unbind [OF Cons.prems(2) this(2,1)]
      have "mirrors (sha256_hex sm) ?t (l @ [CallUnbind (mk_unbind_request (sha256_hex sm) b)])"
        by (simp add: mirrors_def table_routes_del)
      moreover obtain fs' where "close_loop (logged_routes sm) ks ?t
          (snd (binder_unbind sm (mk_unbind_request (sha256_hex sm) b) w),
           l @ [CallUnbind (mk_unbind_request (sha256_hex sm) b)]) = (fs', t', w', l')"
        using Cons.prems(3) Some b by (auto simp: Let_def logged_unbind split: prod.splits)
      ultimately show ?thesis using Cons.IH [OF keys] unfolding res by simp
    qed
  qed
qed

section \<open>Reachable tables\<close>

text \<open>
  The tables a replica can reach from \<open>NewBindings\<close>: any sequence of operations, in any order,
  with the world moving on its own between them.
\<close>

inductive bindings_reach :: "'w route_seams \<Rightarrow> bindings \<Rightarrow> 'w \<times> route_call list \<Rightarrow> bool" for sm where
  start: "new_bindings r b = Inr t \<Longrightarrow> bindings_reach sm t (w, [])"
| env: "bindings_reach sm t (w, l) \<Longrightarrow> bindings_reach sm t (w', l)"
| acquire: "bindings_reach sm t s \<Longrightarrow> acquire (logged_routes sm) k t s = (x, t', s') \<Longrightarrow> bindings_reach sm t' s'"
| release: "bindings_reach sm t s \<Longrightarrow> release (logged_routes sm) k t s = (e, t', s') \<Longrightarrow> bindings_reach sm t' s'"
| deliver: "bindings_reach sm t s \<Longrightarrow> deliver (logged_routes sm) k cmd t s = (e, t', s') \<Longrightarrow> bindings_reach sm t' s'"
| observe: "bindings_reach sm t s \<Longrightarrow> observe (logged_routes sm) obs t s = (d, t', s') \<Longrightarrow> bindings_reach sm t' s'"
| close: "bindings_reach sm t s \<Longrightarrow> distinct order \<Longrightarrow> set order = dom (bt_sessions t) \<Longrightarrow>
    close_bindings (logged_routes sm) order t s = (e, t', s') \<Longrightarrow> bindings_reach sm t' s'"

lemma bindings_reach_ok:
  "bindings_reach sm t s \<Longrightarrow> bindings_ok t \<and> mirrors (sha256_hex sm) t (snd s)"
proof (induction rule: bindings_reach.induct)
  case (start r b t w)
  then show ?case
    by (auto simp: new_bindings_def bindings_ok_def mirrors_def table_routes_def binding_of_def
        split: if_splits)
next
  case (env t w l w')
  then show ?case by simp
next
  case (acquire t s k x t' s')
  then show ?case
    using acquire_ok [of t "logged_routes sm" k s] acquire_mirrors [of t sm "snd s" k "fst s" x t' "fst s'" "snd s'"]
    by simp
next
  case (release t s k e t' s')
  then show ?case
    using release_ok [of t "logged_routes sm" k s] release_mirrors [of t sm "snd s" k "fst s" e t' "fst s'" "snd s'"]
    by simp
next
  case (deliver t s k cmd e t' s')
  then show ?case
    using deliver_ok [of t "logged_routes sm" k cmd s] deliver_mirrors [of sm t "snd s" k cmd "fst s" e t' "fst s'" "snd s'"]
    by simp
next
  case (observe t s obs d t' s')
  then show ?case
    using observe_ok [of t "logged_routes sm" obs s] observe_mirrors [of t sm "snd s" obs "fst s" d t' "fst s'" "snd s'"]
    by simp
next
  case (close t s order e t' s')
  obtain fs t1 w1 l1 where
    cl: "close_loop (logged_routes sm) order (t\<lparr>bt_closed := True\<rparr>) (fst s, snd s) = (fs, t1, w1, l1)"
    by (metis prod_cases4)
  with close.hyps(4) have eq: "t' = t1" "snd s' = l1"
    by (auto simp: close_bindings_def)
  have keys: "\<forall>k r b. bt_sessions (t\<lparr>bt_closed := True\<rparr>) k = Some r \<longrightarrow> rt_binding r = Some b \<longrightarrow> key_of b = k"
    using close.IH by (auto dest: bindings_okD simp: route_ok_def)
  have "mirrors (sha256_hex sm) (t\<lparr>bt_closed := True\<rparr>) (snd s)"
    using close.IH by (simp add: mirrors_def table_routes_def binding_of_def)
  from close_loop_mirrors [OF keys this cl] close.hyps(3) eq show ?case
    by (auto simp: bindings_ok_def restrict_map_def)
qed

section \<open>Subscribers coming and going, and shutdown\<close>

text \<open>A number of subscribers acquiring one session, and a number releasing it.\<close>

fun acquire_n :: "'w route_seams \<Rightarrow> session_key \<Rightarrow> nat \<Rightarrow> bindings \<times> 'w \<Rightarrow> bindings \<times> 'w" where
  "acquire_n sm k 0 s = s"
| "acquire_n sm k (Suc n) s = acquire_n sm k n (snd (acquire sm k (fst s) (snd s)))"

fun release_n :: "'w route_seams \<Rightarrow> session_key \<Rightarrow> nat \<Rightarrow> bindings \<times> 'w \<Rightarrow> bindings \<times> 'w" where
  "release_n sm k 0 s = s"
| "release_n sm k (Suc n) s = release_n sm k n (snd (release sm k (fst s) (snd s)))"

definition with_route :: "bindings \<Rightarrow> session_key \<Rightarrow> int \<Rightarrow> binding \<Rightarrow> bindings" where
  "with_route t k n b = t\<lparr>bt_sessions := (bt_sessions t)(k \<mapsto> \<lparr>rt_demand = n, rt_binding = Some b\<rparr>)\<rparr>"

lemma with_route_with_route [simp]: "with_route (with_route t k m b) k n c = with_route t k n c"
  by (simp add: with_route_def)

lemma acquire_bound:
  "\<not> bt_closed t \<Longrightarrow> acquire sm k (with_route t k m b) w = (Inr b, with_route t k (m + 1) b, w)"
  by (simp add: acquire_def route_locked_def add_demand_def with_route_def)

lemma acquire_n_bound:
  "\<not> bt_closed t \<Longrightarrow> acquire_n sm k n (with_route t k m b, w) = (with_route t k (m + int n) b, w)"
proof (induction n arbitrary: m)
  case (Suc n)
  then show ?case using Suc.IH [of "m + 1"] by (simp add: acquire_bound algebra_simps)
qed simp

lemma acquire_first:
  assumes "\<not> bt_closed t" "bt_sessions t k = None" "bind_locked sm k w = (Inr b, w1)"
  shows "acquire sm k t w = (Inr b, with_route t k 1 b, w1)"
  using assms by (simp add: acquire_def route_locked_def add_demand_def with_route_def)

lemma release_shared:
  assumes "\<not> bt_closed t" "1 < m"
  shows "release sm k (with_route t k m b) w = (None, with_route t k (m - 1) b, w)"
  using assms by (simp add: release_def add_demand_def with_route_def)

lemma release_n_shared:
  "\<not> bt_closed t \<Longrightarrow> int n < m \<Longrightarrow>
    release_n sm k n (with_route t k m b, w) = (with_route t k (m - int n) b, w)"
proof (induction n arbitrary: m)
  case (Suc n)
  then show ?case using Suc.IH [of "m - 1"] by (simp add: release_shared algebra_simps)
qed simp

lemma release_last:
  assumes "\<not> bt_closed t" "bt_sessions t k = None"
  shows "release sm k (with_route t k 1 b) w =
    (fst (binder_unbind sm (mk_unbind_request (sha256_hex sm) b) w), t,
     snd (binder_unbind sm (mk_unbind_request (sha256_hex sm) b) w))"
proof -
  have "(bt_sessions t)(k := None) = bt_sessions t" using assms(2) by auto
  then show ?thesis
    using assms(1) by (simp add: release_def with_route_def Let_def split_beta)
qed

lemma release_n_append:
  "release_n sm k (m + n) s = release_n sm k n (release_n sm k m s)"
  by (induction m arbitrary: s) simp_all

definition bound_of :: "bindings \<Rightarrow> session_key list \<Rightarrow> binding list" where
  "bound_of t ks = concat (map (\<lambda>k. case binding_of k t of None \<Rightarrow> [] | Some b \<Rightarrow> [b]) ks)"

lemma bound_of_del:
  "k \<notin> set ks \<Longrightarrow> bound_of (t\<lparr>bt_sessions := (bt_sessions t)(k := None)\<rparr>) ks = bound_of t ks"
  by (auto simp: bound_of_def binding_of_def intro!: arg_cong [of _ _ concat] map_cong)

lemma close_loop_log:
  assumes "distinct ks"
  shows "snd (snd (snd (close_loop (logged_routes sm) ks t (w, l)))) =
    l @ map (\<lambda>b. CallUnbind (mk_unbind_request (sha256_hex sm) b)) (bound_of t ks)"
  using assms
proof (induction ks arbitrary: t w l)
  case Nil
  then show ?case by (simp add: bound_of_def)
next
  case (Cons k ks)
  have Cons_bound: "bound_of t (k # ks) =
      (case binding_of k t of None \<Rightarrow> [] | Some b \<Rightarrow> [b]) @ bound_of t ks"
    by (simp add: bound_of_def)
  show ?case
    using Cons.IH [of "t\<lparr>bt_sessions := (bt_sessions t)(k := None)\<rparr>"] Cons.IH [of t] Cons.prems
    by (auto simp: Cons_bound bound_of_del binding_of_def [of k] Let_def logged_unbind split_beta
        split: option.splits)
qed

lemma close_loop_quiet:
  assumes "\<forall>req w err. fst (binder_unbind sm req w) = Some err \<longrightarrow> errors_is ErrRouteGone err"
  shows "fst (close_loop sm ks t w) = []"
  using assms
  by (induction ks arbitrary: t w) (auto simp: Let_def split_beta split: option.splits)

lemma close_loop_table:
  "bt_sessions (fst (snd (close_loop sm ks t w))) = (\<lambda>k. if k \<in> set ks then None else bt_sessions t k) \<and>
    bt_closed (fst (snd (close_loop sm ks t w))) = bt_closed t"
  by (induction ks arbitrary: t w)
    (auto simp: Let_def split_beta fun_eq_iff split: option.splits)

section \<open>Properties\<close>

text \<open>
  C7. In every state a replica can reach by any sequence of \<open>Acquire\<close>, \<open>Release\<close>, \<open>Deliver\<close>,
  \<open>Observe\<close> and \<open>Close\<close>, against any registry and any Hosts, the table mirrors exactly what the
  Hosts were told: replaying the binds that succeeded and the unbinds that were sent never
  binds a session twice, never unbinds a tuple other than the one bound, and ends in exactly
  the routes the table holds. Every entry has a subscriber and names its own session, and a
  closed table is empty.
\<close>

theorem table_mirrors_host_routes:
  assumes "bindings_reach sm t (w, l)"
  shows "replay l Map.empty = Some (table_routes (sha256_hex sm) t) \<and>
    (\<forall>k r. bt_sessions t k = Some r \<longrightarrow> 1 \<le> rt_demand r \<and>
       (\<forall>b. rt_binding r = Some b \<longrightarrow> key_of b = k)) \<and>
    (bt_closed t \<longrightarrow> bt_sessions t = Map.empty)"
  using bindings_reach_ok [OF assms]
  by (auto simp: mirrors_def bindings_ok_def route_ok_def)

definition sample_obs :: "u64 \<Rightarrow> registry_observation" where
  "sample_obs e = \<lparr>obs_tenant = ''t'', obs_session = ''s'', obs_host = ''h'', obs_generation = 1,
     obs_epoch = e, obs_endpoint = ''ep'', obs_runtime = ''r'', obs_agent = ''a'',
     obs_placement = Pooled, obs_residency = Resident, obs_accepting = True, obs_expires = 100\<rparr>"

definition sample_seams :: "unit route_seams" where
  "sample_seams = \<lparr>owner_of = (\<lambda>t s w. (Inr (Some (sample_obs 5)), w)),
     binder_bind = (\<lambda>e r w. (None, w)), binder_unbind = (\<lambda>r w. (None, w)),
     binder_deliver = (\<lambda>t s c w. (None, w)), bind_validate = (\<lambda>r. None),
     sha256_hex = (\<lambda>b. b), route_reporter = None\<rparr>"

definition sample_key :: session_key where
  "sample_key = \<lparr>sk_tenant = ''t'', sk_session = ''s''\<rparr>"

definition sample_binding :: binding where
  "sample_binding = \<lparr>b_key = \<lparr>bk_tenant = ''t'', bk_session = ''s'', bk_host = ''h'',
     bk_generation = 1, bk_epoch = 5\<rparr>, b_endpoint = ''ep'', b_runtime = ''r''\<rparr>"

lemma sample_bind:
  "bind_locked (logged_routes sample_seams) sample_key ((), l) =
    (Inr sample_binding, (), l @ [CallOwner sample_key,
       CallBind (mk_bind_request (\<lambda>b. b) sample_binding) True])"
  by (simp add: bind_locked_def logged_routes_def log_call_def sample_seams_def sample_key_def
      sample_binding_def sample_obs_def Let_def)

theorem table_mirrors_host_routes_witness:
  "\<exists>t l. bindings_reach sample_seams t ((), l) \<and> bt_sessions t sample_key \<noteq> None \<and>
     replay l Map.empty = Some (table_routes (\<lambda>b. b) t)"
proof -
  let ?t0 = "\<lparr>bt_closed = False, bt_sessions = Map.empty\<rparr>"
  let ?l = "[CallOwner sample_key, CallBind (mk_bind_request (\<lambda>b. b) sample_binding) True]"
  have "bindings_reach sample_seams ?t0 ((), [])"
    by (rule bindings_reach.start [of True True]) (simp add: new_bindings_def)
  moreover have "acquire (logged_routes sample_seams) sample_key ?t0 ((), []) =
      (Inr sample_binding, with_route ?t0 sample_key 1 sample_binding, (), ?l)"
    using acquire_first [of ?t0 sample_key "logged_routes sample_seams" "((), [])"]
      sample_bind [of "[]"] by simp
  ultimately have r: "bindings_reach sample_seams (with_route ?t0 sample_key 1 sample_binding) ((), ?l)"
    by (rule bindings_reach.acquire)
  from table_mirrors_host_routes [OF r] r show ?thesis
    by (intro exI [of _ "with_route ?t0 sample_key 1 sample_binding"] exI [of _ ?l])
      (simp add: with_route_def sample_seams_def)
qed

text \<open>
  Any number of subscribers of one session cost one registry read and one bind, and
  giving them all back sends exactly one unbind, of the tuple that was bound, and leaves the
  table as it was; all of them but the first and the last make no call at all.
\<close>

theorem subscribers_share_one_bind:
  assumes "\<not> bt_closed t" "bt_sessions t k = None"
    and "bind_locked (logged_routes sm) k (w, l) = (Inr b, w1, l1)"
  shows "acquire_n (logged_routes sm) k (Suc n) (t, w, l) = (with_route t k (int (Suc n)) b, w1, l1) \<and>
    l1 = l @ [CallOwner k, CallBind (mk_bind_request (sha256_hex sm) b) True] \<and>
    release_n (logged_routes sm) k (Suc n) (acquire_n (logged_routes sm) k (Suc n) (t, w, l)) =
      (t, snd (binder_unbind sm (mk_unbind_request (sha256_hex sm) b) w1),
       l1 @ [CallUnbind (mk_unbind_request (sha256_hex sm) b)])"
proof -
  have a: "acquire_n (logged_routes sm) k (Suc n) (t, w, l) = (with_route t k (int (Suc n)) b, w1, l1)"
    using acquire_first [OF assms] acquire_n_bound [OF assms(1), of "logged_routes sm" k n 1 b "(w1, l1)"]
    by (simp add: algebra_simps)
  have "release_n (logged_routes sm) k (n + 1) (with_route t k (int (Suc n)) b, w1, l1) =
      (t, snd (binder_unbind sm (mk_unbind_request (sha256_hex sm) b) w1),
       l1 @ [CallUnbind (mk_unbind_request (sha256_hex sm) b)])"
    using release_n_shared [OF assms(1), of n "int (Suc n)" "logged_routes sm" k b "(w1, l1)"]
      release_last [OF assms(1,2), of "logged_routes sm" b "(w1, l1)"]
    by (simp only: release_n_append) (simp add: logged_unbind)
  with a bind_locked_logged_ok [OF assms(3)] show ?thesis by simp
qed

theorem subscribers_share_one_bind_witness:
  "acquire_n (logged_routes sample_seams) sample_key 3
     (\<lparr>bt_closed = False, bt_sessions = Map.empty\<rparr>, (), []) =
   (with_route \<lparr>bt_closed = False, bt_sessions = Map.empty\<rparr> sample_key 3 sample_binding, (),
    [CallOwner sample_key, CallBind (mk_bind_request (\<lambda>b. b) sample_binding) True])"
  using subscribers_share_one_bind [OF _ _ sample_bind [of "[]"],
      of "\<lparr>bt_closed = False, bt_sessions = Map.empty\<rparr>" 2]
  by (simp add: eval_nat_numeral)



text \<open>
  The digest that makes a bind a retry-stable repeat is taken over an injective framing of
  the ownership tuple: two tuples have the same preimage only when they are the same tuple,
  and a route's bind and unbind carry the same key.
\<close>

theorem bind_key_framing_injective:
  "(bind_preimage k = bind_preimage k' \<longleftrightarrow> k = k') \<and>
   br_idempotency (mk_bind_request sha b) = ub_idempotency (mk_unbind_request sha b)"
  by (simp add: bind_preimage_inject mk_bind_request_def mk_unbind_request_def)

text \<open>
  \<open>Close\<close> gives back every route whatever order the table is ranged over and whatever the
  Hosts answer: one unbind is sent for each bound route, the table ends closed and empty, and
  if the only failures are routes whose connection is already gone the close reports none.
\<close>

theorem close_gives_back_every_route:
  assumes "distinct order" "set order = dom (bt_sessions t)"
    and "close_bindings (logged_routes sm) order t (w, l) = (e, t', w', l')"
  shows "l' = l @ map (\<lambda>b. CallUnbind (mk_unbind_request (sha256_hex sm) b)) (bound_of t order) \<and>
    bt_closed t' \<and> bt_sessions t' = Map.empty \<and>
    ((\<forall>req w err. fst (binder_unbind sm req w) = Some err \<longrightarrow> errors_is ErrRouteGone err) \<longrightarrow> e = None)"
proof -
  let ?t = "t\<lparr>bt_closed := True\<rparr>"
  have log: "bound_of ?t order = bound_of t order"
    by (simp add: bound_of_def binding_of_def)
  have "bt_sessions t' = Map.empty \<and> bt_closed t'"
    using assms(2,3) close_loop_table [of "logged_routes sm" order ?t "(w, l)"]
    by (auto simp: close_bindings_def fun_eq_iff split: prod.splits)
  moreover have "l' = l @ map (\<lambda>b. CallUnbind (mk_unbind_request (sha256_hex sm) b)) (bound_of t order)"
    using assms(3) close_loop_log [OF assms(1), of sm ?t w l] log
    by (auto simp: close_bindings_def split: prod.splits)
  moreover have "e = None"
    if "\<forall>req w err. fst (binder_unbind sm req w) = Some err \<longrightarrow> errors_is ErrRouteGone err"
  proof -
    have "\<forall>req w err. fst (binder_unbind (logged_routes sm) req w) = Some err \<longrightarrow> errors_is ErrRouteGone err"
      using that by (auto simp: logged_unbind)
    from close_loop_quiet [OF this, of order ?t "(w, l)"] assms(3) show ?thesis
      by (auto simp: close_bindings_def split: prod.splits)
  qed
  ultimately show ?thesis by blast
qed

theorem close_gives_back_every_route_witness:
  "\<exists>e t' l'. close_bindings (logged_routes sample_seams) [sample_key]
      (with_route \<lparr>bt_closed = False, bt_sessions = Map.empty\<rparr> sample_key 2 sample_binding) ((), [])
      = (e, t', (), l') \<and>
    l' = [CallUnbind (mk_unbind_request (\<lambda>b. b) sample_binding)] \<and> bt_sessions t' = Map.empty \<and> e = None"
proof -
  let ?t = "with_route \<lparr>bt_closed = False, bt_sessions = Map.empty\<rparr> sample_key 2 sample_binding"
  obtain e t' l' where c: "close_bindings (logged_routes sample_seams) [sample_key] ?t ((), []) = (e, t', (), l')"
    by (metis old.unit.exhaust prod_cases4)
  have "set [sample_key] = dom (bt_sessions ?t)" by (simp add: with_route_def)
  from close_gives_back_every_route [OF _ this c] have
    "l' = [CallUnbind (mk_unbind_request (\<lambda>b. b) sample_binding)] \<and> bt_sessions t' = Map.empty \<and> e = None"
    by (simp add: bound_of_def binding_of_def with_route_def sample_seams_def)
  with c show ?thesis by blast
qed

end
