(* ===== verification/Directory.thy ===== *)
theory Directory
  imports Bindings
begin

text \<open>
  Target discovery, \<open>internal/routing/directory.go\<close>: the epoch-fenced owner of a session, and
  the bounded search of the capacity directory, which may clean up lapsed rows between
  retries of the caller's own page. The store is a record of functions over a world; nothing
  is assumed of it.
\<close>

section \<open>The store and the limits\<close>

record host_request =
  hr_agent :: string
  hr_runtime :: string
  hr_placement :: placement
  hr_limit :: int
  hr_cursor :: string

record host_page =
  hp_hosts :: "capacity_report list"
  hp_next :: string
  hp_lapsed :: int

record reconcile_request =
  rq_limit :: int
  rq_max_pages :: int
  rq_cursor :: string

record reconcile_result =
  rr_scanned :: int
  rr_withdrawn :: int
  rr_still_live :: int
  rr_contended :: int
  rr_unreadable :: int
  rr_unverified :: int
  rr_exhausted :: bool
  rr_next :: string

record ('w, 'g) dir_store =
  get_registration :: "tenant_id \<Rightarrow> session_id \<Rightarrow> 'w \<Rightarrow> (rerr + 'g) \<times> 'w"
  registration_observation :: "'g \<Rightarrow> rerr + registry_observation"
  list_hosts :: "host_request \<Rightarrow> 'w \<Rightarrow> (rerr + host_page) \<times> 'w"
  reconcile_targets :: "reconcile_request \<Rightarrow> 'w \<Rightarrow> (rerr + reconcile_result) \<times> 'w"

record dir_limits =
  candidate_page_limit :: int
  reconcile_page_limit :: int
  reconcile_max_pages :: int
  max_cleanup_attempts :: int

definition default_limits :: "int \<Rightarrow> dir_limits" where
  \<comment> \<open>The argument is the store's \<open>DefaultHostTargetReconcilePages\<close>.\<close>
  "default_limits default_pages =
     \<lparr>candidate_page_limit = 32, reconcile_page_limit = 32, reconcile_max_pages = default_pages,
      max_cleanup_attempts = 2\<rparr>"

definition new_directory :: "int \<Rightarrow> int \<Rightarrow> bool \<Rightarrow> dir_limits \<Rightarrow> rerr + dir_limits" where
  \<comment> \<open>\<open>max_page\<close> is \<open>storage.MaxOrderedPageLimit\<close> and \<open>max_reconcile\<close> is
     \<open>sessionstore.MaxHostTargetReconcilePages\<close>; \<open>store\<close> says whether the store is not nil.\<close>
  "new_directory max_page max_reconcile store lim =
     (if \<not> store then Inl (Sentinel RErrInvalidConfig)
      else if candidate_page_limit lim < 1 \<or> candidate_page_limit lim > max_page
      then Inl (Sentinel RErrInvalidConfig)
      else if reconcile_page_limit lim < 1 \<or> reconcile_page_limit lim > max_page
      then Inl (Sentinel RErrInvalidConfig)
      else if reconcile_max_pages lim < 1 \<or> reconcile_max_pages lim > max_reconcile
      then Inl (Sentinel RErrInvalidConfig)
      else if max_cleanup_attempts lim < 1 \<or> max_cleanup_attempts lim > reconcile_max_pages lim
      then Inl (Sentinel RErrInvalidConfig)
      else Inr lim)"

section \<open>The owner of a session\<close>

definition registry_code_of :: "routing_error \<Rightarrow> registry_code option" where
  "registry_code_of e = (case e of StoreErr (RegistryError c) \<Rightarrow> Some c | _ \<Rightarrow> None)"

definition keyspace_code_of :: "routing_error \<Rightarrow> keyspace_code option" where
  "keyspace_code_of e = (case e of StoreErr (KeyspaceError c) \<Rightarrow> Some c | _ \<Rightarrow> None)"

definition no_such_owner :: "rerr \<Rightarrow> bool" where
  "no_such_owner err =
     (case errors_as registry_code_of err of
        Some c \<Rightarrow> c \<in> {RegistryNotFound, RegistryExpired, RegistryReleased}
      | None \<Rightarrow> errors_as keyspace_code_of err = Some KeyspaceBindingNotFound)"

definition owner ::
  "('w, 'g) dir_store \<Rightarrow> tenant_id \<Rightarrow> session_id \<Rightarrow> 'w \<Rightarrow> (rerr + registry_observation option) \<times> 'w" where
  "owner st t s w =
     (case get_registration st t s w of
        (Inl err, w1) \<Rightarrow> if no_such_owner err then (Inr None, w1) else (Inl err, w1)
      | (Inr g, w1) \<Rightarrow>
          (case registration_observation st g of
             Inl err \<Rightarrow> (Inl err, w1)
           | Inr obs \<Rightarrow> (Inr (Some obs), w1)))"

section \<open>The candidate search\<close>

text \<open>
  The loop's counters are positive by \<open>NewDirectory\<close>'s validation and only decrease, so they
  are natural numbers here; the loop stops because every pass spends one attempt.
\<close>

fun candidates_loop ::
  "('w, 'g) dir_store \<Rightarrow> dir_limits \<Rightarrow> host_request \<Rightarrow> nat \<Rightarrow> nat \<Rightarrow> string \<Rightarrow> 'w \<Rightarrow>
   (rerr + host_page) \<times> 'w" where
  "candidates_loop st lim req pages attempts due w =
     (case list_hosts st req w of
        (Inl err, w1) \<Rightarrow> (Inl err, w1)
      | (Inr page, w1) \<Rightarrow>
          if hp_lapsed page = 0 \<or> attempts = 0 \<or> pages = 0 then (Inr page, w1)
          else
            let this_attempt = (pages + attempts - 1) div attempts
            in (case reconcile_targets st
                       \<lparr>rq_limit = reconcile_page_limit lim, rq_max_pages = int this_attempt,
                        rq_cursor = due\<rparr> w1 of
                  (Inl err, w2) \<Rightarrow> (Inl err, w2)
                | (Inr res, w2) \<Rightarrow>
                    candidates_loop st lim req (pages - this_attempt) (attempts - 1)
                      (if rr_exhausted res then [] else rr_next res) w2))"

declare candidates_loop.simps [simp del]

definition candidates ::
  "('w, 'g) dir_store \<Rightarrow> dir_limits \<Rightarrow> host_request \<Rightarrow> 'w \<Rightarrow> (rerr + host_page) \<times> 'w" where
  "candidates st lim original w =
     (let req = (if hr_limit original = 0 \<or> hr_limit original > candidate_page_limit lim
                 then original\<lparr>hr_limit := candidate_page_limit lim\<rparr> else original)
      in candidates_loop st lim req (nat (reconcile_max_pages lim)) (nat (max_cleanup_attempts lim)) [] w)"

section \<open>The calls of a search\<close>

datatype dir_call = CallListHosts host_request | CallReconcile reconcile_request

definition logged_store :: "('w, 'g) dir_store \<Rightarrow> ('w \<times> dir_call list, 'g) dir_store" where
  "logged_store st =
     \<lparr>get_registration = (\<lambda>t s (w, l). let (r, w1) = get_registration st t s w in (r, w1, l)),
      registration_observation = registration_observation st,
      list_hosts = (\<lambda>q (w, l). let (r, w1) = list_hosts st q w in (r, w1, l @ [CallListHosts q])),
      reconcile_targets = (\<lambda>q (w, l).
        let (r, w1) = reconcile_targets st q w in (r, w1, l @ [CallReconcile q]))\<rparr>"

fun pages_of :: "dir_call \<Rightarrow> int" where
  "pages_of (CallListHosts q) = 0"
| "pages_of (CallReconcile q) = rq_max_pages q"

definition pages_spent :: "dir_call list \<Rightarrow> int" where
  "pages_spent cs = sum_list (map pages_of cs)"

definition cleanups :: "dir_call list \<Rightarrow> nat" where
  "cleanups cs = length (filter (\<lambda>c. case c of CallReconcile q \<Rightarrow> True | _ \<Rightarrow> False) cs)"

definition bounded_call :: "dir_limits \<Rightarrow> host_request \<Rightarrow> dir_call \<Rightarrow> bool" where
  "bounded_call lim req c =
     (case c of
        CallListHosts q \<Rightarrow> q = req
      | CallReconcile q \<Rightarrow> rq_limit q = reconcile_page_limit lim \<and> 1 \<le> rq_max_pages q)"

lemma pages_spent_simps [simp]:
  "pages_spent [] = 0"
  "pages_spent (c # cs) = pages_of c + pages_spent cs"
  by (simp_all add: pages_spent_def)

lemma cleanups_simps [simp]:
  "cleanups [] = 0"
  "cleanups (CallListHosts q # cs) = cleanups cs"
  "cleanups (CallReconcile r # cs) = Suc (cleanups cs)"
  by (simp_all add: cleanups_def)

text \<open>
  Ceiling division takes at least one page, never more than are left, leaves one for every
  later attempt, and gives the last attempt all of them.
\<close>

lemma ceiling_share:
  fixes p a :: nat
  assumes "1 \<le> a" "a \<le> p"
  shows "1 \<le> (p + a - 1) div a" and "(p + a - 1) div a \<le> p - (a - 1)"
    and "a = 1 \<Longrightarrow> (p + a - 1) div a = p"
proof -
  obtain d where p: "p = a + d" using assms(2) le_Suc_ex by blast
  have "a * 1 \<le> p + a - 1" using assms by simp
  then show "1 \<le> (p + a - 1) div a"
    using assms(1) by (simp add: div_greater_zero_iff Suc_le_eq)
  have "d \<le> d * a" using assms(1) by simp
  moreover have "(d + 2) * a = d * a + 2 * a" by (simp add: algebra_simps)
  ultimately have "p + a - 1 < (d + 2) * a" using p assms(1) by linarith
  then have "(p + a - 1) div a < d + 2" by (rule less_mult_imp_div_less)
  then show "(p + a - 1) div a \<le> p - (a - 1)" using p assms(1) by simp
qed simp

lemma candidates_loop_calls:
  assumes "attempts \<le> pages" "attempts = 0 \<longrightarrow> pages = 0"
    and "candidates_loop (logged_store st) lim req pages attempts due (w, l) = (r, w', l')"
  shows "\<exists>calls. l' = l @ calls \<and> (\<forall>c \<in> set calls. bounded_call lim req c) \<and>
    pages_spent calls \<le> int pages \<and> cleanups calls \<le> attempts \<and>
    (\<forall>page. r = Inr page \<longrightarrow> hp_lapsed page \<noteq> 0 \<longrightarrow>
       pages_spent calls = int pages \<and> cleanups calls = attempts)"
  using assms
proof (induction attempts arbitrary: pages due w l)
  case 0
  then show ?case
    by (intro exI [of _ "[CallListHosts req]"])
      (auto simp: candidates_loop.simps [of _ _ _ _ 0] logged_store_def bounded_call_def Let_def
        split: prod.splits sum.splits)
next
  case (Suc a)
  obtain x w1 where lh: "list_hosts st req w = (x, w1)" by fastforce
  let ?c = "(pages + Suc a - 1) div Suc a"
  let ?q = "\<lparr>rq_limit = reconcile_page_limit lim, rq_max_pages = int ?c, rq_cursor = due\<rparr>"
  obtain y w2 where rt: "reconcile_targets st ?q w1 = (y, w2)" by fastforce
  have share: "1 \<le> ?c" "?c \<le> pages - a" "a = 0 \<Longrightarrow> ?c = pages"
    using ceiling_share [of "Suc a" pages] Suc.prems(1) by simp_all
  show ?case
  proof (cases "\<exists>page. x = Inr page \<and> hp_lapsed page \<noteq> 0")
    case False
    with Suc.prems(3) lh have "l' = l @ [CallListHosts req] \<and> (\<forall>page. r = Inr page \<longrightarrow> hp_lapsed page = 0)"
      by (cases x) (auto simp: candidates_loop.simps [of _ _ _ _ "Suc a"] logged_store_def)
    then show ?thesis
      by (intro exI [of _ "[CallListHosts req]"]) (auto simp: bounded_call_def)
  next
    case lapsed: True
    have pages: "pages \<noteq> 0" using Suc.prems(1) by simp
    show ?thesis
    proof (cases y)
      case (Inl err)
      with lapsed pages Suc.prems(3) lh rt have "l' = l @ [CallListHosts req, CallReconcile ?q] \<and> r = Inl err"
        by (auto simp: candidates_loop.simps [of _ _ _ _ "Suc a"] logged_store_def Let_def)
      with share show ?thesis
        by (intro exI [of _ "[CallListHosts req, CallReconcile ?q]"]) (auto simp: bounded_call_def)
    next
      case (Inr res)
      let ?due = "if rr_exhausted res then [] else rr_next res"
      from lapsed pages Suc.prems(3) lh rt Inr
      have rec: "candidates_loop (logged_store st) lim req (pages - ?c) a ?due
          (w2, l @ [CallListHosts req, CallReconcile ?q]) = (r, w', l')"
        by (auto simp: candidates_loop.simps [of _ _ _ _ "Suc a"] logged_store_def Let_def)
      have "a \<le> pages - ?c" "a = 0 \<longrightarrow> pages - ?c = 0" using share by auto
      from Suc.IH [OF this rec] obtain calls where calls:
        "l' = (l @ [CallListHosts req, CallReconcile ?q]) @ calls" "\<forall>c \<in> set calls. bounded_call lim req c"
        "pages_spent calls \<le> int (pages - ?c)" "cleanups calls \<le> a"
        "\<forall>page. r = Inr page \<longrightarrow> hp_lapsed page \<noteq> 0 \<longrightarrow>
           pages_spent calls = int (pages - ?c) \<and> cleanups calls = a"
        by blast
      with share show ?thesis
        by (intro exI [of _ "CallListHosts req # CallReconcile ?q # calls"])
          (auto simp: bounded_call_def of_nat_diff)
    qed
  qed
qed

section \<open>Properties\<close>

text \<open>
  A candidate search of a validated directory is bounded: it only ever reads the caller's
  own page, at most the configured page size, and its cleanups together ask for at most the
  configured page budget in at most the configured attempts, each at least one page. A page
  that still reports lapsed rows is returned only once the whole budget and every attempt
  have been spent.
\<close>

theorem candidate_search_bounded:
  assumes "new_directory max_page max_reconcile True lim = Inr lim"
    and "candidates (logged_store st) lim original (w, []) = (r, w', calls)"
  shows "(\<exists>req. req\<lparr>hr_limit := 0\<rparr> = original\<lparr>hr_limit := 0\<rparr> \<and>
            hr_limit req \<le> candidate_page_limit lim \<and> hr_limit req \<noteq> 0 \<and>
            (\<forall>c \<in> set calls. bounded_call lim req c)) \<and>
    pages_spent calls \<le> reconcile_max_pages lim \<and>
    int (cleanups calls) \<le> max_cleanup_attempts lim \<and>
    (\<forall>page. r = Inr page \<longrightarrow> hp_lapsed page \<noteq> 0 \<longrightarrow>
       pages_spent calls = reconcile_max_pages lim \<and> int (cleanups calls) = max_cleanup_attempts lim)"
proof -
  from assms(1) have lim: "1 \<le> candidate_page_limit lim" "1 \<le> reconcile_max_pages lim"
    "1 \<le> max_cleanup_attempts lim" "max_cleanup_attempts lim \<le> reconcile_max_pages lim"
    by (auto simp: new_directory_def split: if_splits)
  let ?req = "if hr_limit original = 0 \<or> hr_limit original > candidate_page_limit lim
                 then original\<lparr>hr_limit := candidate_page_limit lim\<rparr> else original"
  have loop: "candidates_loop (logged_store st) lim ?req (nat (reconcile_max_pages lim))
      (nat (max_cleanup_attempts lim)) [] (w, []) = (r, w', calls)"
    using assms(2) by (simp add: candidates_def Let_def)
  from lim have "nat (max_cleanup_attempts lim) \<le> nat (reconcile_max_pages lim)"
    "nat (max_cleanup_attempts lim) = 0 \<longrightarrow> nat (reconcile_max_pages lim) = 0" by auto
  from candidates_loop_calls [OF this loop] lim have
    "\<forall>c \<in> set calls. bounded_call lim ?req c" "pages_spent calls \<le> reconcile_max_pages lim"
    "int (cleanups calls) \<le> max_cleanup_attempts lim"
    "\<forall>page. r = Inr page \<longrightarrow> hp_lapsed page \<noteq> 0 \<longrightarrow>
       pages_spent calls = reconcile_max_pages lim \<and> int (cleanups calls) = max_cleanup_attempts lim"
    by auto
  moreover have "?req\<lparr>hr_limit := 0\<rparr> = original\<lparr>hr_limit := 0\<rparr>" "hr_limit ?req \<le> candidate_page_limit lim"
    "hr_limit ?req \<noteq> 0"
    using lim(1) by auto
  ultimately show ?thesis by blast
qed

definition lapsed_store :: "(unit, unit) dir_store" where
  \<comment> \<open>A directory whose page always reports a lapsed row.\<close>
  "lapsed_store = \<lparr>get_registration = (\<lambda>t s w. (Inl (Sentinel (StoreErr (RegistryError RegistryExpired))), w)),
     registration_observation = (\<lambda>g. Inl (Opaque ''none'')),
     list_hosts = (\<lambda>q w. (Inr \<lparr>hp_hosts = [], hp_next = [], hp_lapsed = 1\<rparr>, w)),
     reconcile_targets = (\<lambda>q w. (Inr \<lparr>rr_scanned = 0, rr_withdrawn = 0, rr_still_live = 0, rr_contended = 0,
       rr_unreadable = 0, rr_unverified = 0, rr_exhausted = False, rr_next = ''n''\<rparr>, w))\<rparr>"

theorem candidate_search_bounded_witness:
  "\<exists>r calls. candidates (logged_store lapsed_store) (default_limits 5)
      \<lparr>hr_agent = ''a'', hr_runtime = ''r'', hr_placement = Pooled, hr_limit = 0, hr_cursor = []\<rparr> ((), [])
      = (Inr r, (), calls) \<and> hp_lapsed r \<noteq> 0 \<and> pages_spent calls = 5 \<and> cleanups calls = 2"
proof -
  let ?o = "\<lparr>hr_agent = ''a'', hr_runtime = ''r'', hr_placement = Pooled, hr_limit = 0, hr_cursor = []\<rparr>"
  obtain r u calls where c: "candidates (logged_store lapsed_store) (default_limits 5) ?o ((), []) = (r, u, calls)"
    by (metis prod_cases3)
  have v: "new_directory 100 100 True (default_limits 5) = Inr (default_limits 5)"
    by (simp add: new_directory_def default_limits_def)
  have "\<exists>page. fst (candidates (logged_store lapsed_store) (default_limits 5) ?o ((), [])) = Inr page \<and> hp_lapsed page = 1"
    by (simp add: candidates_def default_limits_def logged_store_def lapsed_store_def Let_def
        candidates_loop.simps)
  with c obtain page where page: "r = Inr page" "hp_lapsed page = 1" by auto
  from candidate_search_bounded [OF v c] page have
    "pages_spent calls = reconcile_max_pages (default_limits 5)"
    "int (cleanups calls) = max_cleanup_attempts (default_limits 5)" by simp_all
  then have "pages_spent calls = 5" "cleanups calls = 2" by (simp_all add: default_limits_def)
  with c page show ?thesis by auto
qed

text \<open>
  The directory reports no owner exactly for the store answers that mean absence: a
  registration not found, expired or released, or a keyspace with no binding for the session;
  every other store failure stays a failure, and a registration is never turned into anything
  but its own observation.
\<close>

theorem owner_absence_codes:
  assumes "get_registration st t s w = (Inl err, w1)"
  shows "owner st t s w = ((if no_such_owner err then Inr None else Inl err), w1) \<and>
    (\<forall>c. errors_as registry_code_of err = Some c \<longrightarrow>
       (no_such_owner err \<longleftrightarrow> c = RegistryNotFound \<or> c = RegistryExpired \<or> c = RegistryReleased)) \<and>
    (errors_as registry_code_of err = None \<longrightarrow>
       (no_such_owner err \<longleftrightarrow> errors_as keyspace_code_of err = Some KeyspaceBindingNotFound))"
  using assms by (simp add: owner_def no_such_owner_def)

theorem owner_absence_codes_witness:
  "owner lapsed_store ''t'' ''s'' () = (Inr None, ())"
proof -
  have g: "get_registration lapsed_store ''t'' ''s'' () =
      (Inl (Sentinel (StoreErr (RegistryError RegistryExpired))), ())"
    by (simp add: lapsed_store_def)
  from owner_absence_codes [OF g] show ?thesis
    by (simp add: registry_code_of_def)
qed

end
