(* ===== verification/Demand.thy ===== *)
theory Demand
  imports Directory
begin

text \<open>
  Local subscriber demand, \<open>internal/routing/demand.go\<close>: what a replica watches, the route each
  watched session holds in the routing table, the ownership poll and the repair hint. The
  plane's mutex is held across the I/O an operation performs, so an operation is one function
  of the plane (which owns the routing table) and the world. A watched session's entry is a
  heap object in the code and its identity is compared by the poll; here it carries a fresh
  number. The timer, the journal read, the hint and the watcher are seams over the world.
\<close>

section \<open>Seams\<close>

record journal_request =
  jr_key :: session_key
  jr_from :: u64
  jr_tip_only :: bool
  jr_tail :: bool
  jr_limit :: int
  jr_scan :: int

record journal_page =
  jp_events :: "u64 list"
  jp_covered :: u64
  jp_tip :: u64

record 'w watcher =
  watch_start :: "session_key \<Rightarrow> 'w \<Rightarrow> 'w"
  watch_served :: "session_key \<Rightarrow> 'w \<Rightarrow> 'w"
  watch_end :: "session_key \<Rightarrow> 'w \<Rightarrow> 'w"

definition discard_watcher :: "'w watcher" where
  "discard_watcher = \<lparr>watch_start = \<lambda>_ w. w, watch_served = \<lambda>_ w. w, watch_end = \<lambda>_ w. w\<rparr>"

record 'w demand_seams =
  read_journal :: "journal_request \<Rightarrow> 'w \<Rightarrow> (rerr + journal_page) \<times> 'w"
  hint_validate :: "session_key \<Rightarrow> u64 \<Rightarrow> rerr option"
  hint_publish :: "session_key \<Rightarrow> u64 \<Rightarrow> 'w \<Rightarrow> rerr option \<times> 'w"
  after_func :: "int \<Rightarrow> session_key \<Rightarrow> nat \<Rightarrow> 'w \<Rightarrow> nat \<times> 'w"
  stop_timer :: "nat \<Rightarrow> 'w \<Rightarrow> bool \<times> 'w"
  watcher_of :: "'w watcher"
  ctx_err :: "'w \<Rightarrow> rerr option"

definition set_watcher :: "'w watcher option \<Rightarrow> 'w demand_seams \<Rightarrow> 'w demand_seams" where
  "set_watcher w ds = ds\<lparr>watcher_of := (case w of None \<Rightarrow> discard_watcher | Some v \<Rightarrow> v)\<rparr>"

section \<open>State\<close>

record demand_limits =
  poll_interval :: int
  held_interval :: int
  poll_timeout :: int

definition default_demand_limits :: demand_limits where
  \<comment> \<open>Durations in nanoseconds, as \<open>time.Duration\<close> counts them.\<close>
  "default_demand_limits =
     \<lparr>poll_interval = 5 * 1000000000, held_interval = 0, poll_timeout = 10 * 1000000000\<rparr>"

definition demand_limits_validate :: "demand_limits \<Rightarrow> rerr option" where
  "demand_limits_validate lim =
     (if poll_interval lim \<le> 0 then Some (Sentinel RErrInvalidConfig)
      else if poll_timeout lim \<le> 0 then Some (Sentinel RErrInvalidConfig)
      else None)"

record demand_session =
  ds_subscribers :: int
  ds_held :: bool
  ds_stop :: "nat option"
  ds_id :: nat

record demand =
  dm_closed :: bool
  dm_sessions :: "session_key \<rightharpoonup> demand_session"
  dm_table :: bindings
  dm_next :: nat
  dm_limits :: demand_limits

definition new_demand :: "bindings option \<Rightarrow> bool \<Rightarrow> bool \<Rightarrow> bool \<Rightarrow> demand_limits \<Rightarrow> rerr + demand" where
  "new_demand table tips hints clock lim =
     (case table of
        None \<Rightarrow> Inl (Sentinel RErrInvalidConfig)
      | Some t \<Rightarrow>
          if \<not> tips then Inl (Sentinel RErrInvalidConfig)
          else if \<not> hints then Inl (Sentinel RErrInvalidConfig)
          else if \<not> clock then Inl (Sentinel RErrInvalidConfig)
          else (case demand_limits_validate lim of
                  Some err \<Rightarrow> Inl err
                | None \<Rightarrow> Inr \<lparr>dm_closed = False, dm_sessions = Map.empty, dm_table = t,
                                dm_next = 0, dm_limits = lim\<rparr>))"

section \<open>Serving a session\<close>

definition tip_request :: "session_key \<Rightarrow> journal_request" where
  "tip_request k =
     \<lparr>jr_key = k, jr_from = 0, jr_tip_only = True, jr_tail = True, jr_limit = 1, jr_scan = 1\<rparr>"

definition hint_locked :: "'w demand_seams \<Rightarrow> session_key \<Rightarrow> 'w \<Rightarrow> 'w" where
  "hint_locked ds k w =
     (case read_journal ds (tip_request k) w of
        (Inl err, w1) \<Rightarrow> w1
      | (Inr page, w1) \<Rightarrow>
          (case hint_validate ds k (jp_tip page) of
             Some err \<Rightarrow> w1
           | None \<Rightarrow> snd (hint_publish ds k (jp_tip page) w1)))"

definition demand_bind_locked ::
  "'w route_seams \<Rightarrow> session_key \<Rightarrow> demand_session \<Rightarrow> bindings \<Rightarrow> 'w \<Rightarrow> demand_session \<times> bindings \<times> 'w" where
  "demand_bind_locked rs k e t w =
     (case acquire rs k t w of
        (Inl err, t1, w1) \<Rightarrow> (e, t1, w1)
      | (Inr b, t1, w1) \<Rightarrow> (e\<lparr>ds_held := True\<rparr>, t1, w1))"

definition serve_locked ::
  "'w route_seams \<Rightarrow> 'w demand_seams \<Rightarrow> session_key \<Rightarrow> demand_session \<Rightarrow> bindings \<Rightarrow> 'w \<Rightarrow>
   demand_session \<times> bindings \<times> 'w" where
  "serve_locked rs ds k e t w =
     (let (e1, t1, w1) = (if \<not> ds_held e then demand_bind_locked rs k e t w else (e, t, w));
          w2 = (if \<not> ds_held e1 then hint_locked ds k w1 else w1)
      in (e1, t1, w2))"

definition schedule_locked ::
  "'w demand_seams \<Rightarrow> demand_limits \<Rightarrow> session_key \<Rightarrow> demand_session \<Rightarrow> 'w \<Rightarrow> demand_session \<times> 'w" where
  "schedule_locked ds lim k e w =
     (let interval = (if ds_held e \<and> held_interval lim > 0 then held_interval lim else poll_interval lim);
          (h, w1) = after_func ds interval k (ds_id e) w
      in (e\<lparr>ds_stop := Some h\<rparr>, w1))"

definition cancel_poll :: "'w demand_seams \<Rightarrow> demand_session \<Rightarrow> 'w \<Rightarrow> demand_session \<times> 'w" where
  "cancel_poll ds e w =
     (case ds_stop e of
        None \<Rightarrow> (e, w)
      | Some h \<Rightarrow> (e\<lparr>ds_stop := None\<rparr>, snd (stop_timer ds h w)))"

definition reschedule_locked ::
  "'w demand_seams \<Rightarrow> session_key \<Rightarrow> demand_session \<Rightarrow> demand \<Rightarrow> 'w \<Rightarrow> demand \<times> 'w" where
  "reschedule_locked ds k e d w =
     (let (e1, w1) = cancel_poll ds e w;
          next = \<lparr>ds_subscribers = ds_subscribers e1, ds_held = ds_held e1, ds_stop = None, ds_id = dm_next d\<rparr>;
          (next1, w2) = schedule_locked ds (dm_limits d) k next w1
      in (d\<lparr>dm_sessions := (dm_sessions d)(k \<mapsto> next1), dm_next := dm_next d + 1\<rparr>, w2))"

definition teardown_locked ::
  "'w route_seams \<Rightarrow> 'w demand_seams \<Rightarrow> session_key \<Rightarrow> demand_session \<Rightarrow> demand \<Rightarrow> 'w \<Rightarrow>
   rerr option \<times> demand \<times> 'w" where
  "teardown_locked rs ds k e d w =
     (let (e1, w1) = cancel_poll ds e w;
          d1 = d\<lparr>dm_sessions := (dm_sessions d)(k := None)\<rparr>;
          w2 = watch_end (watcher_of ds) k w1
      in if \<not> ds_held e1 then (None, d1, w2)
         else let (err, t1, w3) = release rs k (dm_table d1) w2
              in (err, d1\<lparr>dm_table := t1\<rparr>, w3))"

section \<open>The operations\<close>

definition demand_acquire ::
  "'w route_seams \<Rightarrow> 'w demand_seams \<Rightarrow> session_key \<Rightarrow> demand \<Rightarrow> 'w \<Rightarrow> rerr option \<times> demand \<times> 'w" where
  "demand_acquire rs ds k d w =
     (if dm_closed d then (Some (Sentinel ErrDemandClosed), d, w)
      else case dm_sessions d k of
             Some e \<Rightarrow>
               (None, d\<lparr>dm_sessions := (dm_sessions d)(k \<mapsto> e\<lparr>ds_subscribers := ds_subscribers e + 1\<rparr>)\<rparr>, w)
           | None \<Rightarrow>
               let e = \<lparr>ds_subscribers = 1, ds_held = False, ds_stop = None, ds_id = dm_next d\<rparr>;
                   w1 = watch_start (watcher_of ds) k w;
                   (e1, t1, w2) = serve_locked rs ds k e (dm_table d) w1;
                   w3 = watch_served (watcher_of ds) k w2;
                   (e2, w4) = schedule_locked ds (dm_limits d) k e1 w3
               in (None, d\<lparr>dm_sessions := (dm_sessions d)(k \<mapsto> e2), dm_table := t1,
                           dm_next := dm_next d + 1\<rparr>, w4))"

definition demand_release ::
  "'w route_seams \<Rightarrow> 'w demand_seams \<Rightarrow> session_key \<Rightarrow> demand \<Rightarrow> 'w \<Rightarrow> rerr option \<times> demand \<times> 'w" where
  "demand_release rs ds k d w =
     (if dm_closed d then (Some (Sentinel ErrDemandClosed), d, w)
      else case dm_sessions d k of
             None \<Rightarrow> (Some (Sentinel ErrNoDemand), d, w)
           | Some e \<Rightarrow>
               if ds_subscribers e = 0 then (Some (Sentinel ErrNoDemand), d, w)
               else
                 let e1 = e\<lparr>ds_subscribers := ds_subscribers e - 1\<rparr>
                 in if ds_subscribers e1 > 0
                    then (None, d\<lparr>dm_sessions := (dm_sessions d)(k \<mapsto> e1)\<rparr>, w)
                    else teardown_locked rs ds k e1 d w)"

definition demand_rebind ::
  "'w route_seams \<Rightarrow> 'w demand_seams \<Rightarrow> session_key \<Rightarrow> demand \<Rightarrow> 'w \<Rightarrow> rerr option \<times> demand \<times> 'w" where
  \<comment> \<open>The wait for the lock returns the context's error and changes nothing, as does the
     check right after it.\<close>
  "demand_rebind rs ds k d w =
     (if ctx_err ds w \<noteq> None then (ctx_err ds w, d, w)
      else if dm_closed d then (Some (Sentinel ErrDemandClosed), d, w)
      else case dm_sessions d k of
             None \<Rightarrow> (Some (Sentinel ErrNoDemand), d, w)
           | Some e \<Rightarrow>
               if ds_held e then
                 let (err, t1, w1) = release rs k (dm_table d) w;
                     e1 = e\<lparr>ds_held := False\<rparr>;
                     d1 = d\<lparr>dm_table := t1\<rparr>
                 in if ctx_err ds w1 \<noteq> None then
                      let (d2, w2) = reschedule_locked ds k e1 d1 w1
                      in (errors_join [err, ctx_err ds w2], d2, w2)
                    else
                      let (e2, t2, w2) = serve_locked rs ds k e1 t1 w1;
                          (d3, w3) = reschedule_locked ds k e2 (d1\<lparr>dm_table := t2\<rparr>) w2
                      in (errors_join [err, ctx_err ds w3], d3, w3)
               else
                 let (e2, t2, w2) = serve_locked rs ds k e (dm_table d) w;
                     (d3, w3) = reschedule_locked ds k e2 (d\<lparr>dm_table := t2\<rparr>) w2
                 in (ctx_err ds w3, d3, w3))"

definition refresh_locked ::
  "'w route_seams \<Rightarrow> session_key \<Rightarrow> demand_session \<Rightarrow> bindings \<Rightarrow> 'w \<Rightarrow> demand_session \<times> bindings \<times> 'w" where
  "refresh_locked rs k e t w =
     (case owner_of rs (sk_tenant k) (sk_session k) w of
        (Inl err, w1) \<Rightarrow> (e, t, w1)
      | (Inr found, w1) \<Rightarrow>
          let (t1, w2) = (case found of
                            None \<Rightarrow> (t, w1)
                          | Some obs \<Rightarrow> snd (observe rs obs t w1))
          in if binding_of k t1 \<noteq> None \<and> found \<noteq> None \<and> transport_holds rs k w2 then (e, t1, w2)
             else let (err, t2, w3) = release rs k t1 w2
                  in (e\<lparr>ds_held := False\<rparr>, t2, w3))"

definition poll ::
  "'w route_seams \<Rightarrow> 'w demand_seams \<Rightarrow> session_key \<Rightarrow> nat \<Rightarrow> demand \<Rightarrow> 'w \<Rightarrow> demand \<times> 'w" where
  "poll rs ds k scheduled d w =
     (case dm_sessions d k of
        None \<Rightarrow> (d, w)
      | Some e \<Rightarrow>
          if ds_id e \<noteq> scheduled then (d, w)
          else
            let (e1, t1, w1) = (if ds_held e then refresh_locked rs k e (dm_table d) w else (e, dm_table d, w));
                (e2, t2, w2) = serve_locked rs ds k e1 t1 w1;
                (e3, w3) = schedule_locked ds (dm_limits d) k e2 w2
            in (d\<lparr>dm_sessions := (dm_sessions d)(k \<mapsto> e3), dm_table := t2\<rparr>, w3))"

fun demand_close_loop ::
  "'w route_seams \<Rightarrow> 'w demand_seams \<Rightarrow> session_key list \<Rightarrow> demand \<Rightarrow> 'w \<Rightarrow> rerr option list \<times> demand \<times> 'w" where
  "demand_close_loop rs ds [] d w = ([], d, w)"
| "demand_close_loop rs ds (k # ks) d w =
     (case dm_sessions d k of
        None \<Rightarrow> demand_close_loop rs ds ks d w
      | Some e \<Rightarrow>
          let (err, d1, w1) = teardown_locked rs ds k e d w;
              (fs, d2, w2) = demand_close_loop rs ds ks d1 w1
          in (if err \<noteq> None \<and> \<not> err_is ErrRouteGone err then err # fs else fs, d2, w2))"

definition demand_close ::
  "'w route_seams \<Rightarrow> 'w demand_seams \<Rightarrow> session_key list \<Rightarrow> demand \<Rightarrow> 'w \<Rightarrow> rerr option \<times> demand \<times> 'w" where
  \<comment> \<open>\<open>order\<close> is the order in which Go ranges over the watched sessions.\<close>
  "demand_close rs ds order d w =
     (let (fs, d1, w1) = demand_close_loop rs ds order (d\<lparr>dm_closed := True\<rparr>) w
      in (errors_join fs, d1, w1))"

definition watching :: "session_key \<Rightarrow> demand \<Rightarrow> int" where
  "watching k d = (case dm_sessions d k of None \<Rightarrow> 0 | Some e \<Rightarrow> ds_subscribers e)"

definition demand_len :: "demand \<Rightarrow> nat" where
  "demand_len d = card (dom (dm_sessions d))"

section \<open>The counted routing table\<close>

text \<open>
  What the plane relies on of the table: a successful acquisition adds exactly one reference to
  its session, a release takes exactly one, and nothing else moves a count. From these laws: if
  a set of sessions is each held exactly once, taking a session outside it and giving back one
  inside it keep that so.
\<close>

definition single_holder :: "('k \<Rightarrow> 't \<Rightarrow> int) \<Rightarrow> 'k set \<Rightarrow> 't \<Rightarrow> bool" where
  "single_holder dem S t \<longleftrightarrow> (\<forall>j. dem j t = (if j \<in> S then 1 else 0))"

locale counted_table =
  fixes acq :: "'k \<Rightarrow> 't \<Rightarrow> 'w \<Rightarrow> ('e + 'b) \<times> 't \<times> 'w"
    and rel :: "'k \<Rightarrow> 't \<Rightarrow> 'w \<Rightarrow> 'e option \<times> 't \<times> 'w"
    and upd :: "'o \<Rightarrow> 't \<Rightarrow> 'w \<Rightarrow> 'r \<times> 't \<times> 'w"
    and dem :: "'k \<Rightarrow> 't \<Rightarrow> int"
    and live :: "'t \<Rightarrow> bool"
  assumes acq_live: "live t \<Longrightarrow> live (fst (snd (acq k t w)))"
    and rel_live: "live t \<Longrightarrow> live (fst (snd (rel k t w)))"
    and upd_live: "live t \<Longrightarrow> live (fst (snd (upd x t w)))"
    and acq_dem: "live t \<Longrightarrow> dem j (fst (snd (acq k t w))) =
      dem j t + (if j = k \<and> \<not> isl (fst (acq k t w)) then 1 else 0)"
    and rel_dem: "live t \<Longrightarrow> dem j (fst (snd (rel k t w))) =
      dem j t - (if j = k \<and> 0 < dem k t then 1 else 0)"
    and upd_dem: "live t \<Longrightarrow> dem j (fst (snd (upd x t w))) = dem j t"
begin

lemma take_single:
  assumes "live t" "single_holder dem S t" "k \<notin> S"
  shows "single_holder dem (if isl (fst (acq k t w)) then S else insert k S) (fst (snd (acq k t w)))"
  using assms by (auto simp: single_holder_def acq_dem)

lemma drop_single:
  assumes "live t" "single_holder dem S t"
  shows "single_holder dem (S - {k}) (fst (snd (rel k t w)))"
  using assms by (auto simp: single_holder_def rel_dem)

lemma upd_single:
  assumes "live t" "single_holder dem S t"
  shows "single_holder dem S (fst (snd (upd x t w)))"
  using assms by (auto simp: single_holder_def upd_dem)

end

definition table_live :: "bindings \<Rightarrow> bool" where
  "table_live t \<longleftrightarrow> bindings_ok t \<and> \<not> bt_closed t"

lemma demand_of_upd:
  "demand_of j (t\<lparr>bt_sessions := (bt_sessions t)(k \<mapsto> r)\<rparr>) = (if j = k then rt_demand r else demand_of j t)"
  "demand_of j (t\<lparr>bt_sessions := (bt_sessions t)(k := None)\<rparr>) = (if j = k then 0 else demand_of j t)"
  by (auto simp: demand_of_def)

lemma demand_of_Some: "bt_sessions t k = Some r \<Longrightarrow> demand_of k t = rt_demand r"
  by (simp add: demand_of_def)

lemma table_live_acquire: "table_live t \<Longrightarrow> table_live (fst (snd (acquire rs k t w)))"
  by (rule acquire_cases [where t = t and k = k and sm = rs and w = w])
    (use acquire_ok [of t rs k w] in \<open>auto simp: table_live_def\<close>)

lemma table_live_release: "table_live t \<Longrightarrow> table_live (fst (snd (release rs k t w)))"
  by (rule release_cases [where t = t and k = k and sm = rs and w = w])
    (use release_ok [of t rs k w] in \<open>auto simp: table_live_def\<close>)

lemma table_live_observe: "table_live t \<Longrightarrow> table_live (fst (snd (observe rs obs t w)))"
  by (rule observe_cases [where t = t and obs = obs and sm = rs and w = w])
    (use observe_ok [of t rs obs w] in \<open>auto simp: table_live_def\<close>)

lemma acquire_demand:
  "table_live t \<Longrightarrow> demand_of j (fst (snd (acquire rs k t w))) =
    demand_of j t + (if j = k \<and> \<not> isl (fst (acquire rs k t w)) then 1 else 0)"
  by (rule acquire_cases [where t = t and k = k and sm = rs and w = w])
    (auto simp: table_live_def demand_of_upd demand_of_Some)

lemma release_demand:
  "table_live t \<Longrightarrow> demand_of j (fst (snd (release rs k t w))) =
    demand_of j t - (if j = k \<and> 0 < demand_of k t then 1 else 0)"
  by (rule release_cases [where t = t and k = k and sm = rs and w = w])
    (auto simp: table_live_def demand_of_upd demand_of_Some, auto simp: demand_of_def)

lemma observe_demand:
  "table_live t \<Longrightarrow> demand_of j (fst (snd (observe rs obs t w))) = demand_of j t"
  by (rule observe_cases [where t = t and obs = obs and sm = rs and w = w])
    (auto simp: demand_of_upd demand_of_Some)

lemma deliver_live_demand:
  assumes "table_live t"
  shows "table_live (fst (snd (deliver rs k cmd t w))) \<and>
    demand_of j (fst (snd (deliver rs k cmd t w))) = demand_of j t"
proof (cases "bt_sessions t k")
  case None
  with assms show ?thesis by (simp add: deliver_table deliver_route_def)
next
  case (Some r)
  with assms have eq: "fst (snd (deliver rs k cmd t w)) = fst (snd (route_locked rs k t w))"
    using demand_of_ge [of t k r] unfolding table_live_def
    by (auto simp: deliver_table deliver_route_def demand_of_Some split: prod.splits sum.splits)
  have "bindings_ok (fst (snd (route_locked rs k t w)))"
    using assms Some by (simp add: table_live_def route_locked_ok)
  with assms show ?thesis unfolding eq
    by (cases rule: route_locked_cases [where t = t and k = k and sm = rs and w = w])
      (auto simp: table_live_def demand_of_upd demand_of_Some)
qed

interpretation bt: counted_table "acquire rs" "release rs" "observe rs" demand_of table_live for rs
  by unfold_locales
    (simp_all add: table_live_acquire table_live_release table_live_observe acquire_demand
      release_demand observe_demand)

interpretation bd: counted_table "acquire rs" "release rs" "\<lambda>(k, cmd). deliver rs k cmd" demand_of table_live
  for rs
  by unfold_locales
    (simp_all add: table_live_acquire table_live_release acquire_demand release_demand
      deliver_live_demand split_beta)

section \<open>The plane's invariant\<close>

definition held_set :: "demand \<Rightarrow> session_key set" where
  "held_set d = {k. \<exists>e. dm_sessions d k = Some e \<and> ds_held e}"

definition entry_ok :: "nat \<Rightarrow> demand_session \<Rightarrow> bool" where
  "entry_ok n e \<longleftrightarrow> 1 \<le> ds_subscribers e \<and> ds_id e < n \<and> ds_stop e \<noteq> None"

definition demand_ok :: "demand \<Rightarrow> bool" where
  "demand_ok d \<longleftrightarrow>
     table_live (dm_table d) \<and> single_holder demand_of (held_set d) (dm_table d) \<and>
     (\<forall>k e. dm_sessions d k = Some e \<longrightarrow> entry_ok (dm_next d) e)"

text \<open>One entry and the table, while an operation works on them: the other sessions as they were.\<close>

definition fits :: "session_key set \<Rightarrow> session_key \<Rightarrow> demand_session \<Rightarrow> bindings \<Rightarrow> bool" where
  "fits S k e t \<longleftrightarrow>
     table_live t \<and> single_holder demand_of (if ds_held e then insert k S else S - {k}) t"

lemma fits_unhold:
  assumes "fits S k e t"
  shows "fits S k (e\<lparr>ds_held := False\<rparr>) (fst (snd (release rs k t w)))"
proof -
  have eq: "(if ds_held e then insert k S else S - {k}) - {k} = S - {k}" by auto
  show ?thesis
    using assms bt.drop_single [of t "if ds_held e then insert k S else S - {k}" k rs w]
    unfolding fits_def eq by (simp add: table_live_release)
qed

lemma demand_bind_fits:
  assumes "fits S k e t" "\<not> ds_held e" "demand_bind_locked rs k e t w = (e', t', w')"
  shows "fits S k e' t' \<and> ds_subscribers e' = ds_subscribers e \<and> ds_id e' = ds_id e \<and> ds_stop e' = ds_stop e"
proof -
  have f: "table_live t" "single_holder demand_of (S - {k}) t"
    using assms(1,2) by (simp_all add: fits_def)
  have "insert k (S - {k}) = insert k S" by auto
  with assms(2,3) bt.take_single [OF f, of k rs w] table_live_acquire [OF f(1), of rs k w] show ?thesis
    by (auto simp: demand_bind_locked_def fits_def split: prod.splits sum.splits)
qed

lemma serve_fits:
  assumes "fits S k e t" "serve_locked rs ds k e t w = (e', t', w')"
  shows "fits S k e' t' \<and> ds_subscribers e' = ds_subscribers e \<and> ds_id e' = ds_id e \<and> ds_stop e' = ds_stop e"
proof (cases "ds_held e")
  case True
  with assms show ?thesis by (auto simp: serve_locked_def)
next
  case False
  obtain e1 t1 w1 where b: "demand_bind_locked rs k e t w = (e1, t1, w1)" by (metis prod_cases3)
  with False assms(2) have "e' = e1" "t' = t1" by (auto simp: serve_locked_def Let_def)
  with demand_bind_fits [OF assms(1) False b] show ?thesis by simp
qed

lemma refresh_fits:
  assumes "fits S k e t" "refresh_locked rs k e t w = (e', t', w')"
  shows "fits S k e' t' \<and> ds_subscribers e' = ds_subscribers e \<and> ds_id e' = ds_id e \<and> ds_stop e' = ds_stop e"
proof -
  obtain x w1 where o: "owner_of rs (sk_tenant k) (sk_session k) w = (x, w1)" by fastforce
  show ?thesis
  proof (cases x)
    case (Inl err)
    with assms o show ?thesis by (simp add: refresh_locked_def)
  next
    case (Inr found)
    obtain t1 w2 where
      t1: "(case found of None \<Rightarrow> (t, w1) | Some obs \<Rightarrow> snd (observe rs obs t w1)) = (t1, w2)"
      by fastforce
    have fit: "fits S k e t1"
      using assms(1) t1 bt.upd_single [of t _ rs _ w1] table_live_observe [of t rs _ w1]
      by (auto simp: fits_def split: option.splits if_splits) (metis fst_conv)+
    have "e' = e \<and> t' = t1 \<or> e' = e\<lparr>ds_held := False\<rparr> \<and> t' = fst (snd (release rs k t1 w2))"
      using assms(2) o Inr t1
      by (auto simp: refresh_locked_def Let_def split_beta split: if_splits prod.splits)
    with fit fits_unhold [OF fit, of rs w2] show ?thesis by auto
  qed
qed

lemma schedule_simps:
  "schedule_locked ds lim k e w = (e', w') \<Longrightarrow>
    ds_held e' = ds_held e \<and> ds_subscribers e' = ds_subscribers e \<and> ds_id e' = ds_id e \<and> ds_stop e' \<noteq> None"
  by (auto simp: schedule_locked_def Let_def split_beta)

lemma cancel_simps:
  "cancel_poll ds e w = (e', w') \<Longrightarrow>
    ds_held e' = ds_held e \<and> ds_subscribers e' = ds_subscribers e \<and> ds_id e' = ds_id e"
  by (auto simp: cancel_poll_def split: option.splits)

lemma held_set_upd:
  "held_set (d\<lparr>dm_sessions := (dm_sessions d)(k \<mapsto> e)\<rparr>) =
    (if ds_held e then insert k (held_set d) else held_set d - {k})"
  "held_set (d\<lparr>dm_sessions := (dm_sessions d)(k := None)\<rparr>) = held_set d - {k}"
  by (auto simp: held_set_def)

lemma held_set_cong: "dm_sessions d = dm_sessions d' \<Longrightarrow> held_set d = held_set d'"
  by (simp add: held_set_def)

text \<open>Numbers of entries are never reused: an entry that was replaced never comes back.\<close>

definition retired :: "session_key \<Rightarrow> nat \<Rightarrow> demand \<Rightarrow> bool" where
  "retired k i d \<longleftrightarrow> i < dm_next d \<and> (\<forall>e. dm_sessions d k = Some e \<longrightarrow> ds_id e \<noteq> i)"

definition id_step :: "demand \<Rightarrow> demand \<Rightarrow> bool" where
  "id_step d d' \<longleftrightarrow> dm_next d \<le> dm_next d' \<and>
     (\<forall>k e'. dm_sessions d' k = Some e' \<longrightarrow>
        dm_next d \<le> ds_id e' \<or> (\<exists>e. dm_sessions d k = Some e \<and> ds_id e = ds_id e'))"

lemma retired_id_step: "id_step d d' \<Longrightarrow> retired k i d \<Longrightarrow> retired k i d'"
  by (fastforce simp: id_step_def retired_def)

lemma id_step_refl [simp]: "dm_sessions d' = dm_sessions d \<Longrightarrow> dm_next d' = dm_next d \<Longrightarrow> id_step d d'"
  by (auto simp: id_step_def)

lemma id_step_store:
  assumes "dm_sessions d' = (dm_sessions d)(k \<mapsto> e')" "dm_next d \<le> dm_next d'"
    "dm_next d \<le> ds_id e' \<or> (\<exists>e. dm_sessions d k = Some e \<and> ds_id e = ds_id e')"
  shows "id_step d d'"
  using assms by (auto simp: id_step_def)

lemma id_step_remove:
  "dm_sessions d' = (dm_sessions d) |` S \<Longrightarrow> dm_next d' = dm_next d \<Longrightarrow> id_step d d'"
  by (auto simp: id_step_def restrict_map_def split: if_splits)

text \<open>An entry that fits, put back in the table, restores the invariant.\<close>

lemma demand_ok_store:
  assumes "demand_ok d" "fits (held_set d) k e t" "entry_ok n e" "dm_next d \<le> n"
    "dm_sessions d' = (dm_sessions d)(k \<mapsto> e)" "dm_table d' = t" "dm_next d' = n"
    "dm_next d \<le> ds_id e \<or> (\<exists>e0. dm_sessions d k = Some e0 \<and> ds_id e0 = ds_id e)"
  shows "demand_ok d' \<and> id_step d d'"
proof -
  have "held_set d' = held_set (d\<lparr>dm_sessions := (dm_sessions d)(k \<mapsto> e)\<rparr>)"
    using assms(5) by (intro held_set_cong) simp
  then have "table_live t \<and> single_holder demand_of (held_set d') t"
    using assms(2) by (simp add: fits_def held_set_upd)
  moreover have "entry_ok n e'" if "dm_sessions d' j = Some e'" for j e'
  proof (cases "j = k")
    case True
    with that assms(3,5) show ?thesis by simp
  next
    case False
    with that assms(1,5) have "entry_ok (dm_next d) e'" by (simp add: demand_ok_def)
    with assms(4) show ?thesis by (simp add: entry_ok_def)
  qed
  moreover have "id_step d d'" using assms(4,5,7,8) by (intro id_step_store [of d' d k e]) simp_all
  ultimately show ?thesis using assms(6,7) by (simp add: demand_ok_def)
qed

lemma demand_ok_fits:
  "demand_ok d \<Longrightarrow> dm_sessions d k = Some e \<Longrightarrow> fits (held_set d) k e (dm_table d)"
proof -
  assume d: "demand_ok d" "dm_sessions d k = Some e"
  then have "(if ds_held e then insert k (held_set d) else held_set d - {k}) = held_set d"
    by (auto simp: held_set_def)
  with d show ?thesis by (simp add: fits_def demand_ok_def)
qed

lemma demand_ok_fits_new:
  "demand_ok d \<Longrightarrow> dm_sessions d k = None \<Longrightarrow> \<not> ds_held e \<Longrightarrow> fits (held_set d) k e (dm_table d)"
proof -
  assume d: "demand_ok d" "dm_sessions d k = None" "\<not> ds_held e"
  then have "held_set d - {k} = held_set d" by (auto simp: held_set_def)
  with d show ?thesis by (simp add: fits_def demand_ok_def)
qed

section \<open>Every operation keeps the invariant\<close>

lemma reschedule_effect:
  assumes "reschedule_locked ds k e d w = (d', w')"
  obtains e' where "dm_sessions d' = (dm_sessions d)(k \<mapsto> e')" "ds_held e' = ds_held e"
    "ds_subscribers e' = ds_subscribers e" "ds_id e' = dm_next d" "ds_stop e' \<noteq> None"
    "dm_table d' = dm_table d" "dm_next d' = dm_next d + 1" "dm_closed d' = dm_closed d"
proof -
  obtain e1 w1 where c: "cancel_poll ds e w = (e1, w1)" by fastforce
  let ?n = "\<lparr>ds_subscribers = ds_subscribers e1, ds_held = ds_held e1, ds_stop = None, ds_id = dm_next d\<rparr>"
  obtain e2 w2 where s: "schedule_locked ds (dm_limits d) k ?n w1 = (e2, w2)" by fastforce
  have "d' = d\<lparr>dm_sessions := (dm_sessions d)(k \<mapsto> e2), dm_next := dm_next d + 1\<rparr>"
    using assms c s by (simp add: reschedule_locked_def)
  with schedule_simps [OF s] cancel_simps [OF c] that [of e2] show thesis by simp
qed

lemma reschedule_ok:
  assumes "demand_ok d" "fits (held_set d) k e t" "1 \<le> ds_subscribers e"
    "reschedule_locked ds k e (d\<lparr>dm_table := t\<rparr>) w = (d', w')"
  shows "demand_ok d' \<and> id_step d d'"
proof (rule reschedule_effect [OF assms(4)])
  fix e'
  assume e': "dm_sessions d' = (dm_sessions (d\<lparr>dm_table := t\<rparr>))(k \<mapsto> e')" "ds_held e' = ds_held e"
    "ds_subscribers e' = ds_subscribers e" "ds_id e' = dm_next (d\<lparr>dm_table := t\<rparr>)" "ds_stop e' \<noteq> None"
    "dm_table d' = dm_table (d\<lparr>dm_table := t\<rparr>)" "dm_next d' = dm_next (d\<lparr>dm_table := t\<rparr>) + 1"
  have "fits (held_set d) k e' t" using assms(2) e'(2) by (simp add: fits_def)
  moreover have "entry_ok (dm_next d + 1) e'" using assms(3) e' by (simp add: entry_ok_def)
  ultimately show ?thesis using e' demand_ok_store [OF assms(1), of k e' t "dm_next d + 1" d'] by simp
qed

lemma demand_acquire_ok:
  assumes "demand_ok d" "demand_acquire rs ds k d w = (err, d', w')"
  shows "demand_ok d' \<and> id_step d d'"
proof (cases "dm_closed d")
  case True
  with assms show ?thesis by (simp add: demand_acquire_def)
next
  case alive: False
  show ?thesis
  proof (cases "dm_sessions d k")
    case (Some e)
    let ?e = "e\<lparr>ds_subscribers := ds_subscribers e + 1\<rparr>"
    have "fits (held_set d) k ?e (dm_table d)"
      using demand_ok_fits [OF assms(1) Some] by (simp add: fits_def)
    moreover have "entry_ok (dm_next d) ?e"
      using assms(1) Some by (force simp: demand_ok_def entry_ok_def)
    moreover have "d' = d\<lparr>dm_sessions := (dm_sessions d)(k \<mapsto> ?e)\<rparr>"
      using alive Some assms(2) by (simp add: demand_acquire_def)
    ultimately show ?thesis
      using Some demand_ok_store [OF assms(1), of k ?e "dm_table d" "dm_next d" d'] by simp
  next
    case None
    let ?e = "\<lparr>ds_subscribers = 1, ds_held = False, ds_stop = None, ds_id = dm_next d\<rparr>"
    obtain e1 t1 w2 where
      s: "serve_locked rs ds k ?e (dm_table d) (watch_start (watcher_of ds) k w) = (e1, t1, w2)"
      by (metis prod_cases3)
    obtain e2 w4 where
      c: "schedule_locked ds (dm_limits d) k e1 (watch_served (watcher_of ds) k w2) = (e2, w4)"
      by fastforce
    have d': "d' = d\<lparr>dm_sessions := (dm_sessions d)(k \<mapsto> e2), dm_table := t1, dm_next := dm_next d + 1\<rparr>"
      using alive None s c assms(2) by (simp add: demand_acquire_def Let_def)
    have "fits (held_set d) k ?e (dm_table d)" using demand_ok_fits_new [OF assms(1) None] by simp
    from serve_fits [OF this s] schedule_simps [OF c]
    have "fits (held_set d) k e2 t1" "entry_ok (dm_next d + 1) e2"
      by (simp_all add: fits_def entry_ok_def)
    moreover have "ds_id e2 = dm_next d"
      using serve_fits [OF \<open>fits (held_set d) k ?e (dm_table d)\<close> s] schedule_simps [OF c] by simp
    ultimately show ?thesis
      using d' demand_ok_store [OF assms(1), of k e2 t1 "dm_next d + 1" d'] by simp
  qed
qed

lemma teardown_effect:
  assumes "demand_ok d" "dm_sessions d k = Some e0" "ds_held e = ds_held e0"
    "teardown_locked rs ds k e d w = (err, d', w')"
  shows "demand_ok d' \<and> dm_sessions d' = (dm_sessions d)(k := None) \<and> dm_next d' = dm_next d \<and>
    dm_closed d' = dm_closed d"
proof -
  obtain e1 w1 where c: "cancel_poll ds e w = (e1, w1)" by fastforce
  let ?w = "watch_end (watcher_of ds) k w1"
  let ?t = "if ds_held e0 then fst (snd (release rs k (dm_table d) ?w)) else dm_table d"
  have d': "d' = d\<lparr>dm_sessions := (dm_sessions d)(k := None), dm_table := ?t\<rparr>"
    using assms(3,4) c cancel_simps [OF c]
    by (auto simp: teardown_locked_def Let_def split_beta split: if_splits)
  have hs: "held_set d' = held_set d - {k}" unfolding d' by (auto simp: held_set_def)
  have "held_set d - {k} = held_set d" if "\<not> ds_held e0" using that assms(2) by (auto simp: held_set_def)
  then have "table_live ?t \<and> single_holder demand_of (held_set d - {k}) ?t"
    using assms(1) bt.drop_single [of "dm_table d" "held_set d" k rs ?w]
      table_live_release [of "dm_table d" rs k ?w]
    by (simp add: demand_ok_def)
  with assms(1) hs show ?thesis unfolding demand_ok_def d'
    by (auto split: if_splits)
qed

lemma demand_release_ok:
  assumes "demand_ok d" "demand_release rs ds k d w = (err, d', w')"
  shows "demand_ok d' \<and> id_step d d'"
proof (cases "dm_closed d \<or> dm_sessions d k = None")
  case True
  with assms show ?thesis by (auto simp: demand_release_def split: if_splits)
next
  case False
  then obtain e where e: "\<not> dm_closed d" "dm_sessions d k = Some e" by auto
  with assms(1) have en: "entry_ok (dm_next d) e" by (auto simp: demand_ok_def)
  let ?e = "e\<lparr>ds_subscribers := ds_subscribers e - 1\<rparr>"
  show ?thesis
  proof (cases "1 < ds_subscribers e")
    case True
    have "fits (held_set d) k ?e (dm_table d)"
      using demand_ok_fits [OF assms(1) e(2)] by (simp add: fits_def)
    moreover have "entry_ok (dm_next d) ?e" using en True by (simp add: entry_ok_def)
    moreover have "d' = d\<lparr>dm_sessions := (dm_sessions d)(k \<mapsto> ?e)\<rparr>"
      using e True assms(2) by (simp add: demand_release_def)
    ultimately show ?thesis
      using e demand_ok_store [OF assms(1), of k ?e "dm_table d" "dm_next d" d'] by simp
  next
    case False
    with en e assms(2) have "teardown_locked rs ds k ?e d w = (err, d', w')"
      by (simp add: demand_release_def entry_ok_def)
    from teardown_effect [OF assms(1) e(2) _ this] show ?thesis
      using id_step_remove [of d' d "- {k}"] by (simp add: restrict_complement_singleton_eq)
  qed
qed

lemma demand_rebind_ok:
  assumes "demand_ok d" "demand_rebind rs ds k d w = (err, d', w')"
  shows "demand_ok d' \<and> id_step d d'"
proof (cases "ctx_err ds w \<noteq> None \<or> dm_closed d \<or> dm_sessions d k = None")
  case True
  with assms show ?thesis by (auto simp: demand_rebind_def split: if_splits)
next
  case False
  then obtain e where e: "ctx_err ds w = None" "\<not> dm_closed d" "dm_sessions d k = Some e" by auto
  have sub: "1 \<le> ds_subscribers e" using assms(1) e(3) by (auto simp: demand_ok_def entry_ok_def)
  note fit = demand_ok_fits [OF assms(1) e(3)]
  have serve: "demand_ok d' \<and> id_step d d'" if "fits (held_set d) k e1 t1" "ds_subscribers e1 = ds_subscribers e"
      "serve_locked rs ds k e1 t1 w1 = (e2, t2, w2)"
      "reschedule_locked ds k e2 (d\<lparr>dm_table := t2\<rparr>) w2 = (d', w3)" for e1 t1 w1 e2 t2 w2 w3
    using serve_fits [OF that(1,3)] that(2) sub reschedule_ok [OF assms(1) _ _ that(4)] by simp
  show ?thesis
  proof (cases "ds_held e")
    case False
    obtain e2 t2 w2 where s: "serve_locked rs ds k e (dm_table d) w = (e2, t2, w2)" by (metis prod_cases3)
    have "\<exists>w3. reschedule_locked ds k e2 (d\<lparr>dm_table := t2\<rparr>) w2 = (d', w3)"
      using False e s assms(2) by (simp add: demand_rebind_def split_beta prod_eq_iff)
    with serve [OF fit refl s] show ?thesis by blast
  next
    case True
    obtain er t1 w1 where r: "release rs k (dm_table d) w = (er, t1, w1)" by (metis prod_cases3)
    have f1: "fits (held_set d) k (e\<lparr>ds_held := False\<rparr>) t1"
      using fits_unhold [OF fit, of rs w] r by simp
    show ?thesis
    proof (cases "ctx_err ds w1")
      case None
      obtain e2 t2 w2 where s: "serve_locked rs ds k (e\<lparr>ds_held := False\<rparr>) t1 w1 = (e2, t2, w2)"
        by (metis prod_cases3)
      have "\<exists>w3. reschedule_locked ds k e2 (d\<lparr>dm_table := t2\<rparr>) w2 = (d', w3)"
        using True None e r s assms(2) by (simp add: demand_rebind_def Let_def split_beta prod_eq_iff)
      with serve [OF f1 _ s] show ?thesis by auto
    next
      case (Some c)
      have "\<exists>w3. reschedule_locked ds k (e\<lparr>ds_held := False\<rparr>) (d\<lparr>dm_table := t1\<rparr>) w1 = (d', w3)"
        using True Some e r assms(2) by (simp add: demand_rebind_def Let_def split_beta prod_eq_iff)
      then obtain w3 where
        "reschedule_locked ds k (e\<lparr>ds_held := False\<rparr>) (d\<lparr>dm_table := t1\<rparr>) w1 = (d', w3)" ..
      from reschedule_ok [OF assms(1) f1 _ this] sub show ?thesis by simp
    qed
  qed
qed

lemma poll_ok:
  assumes "demand_ok d" "poll rs ds k i d w = (d', w')"
  shows "demand_ok d' \<and> id_step d d'"
proof (cases "\<exists>e. dm_sessions d k = Some e \<and> ds_id e = i")
  case False
  with assms show ?thesis by (auto simp: poll_def split: option.splits if_splits)
next
  case True
  then obtain e where e: "dm_sessions d k = Some e" "ds_id e = i" by auto
  have en: "entry_ok (dm_next d) e" using assms(1) e(1) by (auto simp: demand_ok_def)
  obtain e1 t1 w1 where
    r: "(if ds_held e then refresh_locked rs k e (dm_table d) w else (e, dm_table d, w)) = (e1, t1, w1)"
    by (metis prod_cases3)
  obtain e2 t2 w2 where s: "serve_locked rs ds k e1 t1 w1 = (e2, t2, w2)" by (metis prod_cases3)
  obtain e3 w3 where c: "schedule_locked ds (dm_limits d) k e2 w2 = (e3, w3)" by fastforce
  have d': "d' = d\<lparr>dm_sessions := (dm_sessions d)(k \<mapsto> e3), dm_table := t2\<rparr>"
    using assms(2) e r s c by (simp add: poll_def)
  note fit = demand_ok_fits [OF assms(1) e(1)]
  have e1: "fits (held_set d) k e1 t1 \<and> ds_subscribers e1 = ds_subscribers e \<and> ds_id e1 = ds_id e"
  proof (cases "ds_held e")
    case True
    with r have "refresh_locked rs k e (dm_table d) w = (e1, t1, w1)" by simp
    from refresh_fits [OF fit this] show ?thesis by simp
  next
    case False
    with r fit show ?thesis by simp
  qed
  note e2 = serve_fits [OF conjunct1 [OF e1] s] and e3 = schedule_simps [OF c]
  have "fits (held_set d) k e3 t2" using e2 e3 by (simp add: fits_def)
  moreover have "entry_ok (dm_next d) e3" using e1 e2 e3 en by (simp add: entry_ok_def)
  moreover have "ds_id e3 = ds_id e" using e1 e2 e3 by simp
  ultimately show ?thesis
    using d' e demand_ok_store [OF assms(1), of k e3 t2 "dm_next d" d'] by simp
qed

lemma demand_close_loop_effect:
  assumes "demand_ok d" "demand_close_loop rs ds order d w = (fs, d', w')"
  shows "demand_ok d' \<and> dm_sessions d' = (dm_sessions d) |` (- set order) \<and> dm_next d' = dm_next d \<and>
    dm_closed d' = dm_closed d"
  using assms
proof (induction order arbitrary: d w fs)
  case Nil
  then show ?case by simp
next
  case (Cons k ks)
  show ?case
  proof (cases "dm_sessions d k")
    case None
    with Cons.IH [OF Cons.prems(1), of w fs] Cons.prems(2) show ?thesis
      by (auto simp: restrict_map_def fun_eq_iff)
  next
    case (Some e)
    obtain err d1 w1 where t: "teardown_locked rs ds k e d w = (err, d1, w1)" by (metis prod_cases3)
    note eff = teardown_effect [OF Cons.prems(1) Some refl t]
    obtain fs1 where "demand_close_loop rs ds ks d1 w1 = (fs1, d', w')"
      using Cons.prems(2) Some t by (auto split: prod.splits)
    with Cons.IH [of d1 w1 fs1] eff show ?thesis
      by (auto simp: restrict_map_def fun_eq_iff)
  qed
qed

section \<open>Runs of the plane\<close>

text \<open>
  One step of a plane: an operation, a poll firing for some entry, an operation another caller
  makes on the shared table, or the world moving on its own. A run is any sequence of steps.
\<close>

inductive demand_step :: "'w route_seams \<Rightarrow> 'w demand_seams \<Rightarrow> demand \<Rightarrow> 'w \<Rightarrow> demand \<Rightarrow> 'w \<Rightarrow> bool"
  for rs ds where
  env: "demand_step rs ds d w d w'"
| acquire: "demand_acquire rs ds k d w = (err, d', w') \<Longrightarrow> demand_step rs ds d w d' w'"
| release: "demand_release rs ds k d w = (err, d', w') \<Longrightarrow> demand_step rs ds d w d' w'"
| rebind: "demand_rebind rs ds k d w = (err, d', w') \<Longrightarrow> demand_step rs ds d w d' w'"
| poll: "poll rs ds k i d w = (d', w') \<Longrightarrow> demand_step rs ds d w d' w'"
| close: "set order = dom (dm_sessions d) \<Longrightarrow> demand_close rs ds order d w = (err, d', w') \<Longrightarrow>
    demand_step rs ds d w d' w'"
| observe: "observe rs obs (dm_table d) w = (b, t', w') \<Longrightarrow> demand_step rs ds d w (d\<lparr>dm_table := t'\<rparr>) w'"
| deliver: "deliver rs k cmd (dm_table d) w = (err, t', w') \<Longrightarrow> demand_step rs ds d w (d\<lparr>dm_table := t'\<rparr>) w'"

inductive demand_run :: "'w route_seams \<Rightarrow> 'w demand_seams \<Rightarrow> demand \<Rightarrow> 'w \<Rightarrow> demand \<Rightarrow> 'w \<Rightarrow> bool"
  for rs ds where
  run_refl: "demand_run rs ds d w d w"
| run_step: "demand_run rs ds d w d1 w1 \<Longrightarrow> demand_step rs ds d1 w1 d2 w2 \<Longrightarrow> demand_run rs ds d w d2 w2"

lemma demand_close_effect:
  assumes "demand_ok d" "set order = dom (dm_sessions d)" "demand_close rs ds order d w = (err, d', w')"
  shows "demand_ok d' \<and> dm_sessions d' = Map.empty \<and> dm_next d' = dm_next d \<and> dm_closed d'"
proof -
  let ?d = "d\<lparr>dm_closed := True\<rparr>"
  obtain fs where l: "demand_close_loop rs ds order ?d w = (fs, d', w')"
    using assms(3) by (auto simp: demand_close_def split: prod.splits)
  have "demand_ok ?d" using assms(1) held_set_cong [of ?d d] by (simp add: demand_ok_def)
  from demand_close_loop_effect [OF this l] assms(2) show ?thesis
    by (auto simp: restrict_map_def fun_eq_iff domIff)
qed

lemma demand_step_ok: "demand_step rs ds d w d' w' \<Longrightarrow> demand_ok d \<Longrightarrow> demand_ok d' \<and> id_step d d'"
proof (induction rule: demand_step.induct)
  case (close order d w err d' w')
  from demand_close_effect [OF close.prems close.hyps] show ?case
    by (auto intro: id_step_remove [of _ _ "{}"])
next
  case (observe obs d w b t' w')
  then show ?case
    using bt.upd_single [of "dm_table d" "held_set d" rs obs w] table_live_observe [of "dm_table d" rs obs w]
      held_set_cong [of "d\<lparr>dm_table := t'\<rparr>" d] by (simp add: demand_ok_def)
next
  case (deliver k cmd d w err t' w')
  then show ?case
    using bd.upd_single [of "dm_table d" "held_set d" rs "(k, cmd)" w]
      deliver_live_demand [of "dm_table d" rs k cmd w]
      held_set_cong [of "d\<lparr>dm_table := t'\<rparr>" d] by (simp add: demand_ok_def)
next
  case (env d w w')
  then show ?case by simp
next
  case (acquire k d w err d' w')
  from demand_acquire_ok [OF acquire.prems acquire.hyps] show ?case .
next
  case (release k d w err d' w')
  from demand_release_ok [OF release.prems release.hyps] show ?case .
next
  case (rebind k d w err d' w')
  from demand_rebind_ok [OF rebind.prems rebind.hyps] show ?case .
next
  case (poll k i d w d' w')
  from poll_ok [OF poll.prems poll.hyps] show ?case .
qed

lemma demand_run_ok:
  "demand_run rs ds d w d' w' \<Longrightarrow> demand_ok d \<Longrightarrow> demand_ok d' \<and> (retired k i d \<longrightarrow> retired k i d')"
  by (induction rule: demand_run.induct) (auto dest: demand_step_ok intro: retired_id_step)

lemma new_demand_ok:
  assumes "new_bindings r b = Inr t" "new_demand (Some t) tips hints clock lim = Inr d"
  shows "demand_ok d"
  using assms
  by (auto simp: new_demand_def new_bindings_def demand_ok_def table_live_def bindings_ok_def
      single_holder_def held_set_def demand_of_def split: if_splits option.splits)

lemma no_demand_no_route:
  assumes "bindings_ok t" "demand_of k t = 0"
  shows "bt_sessions t k = None"
  using assms demand_of_ge [of t k] by (cases "bt_sessions t k") force+

section \<open>A rebind reads ownership afresh\<close>

text \<open>The plane's other seams, over a world that carries the table's call log beside it.\<close>

definition lift_watcher :: "'w watcher \<Rightarrow> ('w \<times> 'l) watcher" where
  "lift_watcher v = \<lparr>watch_start = \<lambda>k (w, l). (watch_start v k w, l),
     watch_served = \<lambda>k (w, l). (watch_served v k w, l), watch_end = \<lambda>k (w, l). (watch_end v k w, l)\<rparr>"

definition lift_demand :: "'w demand_seams \<Rightarrow> ('w \<times> 'l) demand_seams" where
  "lift_demand ds =
     \<lparr>read_journal = \<lambda>r (w, l). (fst (read_journal ds r w), snd (read_journal ds r w), l),
      hint_validate = hint_validate ds,
      hint_publish = \<lambda>k n (w, l). (fst (hint_publish ds k n w), snd (hint_publish ds k n w), l),
      after_func = \<lambda>i k n (w, l). (fst (after_func ds i k n w), snd (after_func ds i k n w), l),
      stop_timer = \<lambda>h (w, l). (fst (stop_timer ds h w), snd (stop_timer ds h w), l),
      watcher_of = lift_watcher (watcher_of ds),
      ctx_err = \<lambda>(w, l). ctx_err ds w\<rparr>"

lemma lift_hint_log: "snd (hint_locked (lift_demand ds) k s) = snd s"
  by (auto simp: hint_locked_def lift_demand_def split_beta split: prod.splits sum.splits option.splits)

lemma lift_reschedule_log:
  "reschedule_locked (lift_demand ds) k e d s = (d', s') \<Longrightarrow> snd s' = snd s \<and> dm_table d' = dm_table d"
  by (auto simp: reschedule_locked_def cancel_poll_def schedule_locked_def lift_demand_def Let_def split_beta
      split: prod.splits option.splits)

lemma serve_fresh_log:
  assumes "bindings_ok t" "binding_of k t = None" "\<not> ds_held e"
    "serve_locked (logged_routes rs) (lift_demand ds) k e t s = (e', t', s')" "binding_of k t' = Some b"
  shows "snd s' = snd s @ [CallOwner k, CallBind (mk_bind_request (sha256_hex rs) b) True]"
  using assms(1)
proof (cases rule: acquire_cases [where sm = "logged_routes rs" and k = k and w = s])
  case (bound c w1)
  then have "snd w1 = snd s @ [CallOwner k, CallBind (mk_bind_request (sha256_hex rs) c) True]"
    using bind_locked_logged_ok [of rs k "fst s" "snd s" c "fst w1" "snd w1"] by simp
  moreover have "s' = w1" "t' = t\<lparr>bt_sessions := (bt_sessions t)(k \<mapsto>
      \<lparr>rt_demand = demand_of k t + 1, rt_binding = Some c\<rparr>)\<rparr>"
    using assms(3,4) bound by (simp_all add: serve_locked_def demand_bind_locked_def)
  ultimately show ?thesis using assms(5) by (simp add: binding_of_def)
qed (use assms(2-5) in \<open>auto simp: serve_locked_def demand_bind_locked_def binding_of_def\<close>)

lemma release_single_gone:
  assumes "table_live t" "demand_of k t = 1" "release rs k t w = (er, t1, w1)"
  shows "bindings_ok t1 \<and> binding_of k t1 = None"
proof -
  have "bindings_ok t1" using assms release_ok [of t rs k w] by (simp add: table_live_def)
  moreover have "demand_of k t1 = 0" using assms release_demand [of t k rs k w] by simp
  ultimately show ?thesis using no_demand_no_route [of t1 k] by (simp add: binding_of_def)
qed

lemma rebind_log:
  assumes "demand_ok d" "ctx_err ds w = None" "\<not> dm_closed d" "dm_sessions d k = Some e"
    and run: "demand_rebind (logged_routes rs) (lift_demand ds) k d (w, l) = (err, d', s')"
    and b: "binding_of k (dm_table d') = Some b"
  shows "\<exists>pre. snd s' = l @ pre @ [CallOwner k, CallBind (mk_bind_request (sha256_hex rs) b) True]"
proof -
  let ?rs = "logged_routes rs" and ?ds = "lift_demand ds"
  have live: "table_live (dm_table d)" and ctx: "ctx_err ?ds (w, l) = None"
    using assms(1,2) by (simp_all add: demand_ok_def lift_demand_def)
  have dem: "demand_of k (dm_table d) = (if ds_held e then 1 else 0)"
    using assms(1,4) by (auto simp: demand_ok_def single_holder_def held_set_def)
  have fin: "snd s' = snd s1 @ [CallOwner k, CallBind (mk_bind_request (sha256_hex rs) b) True]"
    if "bindings_ok t1" "binding_of k t1 = None" "\<not> ds_held e1"
      "serve_locked ?rs ?ds k e1 t1 s1 = (e2, t2, s2)"
      "reschedule_locked ?ds k e2 (d\<lparr>dm_table := t2\<rparr>) s2 = (d', s')" for t1 e1 s1 e2 t2 s2
  proof -
    have "snd s' = snd s2" "dm_table d' = t2" using lift_reschedule_log [OF that(5)] by simp_all
    with serve_fresh_log [OF that(1-4)] b show ?thesis by simp
  qed
  show ?thesis
  proof (cases "ds_held e")
    case False
    then have "binding_of k (dm_table d) = None" "bindings_ok (dm_table d)"
      using dem live no_demand_no_route [of "dm_table d" k] by (simp_all add: table_live_def binding_of_def)
    moreover obtain e2 t2 s2 where s: "serve_locked ?rs ?ds k e (dm_table d) (w, l) = (e2, t2, s2)"
      by (metis prod_cases3)
    moreover have "reschedule_locked ?ds k e2 (d\<lparr>dm_table := t2\<rparr>) s2 = (d', s')"
      using run False ctx assms(3,4) s by (simp add: demand_rebind_def split_beta prod_eq_iff)
    ultimately show ?thesis using fin [of "dm_table d" e "(w, l)" e2 t2 s2] False by simp
  next
    case True
    obtain er t1 s1 where r: "release ?rs k (dm_table d) (w, l) = (er, t1, s1)" by (metis prod_cases3)
    have gone: "bindings_ok t1 \<and> binding_of k t1 = None"
      using release_single_gone [OF live _ r] dem True by simp
    have "\<exists>pre. snd s1 = l @ pre"
      by (rule release_cases [where t = "dm_table d" and k = k and sm = ?rs and w = "(w, l)"])
        (use live r logged_unbind [of rs _ w l] in \<open>auto simp: table_live_def\<close>)
    then obtain pre where pre: "snd s1 = l @ pre" ..
    let ?e = "e\<lparr>ds_held := False\<rparr>"
    show ?thesis
    proof (cases "ctx_err ?ds s1")
      case None
      obtain e2 t2 s2 where s: "serve_locked ?rs ?ds k ?e t1 s1 = (e2, t2, s2)" by (metis prod_cases3)
      have "reschedule_locked ?ds k e2 (d\<lparr>dm_table := t2\<rparr>) s2 = (d', s')"
        using run True None ctx assms(3,4) r s
        by (simp add: demand_rebind_def Let_def split_beta prod_eq_iff)
      with gone s pre fin [of t1 ?e s1 e2 t2 s2] show ?thesis by simp
    next
      case (Some c)
      then have "reschedule_locked ?ds k ?e (d\<lparr>dm_table := t1\<rparr>) s1 = (d', s')"
        using run True ctx assms(3,4) r by (simp add: demand_rebind_def Let_def split_beta prod_eq_iff)
      from lift_reschedule_log [OF this] gone b show ?thesis by simp
    qed
  qed
qed

section \<open>Properties\<close>

text \<open>
  C5. In every run of the plane from its construction (any interleaving of acquisitions,
  releases, rebinds, polls that fire early or late, other callers' observations and deliveries,
  and shutdown) a session nobody watches has no route in the table, and a watched session has a
  subscriber, a scheduled poll, and exactly one reference in the table when its entry holds the
  route and none otherwise. However many subscribers come and go, the plane is one holder.
\<close>

theorem watched_session_holds_one_route:
  assumes "new_bindings r b = Inr t0" "new_demand (Some t0) tips hints clock lim = Inr d0"
    "demand_run rs ds d0 w0 d w"
  shows "case dm_sessions d k of
      None \<Rightarrow> bt_sessions (dm_table d) k = None
    | Some e \<Rightarrow> 1 \<le> ds_subscribers e \<and> ds_stop e \<noteq> None \<and>
        demand_of k (dm_table d) = (if ds_held e then 1 else 0)"
proof -
  have ok: "demand_ok d" using demand_run_ok [OF assms(3) new_demand_ok [OF assms(1,2)]] by blast
  then have dem: "demand_of k (dm_table d) = (if k \<in> held_set d then 1 else 0)"
    by (simp add: demand_ok_def single_holder_def)
  show ?thesis
  proof (cases "dm_sessions d k")
    case None
    with dem ok no_demand_no_route [of "dm_table d" k] show ?thesis
      by (simp add: held_set_def demand_ok_def table_live_def)
  next
    case (Some e)
    with dem ok show ?thesis by (auto simp: held_set_def demand_ok_def entry_ok_def)
  qed
qed

definition sample_demand_seams :: "unit demand_seams" where
  "sample_demand_seams =
     \<lparr>read_journal = \<lambda>r w. (Inr \<lparr>jp_events = [], jp_covered = 7, jp_tip = 7\<rparr>, w),
      hint_validate = \<lambda>k n. None, hint_publish = \<lambda>k n w. (None, w), after_func = \<lambda>i k n w. (n, w),
      stop_timer = \<lambda>h w. (True, w), watcher_of = discard_watcher, ctx_err = \<lambda>w. None\<rparr>"

definition sample_plane :: "nat \<Rightarrow> demand_session option \<Rightarrow> bindings \<Rightarrow> demand" where
  "sample_plane n e t = \<lparr>dm_closed = False, dm_sessions = Map.empty(sample_key := e), dm_table = t,
     dm_next = n, dm_limits = default_demand_limits\<rparr>"

definition sample_entry :: "nat \<Rightarrow> demand_session" where
  "sample_entry n = \<lparr>ds_subscribers = 1, ds_held = True, ds_stop = Some n, ds_id = n\<rparr>"

definition sample_table :: bindings where
  "sample_table = with_route \<lparr>bt_closed = False, bt_sessions = Map.empty\<rparr> sample_key 1 sample_binding"

lemma sample_bind_quiet: "bind_locked sample_seams sample_key () = (Inr sample_binding, ())"
  by (simp add: bind_locked_def sample_seams_def sample_key_def sample_binding_def sample_obs_def Let_def)

lemma sample_new_plane:
  "new_demand (Some \<lparr>bt_closed = False, bt_sessions = Map.empty\<rparr>) True True True default_demand_limits =
    Inr (sample_plane 0 None \<lparr>bt_closed = False, bt_sessions = Map.empty\<rparr>)"
  by (simp add: new_demand_def demand_limits_validate_def default_demand_limits_def sample_plane_def fun_eq_iff)

lemma sample_plane_acquire:
  "demand_acquire sample_seams sample_demand_seams sample_key
     (sample_plane 0 None \<lparr>bt_closed = False, bt_sessions = Map.empty\<rparr>) () =
    (None, sample_plane 1 (Some (sample_entry 0)) sample_table, ())"
  using acquire_first [of "\<lparr>bt_closed = False, bt_sessions = Map.empty\<rparr>" sample_key sample_seams "()"]
    sample_bind_quiet
  by (simp add: demand_acquire_def sample_plane_def serve_locked_def demand_bind_locked_def
      schedule_locked_def sample_demand_seams_def discard_watcher_def sample_entry_def sample_table_def
      Let_def fun_eq_iff)

theorem watched_session_holds_one_route_witness:
  "\<exists>d. demand_run sample_seams sample_demand_seams
      (sample_plane 0 None \<lparr>bt_closed = False, bt_sessions = Map.empty\<rparr>) () d () \<and>
    dm_sessions d sample_key = Some (sample_entry 0) \<and> demand_of sample_key (dm_table d) = 1"
proof -
  let ?t = "\<lparr>bt_closed = False, bt_sessions = Map.empty\<rparr> :: bindings"
  have r: "demand_run sample_seams sample_demand_seams (sample_plane 0 None ?t) ()
      (sample_plane 1 (Some (sample_entry 0)) sample_table) ()"
    by (rule demand_run.run_step [OF demand_run.run_refl demand_step.acquire [OF sample_plane_acquire]])
  have "new_bindings True True = Inr ?t" by (simp add: new_bindings_def)
  from watched_session_holds_one_route [OF this sample_new_plane r, of sample_key] r show ?thesis
    by (intro exI [of _ "sample_plane 1 (Some (sample_entry 0)) sample_table"])
      (simp add: sample_plane_def sample_entry_def)
qed

lemma sample_plane_ok: "demand_ok (sample_plane 1 (Some (sample_entry 0)) sample_table)"
proof -
  let ?t = "\<lparr>bt_closed = False, bt_sessions = Map.empty\<rparr> :: bindings"
  have "new_bindings True True = Inr ?t" by (simp add: new_bindings_def)
  from demand_acquire_ok [OF new_demand_ok [OF this sample_new_plane] sample_plane_acquire]
  show ?thesis by simp
qed

text \<open>
  C36. A rebind never trusts a route it held before. In a plane satisfying the invariant, if a
  rebind ends with the session routed, the last two calls it made were a registry read of the
  session and a successful bind of exactly the route the table now holds: the answer to the
  rebind is ownership read after the rebind began, also when the old route was given back
  without an error.
\<close>

theorem rebind_reads_ownership_afresh:
  assumes "demand_ok d" "ctx_err ds w = None" "\<not> dm_closed d" "dm_sessions d k = Some e"
    "demand_rebind (logged_routes rs) (lift_demand ds) k d (w, l) = (err, d', (w', l'))"
    "binding_of k (dm_table d') = Some b"
  shows "\<exists>pre. l' = l @ pre @ [CallOwner k, CallBind (mk_bind_request (sha256_hex rs) b) True]"
  using rebind_log [OF assms] by simp

lemma sample_release:
  "release (logged_routes sample_seams) sample_key sample_table ((), l) =
    (None, \<lparr>bt_closed = False, bt_sessions = Map.empty\<rparr>,
      ((), l @ [CallUnbind (mk_unbind_request (\<lambda>b. b) sample_binding)]))"
  by (simp add: release_def sample_table_def with_route_def logged_routes_def log_call_def sample_seams_def Let_def
      fun_eq_iff)

lemma sample_rebind:
  "demand_rebind (logged_routes sample_seams) (lift_demand sample_demand_seams) sample_key
     (sample_plane 1 (Some (sample_entry 0)) sample_table) ((), []) =
    (None, sample_plane 2 (Some (sample_entry 1)) sample_table,
      ((), [CallUnbind (mk_unbind_request (\<lambda>b. b) sample_binding), CallOwner sample_key,
            CallBind (mk_bind_request (\<lambda>b. b) sample_binding) True]))"
  using sample_release [of "[]"] sample_bind
    acquire_first [of "\<lparr>bt_closed = False, bt_sessions = Map.empty\<rparr>" sample_key "logged_routes sample_seams"
      "((), [CallUnbind (mk_unbind_request (\<lambda>b. b) sample_binding)])"]
  by (simp add: demand_rebind_def sample_plane_def serve_locked_def demand_bind_locked_def
      reschedule_locked_def cancel_poll_def schedule_locked_def lift_demand_def sample_demand_seams_def
      sample_entry_def Let_def sample_table_def fun_eq_iff numeral_2_eq_2)

theorem rebind_reads_ownership_afresh_witness:
  "\<exists>d' l' pre. demand_rebind (logged_routes sample_seams) (lift_demand sample_demand_seams) sample_key
       (sample_plane 1 (Some (sample_entry 0)) sample_table) ((), []) = (None, d', ((), l')) \<and>
     binding_of sample_key (dm_table d') = Some sample_binding \<and>
     l' = pre @ [CallOwner sample_key, CallBind (mk_bind_request (sha256_hex sample_seams) sample_binding) True]"
proof -
  let ?d = "sample_plane 1 (Some (sample_entry 0)) sample_table"
  have b: "binding_of sample_key (dm_table (sample_plane 2 (Some (sample_entry 1)) sample_table)) =
      Some sample_binding"
    by (simp add: sample_plane_def sample_table_def with_route_def binding_of_def)
  have "ctx_err sample_demand_seams () = None" "\<not> dm_closed ?d"
      "dm_sessions ?d sample_key = Some (sample_entry 0)"
    by (simp_all add: sample_demand_seams_def sample_plane_def)
  from rebind_reads_ownership_afresh [OF sample_plane_ok this sample_rebind b] b show ?thesis
    unfolding sample_rebind by auto
qed

text \<open>
  C37. A poll scheduled for an entry that a rebind has replaced does nothing, whenever it fires:
  after the rebind, however the plane runs on, the old entry's poll returns the plane and the
  world unchanged, so a timer that lost its race with the rebind cannot touch the new route.
\<close>

theorem replaced_poll_is_inert:
  assumes "demand_ok d" "ctx_err ds w = None" "\<not> dm_closed d" "dm_sessions d k = Some e"
    "demand_rebind rs ds k d w = (err, d1, w1)" "demand_run rs ds d1 w1 d2 w2"
  shows "poll rs ds k (ds_id e) d2 w3 = (d2, w3)"
proof -
  have lt: "ds_id e < dm_next d" using assms(1,4) by (auto simp: demand_ok_def entry_ok_def)
  have ok1: "demand_ok d1" "id_step d d1" using demand_rebind_ok [OF assms(1,5)] by simp_all
  have "\<exists>e1. dm_sessions d1 k = Some e1 \<and> ds_id e1 = dm_next d"
    using assms(2-5)
    by (auto simp: demand_rebind_def Let_def split: if_splits prod.splits elim!: reschedule_effect)
  with lt ok1(2) have "retired k (ds_id e) d1" by (auto simp: retired_def id_step_def)
  with demand_run_ok [OF assms(6) ok1(1)] have "retired k (ds_id e) d2" by blast
  then show ?thesis by (auto simp: poll_def retired_def split: option.splits)
qed

theorem replaced_poll_is_inert_witness:
  "\<exists>d1 w1. demand_rebind (logged_routes sample_seams) (lift_demand sample_demand_seams) sample_key
       (sample_plane 1 (Some (sample_entry 0)) sample_table) ((), []) = (None, d1, w1) \<and>
     poll (logged_routes sample_seams) (lift_demand sample_demand_seams) sample_key 0 d1 ((), []) = (d1, ((), []))"
proof -
  let ?d = "sample_plane 1 (Some (sample_entry 0)) sample_table"
  have "ctx_err (lift_demand sample_demand_seams) ((), []) = None" "\<not> dm_closed ?d"
      "dm_sessions ?d sample_key = Some (sample_entry 0)"
    by (simp_all add: sample_demand_seams_def lift_demand_def sample_plane_def)
  from replaced_poll_is_inert [OF sample_plane_ok this sample_rebind demand_run.run_refl, of "((), [])"]
  show ?thesis unfolding sample_rebind by (simp add: sample_entry_def)
qed

end
