(* ===== verification/Relay.thy ===== *)
theory Relay
  imports Demand "HOL-Library.Sublist"
begin

text \<open>
  The bounded delivery path of \<open>internal/routing/repair.go\<close>: a route queue per session, an
  outbound queue per subscriber, and the repair each overflow owes. The relay's mutex covers
  every locked section, which is therefore one function of the relay and the world. The tail
  stop, the tip reads, the rebind and the resume run with the mutex released: around each of
  them stands a window \<open>env i\<close>, an arbitrary function of the relay and the world for what other
  goroutines do meanwhile. A host binding is a heap object whose identity the code compares
  after such a window; here it carries a fresh number. Links are visited in ascending order, as
  \<open>sortedBindings\<close> visits them.
\<close>

section \<open>Seams and state\<close>

type_synonym link_id = string

record session_reset =
  reset_tenant :: tenant_id
  reset_session :: session_id
  reset_last :: u64
  reset_tip :: u64

record 'w relay_seams =
  rl_core :: core_codec
  rl_read :: "journal_request \<Rightarrow> 'w \<Rightarrow> (rerr + journal_page) \<times> 'w"
  rl_rebind :: "session_key \<Rightarrow> 'w \<Rightarrow> rerr option \<times> 'w"
  tail_stop :: "session_key \<Rightarrow> 'w \<Rightarrow> rerr option \<times> 'w"
  tail_resume :: "session_key \<Rightarrow> u64 \<Rightarrow> 'w \<Rightarrow> rerr option \<times> 'w"
  publish :: "link_id \<Rightarrow> session_key \<Rightarrow> bytes \<Rightarrow> 'w \<Rightarrow> rerr option \<times> 'w"
  close_link :: "link_id \<Rightarrow> string \<Rightarrow> 'w \<Rightarrow> rerr option \<times> 'w"
  marshal_reset :: "session_reset \<Rightarrow> rerr + bytes"
  max_gap_probe :: u64

record repair_limits =
  host_queue_cap :: int
  delivery_queue_cap :: int

definition default_repair_limits :: repair_limits where
  "default_repair_limits = \<lparr>host_queue_cap = 1024, delivery_queue_cap = 512\<rparr>"

definition repair_limits_validate :: "repair_limits \<Rightarrow> rerr option" where
  "repair_limits_validate lim =
     (if host_queue_cap lim < 1 then Some (Sentinel RErrInvalidConfig)
      else if delivery_queue_cap lim < 1 then Some (Sentinel RErrInvalidConfig)
      else None)"

record tail_frame =
  fr_encoded :: bytes
  fr_committed :: u64
  fr_coalesce :: string

record delivery_binding =
  db_link :: link_id
  db_queue :: queue
  db_last :: u64
  db_forwarded :: u64

record host_binding =
  hb_id :: nat
  hb_queue :: queue
  hb_stopped :: bool
  hb_deliveries :: "link_id \<rightharpoonup> delivery_binding"
  hb_tail_seq :: u64
  hb_tail_known :: bool

record relay =
  rl_closed :: bool
  rl_hosts :: "session_key \<rightharpoonup> host_binding"
  rl_foreign :: u64
  rl_limits :: repair_limits
  rl_next :: nat

type_synonym 'w window = "nat \<Rightarrow> relay \<Rightarrow> 'w \<Rightarrow> relay \<times> 'w"

definition new_relay :: "bool \<Rightarrow> bool \<Rightarrow> bool \<Rightarrow> bool \<Rightarrow> repair_limits \<Rightarrow> rerr + relay" where
  "new_relay tips rebinder tail publisher lim =
     (if \<not> tips then Inl (Sentinel RErrInvalidConfig)
      else if \<not> rebinder then Inl (Sentinel RErrInvalidConfig)
      else if \<not> tail then Inl (Sentinel RErrInvalidConfig)
      else if \<not> publisher then Inl (Sentinel RErrInvalidConfig)
      else case repair_limits_validate lim of
             Some err \<Rightarrow> Inl err
           | None \<Rightarrow> Inr \<lparr>rl_closed = False, rl_hosts = Map.empty, rl_foreign = 0, rl_limits = lim,
                          rl_next = 0\<rparr>)"

section \<open>Opening, subscribing and closing\<close>

definition relay_open :: "session_key \<Rightarrow> relay \<Rightarrow> rerr option \<times> relay" where
  "relay_open k r =
     (if rl_closed r then (Some (Sentinel ErrRelayClosed), r)
      else case rl_hosts r k of
             Some h \<Rightarrow> (None, r)
           | None \<Rightarrow>
               (case new_queue (host_queue_cap (rl_limits r)) of
                  Inl err \<Rightarrow> (Some (Sentinel (DeliveryErr err)), r)
                | Inr q \<Rightarrow>
                    (None, r\<lparr>rl_hosts := (rl_hosts r)(k \<mapsto>
                       \<lparr>hb_id = rl_next r, hb_queue = q, hb_stopped = False, hb_deliveries = Map.empty,
                        hb_tail_seq = 0, hb_tail_known = False\<rparr>), rl_next := rl_next r + 1\<rparr>)))"

definition subscribe :: "session_key \<Rightarrow> link_id \<Rightarrow> relay \<Rightarrow> rerr option \<times> relay" where
  "subscribe k link r =
     (if rl_closed r then (Some (Sentinel ErrRelayClosed), r)
      else case rl_hosts r k of
             None \<Rightarrow> (Some (Sentinel ErrNoHostBinding), r)
           | Some h \<Rightarrow>
               (case hb_deliveries h link of
                  Some b \<Rightarrow> (None, r)
                | None \<Rightarrow>
                    (case new_queue (delivery_queue_cap (rl_limits r)) of
                       Inl err \<Rightarrow> (Some (Sentinel (DeliveryErr err)), r)
                     | Inr q \<Rightarrow>
                         (None, r\<lparr>rl_hosts := (rl_hosts r)(k \<mapsto> h\<lparr>hb_deliveries := (hb_deliveries h)(link \<mapsto>
                            \<lparr>db_link = link, db_queue = q, db_last = 0, db_forwarded = 0\<rparr>)\<rparr>)\<rparr>))))"

definition unsubscribe :: "session_key \<Rightarrow> link_id \<Rightarrow> relay \<Rightarrow> relay" where
  \<comment> \<open>The removed binding's queue is closed with it; nothing else refers to it.\<close>
  "unsubscribe k link r =
     (case rl_hosts r k of
        None \<Rightarrow> r
      | Some h \<Rightarrow>
          (case hb_deliveries h link of
             None \<Rightarrow> r
           | Some b \<Rightarrow>
               r\<lparr>rl_hosts := (rl_hosts r)(k \<mapsto> h\<lparr>hb_deliveries := (hb_deliveries h)(link := None)\<rparr>)\<rparr>))"

definition relay_close :: "relay \<Rightarrow> relay" where
  "relay_close r = r\<lparr>rl_closed := True, rl_hosts := Map.empty\<rparr>"

definition forget :: "session_key \<Rightarrow> relay \<Rightarrow> relay" where
  "forget k r =
     (case rl_hosts r k of
        None \<Rightarrow> r
      | Some h \<Rightarrow> r\<lparr>rl_hosts := (rl_hosts r)(k := None)\<rparr>)"

definition foreign_records :: "relay \<Rightarrow> u64" where
  "foreign_records r = rl_foreign r"

definition last_contiguous :: "session_key \<Rightarrow> link_id \<Rightarrow> relay \<Rightarrow> u64 option" where
  "last_contiguous k link r =
     (case rl_hosts r k of
        None \<Rightarrow> None
      | Some h \<Rightarrow> map_option db_last (hb_deliveries h link))"

definition relay_bindings :: "session_key \<Rightarrow> relay \<Rightarrow> nat" where
  "relay_bindings k r =
     (case rl_hosts r k of None \<Rightarrow> 0 | Some h \<Rightarrow> card (dom (hb_deliveries h)))"

definition queued :: "session_key \<Rightarrow> link_id \<Rightarrow> relay \<Rightarrow> int" where
  "queued k link r =
     (case rl_hosts r k of
        None \<Rightarrow> 0
      | Some h \<Rightarrow> (case hb_deliveries h link of None \<Rightarrow> 0 | Some b \<Rightarrow> qlen (db_queue b)))"

definition sorted_bindings :: "host_binding \<Rightarrow> link_id list" where
  "sorted_bindings h = sorted_list_of_set (dom (hb_deliveries h))"

section \<open>Classifying a frame\<close>

definition owns :: "session_key \<Rightarrow> tenant_id \<Rightarrow> session_id \<Rightarrow> rerr option" where
  \<comment> \<open>\<open>ErrForeignRecord\<close> wraps the delivery package's \<open>ErrMalformed\<close>.\<close>
  "owns k tenant session =
     (if tenant = sk_tenant k \<and> session = sk_session k then None
      else Some (Wrapped [Sentinel ErrForeignRecord, Sentinel (DeliveryErr ErrMalformed)]))"

definition classify :: "core_codec \<Rightarrow> session_key \<Rightarrow> tail_frame \<Rightarrow> rerr + qrec" where
  "classify core k fr =
     (case record_type_of core (fr_encoded fr) of
        Inl err \<Rightarrow> Inl (Wrapped [Sentinel (DeliveryErr ErrMalformed), map_go_err DeliveryErr err])
      | Inr RTEnduring \<Rightarrow>
          (case parse_enduring core (fr_encoded fr) (fr_committed fr) of
             Inl err \<Rightarrow> Inl (map_go_err DeliveryErr err)
           | Inr parsed \<Rightarrow>
               (case owns k (end_tenant parsed) (end_session parsed) of
                  Some err \<Rightarrow> Inl err
                | None \<Rightarrow> Inr (enduring_record parsed)))
      | Inr RTEphemeral \<Rightarrow>
          (case unmarshal_ephemeral core (fr_encoded fr) of
             Inl err \<Rightarrow> Inl (Wrapped [Sentinel (DeliveryErr ErrMalformed), map_go_err DeliveryErr err])
           | Inr pub \<Rightarrow>
               (case owns k (eph_tenant pub) (eph_session pub) of
                  Some err \<Rightarrow> Inl err
                | None \<Rightarrow> Inr \<lparr>rec_class = ClassEphemeral, rec_encoded = fr_encoded fr, rec_seq = 0,
                               coalesce_key = fr_coalesce fr\<rparr>))
      | Inr (RTOther ty) \<Rightarrow> Inl (Wrapped [Sentinel ErrUnexpectedControl, Opaque ty]))"

section \<open>Resets and closed links\<close>

definition close_binding :: "'w relay_seams \<Rightarrow> link_id \<Rightarrow> string \<Rightarrow> host_binding \<Rightarrow> 'w \<Rightarrow> host_binding \<times> 'w" where
  "close_binding sm link reason h w =
     (h\<lparr>hb_deliveries := (hb_deliveries h)(link := None)\<rparr>, snd (close_link sm link reason w))"

definition reset_for :: "session_key \<Rightarrow> delivery_binding \<Rightarrow> u64 \<Rightarrow> session_reset" where
  "reset_for k b tip =
     \<lparr>reset_tenant = sk_tenant k, reset_session = sk_session k, reset_last = db_last b, reset_tip = tip\<rparr>"

definition control_record :: "bytes \<Rightarrow> qrec" where
  "control_record enc = \<lparr>rec_class = ClassControl, rec_encoded = enc, rec_seq = 0, coalesce_key = []\<rparr>"

definition reset_binding ::
  "'w relay_seams \<Rightarrow> session_key \<Rightarrow> u64 \<Rightarrow> link_id \<Rightarrow> host_binding \<Rightarrow> 'w \<Rightarrow> rerr option \<times> host_binding \<times> 'w" where
  "reset_binding sm k tip link h w =
     (case hb_deliveries h link of
        None \<Rightarrow> (None, h, w)
      | Some b \<Rightarrow>
          (case marshal_reset sm (reset_for k b tip) of
             Inl err \<Rightarrow> (Some err, close_binding sm link ''repair control is incoherent'' h w)
           | Inr enc \<Rightarrow>
               (case qrepair (control_record enc) (db_queue b) of
                  (Some err, q) \<Rightarrow>
                    (Some (Sentinel (DeliveryErr err)),
                     close_binding sm link ''repair control could not be queued'' h w)
                | (None, q) \<Rightarrow>
                    (None, h\<lparr>hb_deliveries := (hb_deliveries h)(link \<mapsto> b\<lparr>db_queue := q\<rparr>)\<rparr>, w))))"

fun reset_all ::
  "'w relay_seams \<Rightarrow> session_key \<Rightarrow> u64 \<Rightarrow> link_id list \<Rightarrow> host_binding \<Rightarrow> 'w \<Rightarrow>
   rerr option list \<times> host_binding \<times> 'w" where
  "reset_all sm k tip [] h w = ([], h, w)"
| "reset_all sm k tip (link # links) h w =
     (let (err, h1, w1) = reset_binding sm k tip link h w;
          (errs, h2, w2) = reset_all sm k tip links h1 w1
      in (if err \<noteq> None then err # errs else errs, h2, w2))"

fun close_all ::
  "'w relay_seams \<Rightarrow> string \<Rightarrow> link_id list \<Rightarrow> host_binding \<Rightarrow> 'w \<Rightarrow> host_binding \<times> 'w" where
  "close_all sm reason [] h w = (h, w)"
| "close_all sm reason (link # links) h w =
     (let (h1, w1) = close_binding sm link reason h w
      in close_all sm reason links h1 w1)"

definition read_tip :: "'w relay_seams \<Rightarrow> session_key \<Rightarrow> 'w \<Rightarrow> (rerr + u64) \<times> 'w" where
  "read_tip sm k w =
     (case rl_read sm (tip_request k) w of
        (Inl err, w1) \<Rightarrow> (Inl err, w1)
      | (Inr page, w1) \<Rightarrow> (Inr (jp_tip page), w1))"

definition anchor_locked :: "u64 \<Rightarrow> host_binding \<Rightarrow> host_binding" where
  "anchor_locked tip h = h\<lparr>hb_tail_seq := tip, hb_tail_known := True\<rparr>"

section \<open>The pump\<close>

definition fan_out ::
  "'w relay_seams \<Rightarrow> session_key \<Rightarrow> qrec \<Rightarrow> link_id \<Rightarrow> host_binding \<Rightarrow> 'w \<Rightarrow> rerr option \<times> host_binding \<times> 'w" where
  "fan_out sm k rec link h w =
     (case hb_deliveries h link of
        None \<Rightarrow> (None, h, w)
      | Some b \<Rightarrow>
          (case enqueue rec (db_queue b) of
             (None, q) \<Rightarrow> (None, h\<lparr>hb_deliveries := (hb_deliveries h)(link \<mapsto> b\<lparr>db_queue := q\<rparr>)\<rparr>, w)
           | (Some ErrDropped, q) \<Rightarrow>
               (None, h\<lparr>hb_deliveries := (hb_deliveries h)(link \<mapsto> b\<lparr>db_queue := q\<rparr>)\<rparr>, w)
           | (Some ErrOverflow, q) \<Rightarrow>
               (case read_tip sm k w of
                  (Inl err, w1) \<Rightarrow> (Some err, close_binding sm link ''repair tip unavailable'' h w1)
                | (Inr tip, w1) \<Rightarrow> reset_binding sm k tip link h w1)
           | (Some err, q) \<Rightarrow> (Some (Sentinel (DeliveryErr err)), h, w)))"

fun fan_all ::
  "'w relay_seams \<Rightarrow> session_key \<Rightarrow> qrec \<Rightarrow> link_id list \<Rightarrow> host_binding \<Rightarrow> 'w \<Rightarrow>
   rerr option list \<times> host_binding \<times> 'w" where
  "fan_all sm k rec [] h w = ([], h, w)"
| "fan_all sm k rec (link # links) h w =
     (let (err, h1, w1) = fan_out sm k rec link h w;
          (errs, h2, w2) = fan_all sm k rec links h1 w1
      in (if err \<noteq> None then err # errs else errs, h2, w2))"

definition advance :: "qrec \<Rightarrow> delivery_binding \<Rightarrow> delivery_binding" where
  "advance rec b =
     (if rec_class rec \<noteq> ClassEnduring then b
      else
        let b1 = (if db_forwarded b = 0 \<or> rec_seq rec = db_last b + 1 then b\<lparr>db_last := rec_seq rec\<rparr> else b)
        in b1\<lparr>db_forwarded := db_forwarded b1 + 1\<rparr>)"

text \<open>
  Draining one subscriber's queue: the head is published, and removed only once the transport
  took it. The answer is the binding as the loop leaves it and the publish error that ended it,
  if one did.
\<close>

function drain_loop ::
  "'w relay_seams \<Rightarrow> session_key \<Rightarrow> delivery_binding \<Rightarrow> 'w \<Rightarrow> rerr option \<times> delivery_binding \<times> 'w" where
  "drain_loop sm k b w =
     (case qhead (db_queue b) of
        None \<Rightarrow> (None, b, w)
      | Some rec \<Rightarrow>
          (case publish sm (db_link b) k (rec_encoded rec) w of
             (err, w1) \<Rightarrow>
               if err_is ErrWouldBlock err then (None, b, w1)
               else if err \<noteq> None then (err, b, w1)
               else drain_loop sm k (advance rec (b\<lparr>db_queue := snd (qnext (db_queue b))\<rparr>)) w1))"
  by pat_completeness auto

lemma advance_queue [simp]: "db_queue (advance rec b) = db_queue b" "db_link (advance rec b) = db_link b"
  by (simp_all add: advance_def Let_def)

termination drain_loop
proof (relation "measure (\<lambda>(sm, k, b, w). length (qbuf (db_queue b)))")
  fix sm :: "'w relay_seams" and k and b :: delivery_binding and w w1 :: 'w and rec err
  assume "qhead (db_queue b) = Some rec"
  then have "fst (qnext (db_queue b)) = Some rec" by (simp add: qhead_qnext)
  from qnext_Some [OF this]
  have "length (qbuf (snd (qnext (db_queue b)))) < length (qbuf (db_queue b))" by simp
  then show "((sm, k, advance rec (b\<lparr>db_queue := snd (qnext (db_queue b))\<rparr>), w1), (sm, k, b, w))
      \<in> measure (\<lambda>(sm, k, b, w). length (qbuf (db_queue b)))"
    by simp
qed simp

declare drain_loop.simps [simp del]

definition drain :: "'w relay_seams \<Rightarrow> session_key \<Rightarrow> link_id \<Rightarrow> host_binding \<Rightarrow> 'w \<Rightarrow> rerr option \<times> host_binding \<times> 'w" where
  "drain sm k link h w =
     (case hb_deliveries h link of
        None \<Rightarrow> (None, h, w)
      | Some b \<Rightarrow>
          (case drain_loop sm k b w of
             (None, b1, w1) \<Rightarrow> (None, h\<lparr>hb_deliveries := (hb_deliveries h)(link \<mapsto> b1)\<rparr>, w1)
           | (Some err, b1, w1) \<Rightarrow> (Some err, close_binding sm link ''publish failed'' h w1)))"

fun drain_all ::
  "'w relay_seams \<Rightarrow> session_key \<Rightarrow> link_id list \<Rightarrow> host_binding \<Rightarrow> 'w \<Rightarrow>
   rerr option list \<times> host_binding \<times> 'w" where
  "drain_all sm k [] h w = ([], h, w)"
| "drain_all sm k (link # links) h w =
     (let (err, h1, w1) = drain sm k link h w;
          (errs, h2, w2) = drain_all sm k links h1 w1
      in (if err \<noteq> None then err # errs else errs, h2, w2))"

lemma close_binding_queue [simp]: "hb_queue (fst (close_binding sm link reason h w)) = hb_queue h"
  by (simp add: close_binding_def)

lemma reset_binding_queue [simp]: "hb_queue (fst (snd (reset_binding sm k tip link h w))) = hb_queue h"
  by (auto simp: reset_binding_def close_binding_def split: option.splits sum.splits prod.splits)

lemma fan_out_queue [simp]: "hb_queue (fst (snd (fan_out sm k rec link h w))) = hb_queue h"
  by (simp add: fan_out_def split: option.split sum.split prod.split delivery_error.split)

lemma fan_all_queue [simp]: "hb_queue (fst (snd (fan_all sm k rec links h w))) = hb_queue h"
  by (induction links arbitrary: h w) (simp_all add: Let_def split_beta)

function pump_loop ::
  "'w relay_seams \<Rightarrow> session_key \<Rightarrow> host_binding \<Rightarrow> 'w \<Rightarrow> rerr option list \<times> host_binding \<times> 'w" where
  "pump_loop sm k h w =
     (case qnext (hb_queue h) of
        (None, q) \<Rightarrow> ([], h\<lparr>hb_queue := q\<rparr>, w)
      | (Some rec, q) \<Rightarrow>
          let h1 = h\<lparr>hb_queue := q\<rparr>;
              r = fan_all sm k rec (sorted_bindings h1) h1 w;
              s = pump_loop sm k (fst (snd r)) (snd (snd r))
          in (fst r @ fst s, snd s))"
  by pat_completeness auto

lemma qnext_length: "qnext q = (Some rec, q') \<Longrightarrow> length (qbuf q') < length (qbuf q)"
  using qnext_Some [of q rec] by simp

termination pump_loop
  by (relation "measure (\<lambda>(sm, k, h, w). length (qbuf (hb_queue h)))") (auto simp: split_beta intro!: qnext_length [OF sym])

declare pump_loop.simps [simp del]

definition pump ::
  "'w relay_seams \<Rightarrow> session_key \<Rightarrow> relay \<Rightarrow> 'w \<Rightarrow> rerr option \<times> relay \<times> 'w" where
  "pump sm k r w =
     (if rl_closed r then (Some (Sentinel ErrRelayClosed), r, w)
      else case rl_hosts r k of
             None \<Rightarrow> (Some (Sentinel ErrNoHostBinding), r, w)
           | Some h \<Rightarrow>
               let (errs, h1, w1) = pump_loop sm k h w;
                   (errs', h2, w2) = drain_all sm k (sorted_bindings h1) h1 w1
               in (errors_join (errs @ errs'), r\<lparr>rl_hosts := (rl_hosts r)(k \<mapsto> h2)\<rparr>, w2))"

section \<open>Repair\<close>

text \<open>A call made with the mutex released, with a window before it and one after it.\<close>

definition unlocked :: "'w window \<Rightarrow> nat \<Rightarrow> ('w \<Rightarrow> 'x \<times> 'w) \<Rightarrow> relay \<Rightarrow> 'w \<Rightarrow> 'x \<times> relay \<times> 'w" where
  "unlocked env i f r w =
     (let (r1, w1) = env (2 * i) r w;
          (x, w2) = f w1;
          (r2, w3) = env (2 * i + 1) r1 w2
      in (x, r2, w3))"

definition same_host :: "session_key \<Rightarrow> nat \<Rightarrow> relay \<Rightarrow> bool" where
  "same_host k i r \<longleftrightarrow> (case rl_hosts r k of None \<Rightarrow> False | Some h \<Rightarrow> hb_id h = i)"

text \<open>The locked section of a repair: resets or closes every binding and clears the route queue.\<close>

definition repair_section ::
  "'w relay_seams \<Rightarrow> session_key \<Rightarrow> rerr + u64 \<Rightarrow> host_binding \<Rightarrow> 'w \<Rightarrow>
   rerr option list \<times> u64 \<times> host_binding \<times> 'w" where
  "repair_section sm k tip h w =
     (case tip of
        Inl err \<Rightarrow>
          let (h1, w1) = close_all sm ''repair tip unavailable'' (sorted_bindings h) h w
          in ([Some err], 0, h1\<lparr>hb_queue := qclear (hb_queue h1)\<rparr>, w1)
      | Inr n \<Rightarrow>
          let (errs, h1, w1) = reset_all sm k n (sorted_bindings h) h w;
              h2 = anchor_locked n h1
          in (errs, n, h2\<lparr>hb_queue := qclear (hb_queue h2)\<rparr>, w1))"

definition repair ::
  "'w relay_seams \<Rightarrow> 'w window \<Rightarrow> session_key \<Rightarrow> nat \<Rightarrow> relay \<Rightarrow> 'w \<Rightarrow> rerr option \<times> relay \<times> 'w" where
  "repair sm env k i r w =
     (let (stop_err, r1, w1) = unlocked env 1 (tail_stop sm k) r w;
          (tip, r2, w2) = unlocked env 2 (read_tip sm k) r1 w1
      in if rl_closed r2 \<or> \<not> same_host k i r2 then (errors_join [stop_err], r2, w2)
         else
           (case rl_hosts r2 k of
              None \<Rightarrow> (errors_join [stop_err], r2, w2)
            | Some h \<Rightarrow>
                let (errs, n, h1, w3) = repair_section sm k tip h w2;
                    r3 = r2\<lparr>rl_hosts := (rl_hosts r2)(k \<mapsto> h1)\<rparr>;
                    (bind_err, r4, w4) = unlocked env 3 (rl_rebind sm k) r3 w3;
                    (resume_err, r5, w5) = unlocked env 4 (tail_resume sm k n) r4 w4;
                    r6 = (case rl_hosts r5 k of
                            None \<Rightarrow> r5
                          | Some h5 \<Rightarrow>
                              if hb_id h5 = i
                              then r5\<lparr>rl_hosts := (rl_hosts r5)(k \<mapsto> h5\<lparr>hb_stopped := False\<rparr>)\<rparr>
                              else r5)
                in (errors_join (stop_err # errs @ [bind_err, resume_err]), r6, w5)))"

definition host_link_closed ::
  "'w relay_seams \<Rightarrow> 'w window \<Rightarrow> session_key \<Rightarrow> relay \<Rightarrow> 'w \<Rightarrow> rerr option \<times> relay \<times> 'w" where
  "host_link_closed sm env k r w =
     (if rl_closed r then (Some (Sentinel ErrRelayClosed), r, w)
      else case rl_hosts r k of
             None \<Rightarrow> (Some (Sentinel ErrNoHostBinding), r, w)
           | Some h \<Rightarrow>
               repair sm env k (hb_id h) (r\<lparr>rl_hosts := (rl_hosts r)(k \<mapsto> h\<lparr>hb_stopped := True\<rparr>)\<rparr>) w)"

definition resync ::
  "'w relay_seams \<Rightarrow> 'w window \<Rightarrow> session_key \<Rightarrow> relay \<Rightarrow> 'w \<Rightarrow> rerr option \<times> relay \<times> 'w" where
  "resync sm env k r w =
     (if rl_closed r then (Some (Sentinel ErrRelayClosed), r, w)
      else if rl_hosts r k = None then (Some (Sentinel ErrNoHostBinding), r, w)
      else
        let (tip, r1, w1) = unlocked env 0 (read_tip sm k) r w
        in if rl_closed r1 then (Some (Sentinel ErrRelayClosed), r1, w1)
           else
             (case rl_hosts r1 k of
                None \<Rightarrow> (Some (Sentinel ErrNoHostBinding), r1, w1)
              | Some h \<Rightarrow>
                  (case tip of
                     Inl err \<Rightarrow>
                       let (h1, w2) = close_all sm ''resync tip unavailable'' (sorted_bindings h) h w1
                       in (Some err,
                           r1\<lparr>rl_hosts := (rl_hosts r1)(k \<mapsto> h1\<lparr>hb_queue := qclear (hb_queue h1)\<rparr>)\<rparr>, w2)
                   | Inr n \<Rightarrow>
                       let (errs, h1, w2) = reset_all sm k n (sorted_bindings h) h w1;
                           h2 = anchor_locked n (h1\<lparr>hb_queue := qclear (hb_queue h1)\<rparr>)
                       in (errors_join errs, r1\<lparr>rl_hosts := (rl_hosts r1)(k \<mapsto> h2)\<rparr>, w2))))"

definition anchor ::
  "'w relay_seams \<Rightarrow> 'w window \<Rightarrow> session_key \<Rightarrow> relay \<Rightarrow> 'w \<Rightarrow> rerr option \<times> relay \<times> 'w" where
  "anchor sm env k r w =
     (if rl_closed r then (Some (Sentinel ErrRelayClosed), r, w)
      else if rl_hosts r k = None then (Some (Sentinel ErrNoHostBinding), r, w)
      else
        let (tip, r1, w1) = unlocked env 0 (read_tip sm k) r w
        in case tip of
             Inl err \<Rightarrow> (Some err, r1, w1)
           | Inr n \<Rightarrow>
               (case rl_hosts r1 k of
                  None \<Rightarrow> (Some (Sentinel ErrRelayClosed), r1, w1)
                | Some h \<Rightarrow>
                    if rl_closed r1 then (Some (Sentinel ErrRelayClosed), r1, w1)
                    else (None, r1\<lparr>rl_hosts := (rl_hosts r1)(k \<mapsto> anchor_locked n h)\<rparr>, w1)))"

section \<open>Receiving\<close>

definition probe_gap ::
  "'w relay_seams \<Rightarrow> session_key \<Rightarrow> u64 \<Rightarrow> u64 \<Rightarrow> 'w \<Rightarrow> (bool \<times> u64 \<times> rerr option) \<times> 'w" where
  "probe_gap sm k prev seq w =
     (let gap = seq - prev - 1;
          scan = (if gap > max_gap_probe sm then max_gap_probe sm else gap)
      in case rl_read sm \<lparr>jr_key = k, jr_from = prev + 1, jr_tip_only = False, jr_tail = False,
                          jr_limit = 1, jr_scan = uint scan\<rparr> w of
           (Inl err, w1) \<Rightarrow> ((True, 0, Some err), w1)
         | (Inr page, w1) \<Rightarrow>
             (case jp_events page of
                first # _ \<Rightarrow> ((first < seq, jp_tip page, None), w1)
              | [] \<Rightarrow> ((jp_covered page + 1 < seq, jp_tip page, None), w1)))"

definition reset_for_gap ::
  "'w relay_seams \<Rightarrow> session_key \<Rightarrow> u64 \<Rightarrow> u64 \<Rightarrow> rerr option \<Rightarrow> host_binding \<Rightarrow> 'w \<Rightarrow> host_binding \<times> 'w" where
  "reset_for_gap sm k seq tip probe_err h w =
     (let (tip1, w1) = (if probe_err \<noteq> None then
                          (case read_tip sm k w of
                             (Inl err, w1) \<Rightarrow> (0, w1)
                           | (Inr read, w1) \<Rightarrow> (read, w1))
                        else (tip, w))
      in if tip1 + 1 < seq then
           let (h1, w2) = close_all sm ''a gap in the tail cannot be repaired from the journal tip''
                            (sorted_bindings h) h w1
           in (h1\<lparr>hb_tail_known := False\<rparr>, w2)
         else
           let (errs, h1, w2) = reset_all sm k tip1 (sorted_bindings h) h w1
           in (anchor_locked tip1 h1, w2))"

text \<open>The rest of \<open>Receive\<close>, from the point where the record is to be queued.\<close>

definition receive_enqueue ::
  "'w relay_seams \<Rightarrow> 'w window \<Rightarrow> session_key \<Rightarrow> qrec \<Rightarrow> host_binding \<Rightarrow> relay \<Rightarrow> 'w \<Rightarrow>
   rerr option \<times> relay \<times> 'w" where
  "receive_enqueue sm env k rec h r w =
     (let h1 = (if rec_class rec = ClassEnduring \<and> (\<not> hb_tail_known h \<or> rec_seq rec > hb_tail_seq h)
                then h\<lparr>hb_tail_seq := rec_seq rec\<rparr> else h);
          (err, q) = enqueue rec (hb_queue h1);
          h2 = h1\<lparr>hb_queue := q\<rparr>
      in if err = None \<or> err = Some ErrDropped
         then (None, r\<lparr>rl_hosts := (rl_hosts r)(k \<mapsto> h2)\<rparr>, w)
         else if err = Some ErrOverflow
         then repair sm env k (hb_id h2) (r\<lparr>rl_hosts := (rl_hosts r)(k \<mapsto> h2\<lparr>hb_stopped := True\<rparr>)\<rparr>) w
         else (map_option (\<lambda>e. Sentinel (DeliveryErr e)) err, r\<lparr>rl_hosts := (rl_hosts r)(k \<mapsto> h2)\<rparr>, w))"

definition receive ::
  "'w relay_seams \<Rightarrow> 'w window \<Rightarrow> session_key \<Rightarrow> tail_frame \<Rightarrow> relay \<Rightarrow> 'w \<Rightarrow> rerr option \<times> relay \<times> 'w" where
  "receive sm env k fr r w =
     (if rl_closed r then (Some (Sentinel ErrRelayClosed), r, w)
      else case rl_hosts r k of
        None \<Rightarrow> (Some (Sentinel ErrNoHostBinding), r, w)
      | Some h \<Rightarrow>
          if hb_stopped h then (None, r, w)
          else case classify (rl_core sm) k fr of
            Inl err \<Rightarrow>
              (Some err,
               if errors_is ErrForeignRecord err then r\<lparr>rl_foreign := rl_foreign r + 1\<rparr> else r, w)
          | Inr rec \<Rightarrow>
              if rec_class rec = ClassEnduring \<and> hb_tail_known h \<and> rec_seq rec > hb_tail_seq h + 1 then
                let ((hole, tip, probe_err), r1, w1) =
                      unlocked env 0 (probe_gap sm k (hb_tail_seq h) (rec_seq rec)) r w
                in if rl_closed r1 then (Some (Sentinel ErrRelayClosed), r1, w1)
                   else
                     (case rl_hosts r1 k of
                        None \<Rightarrow> (None, r1, w1)
                      | Some h1 \<Rightarrow>
                          if hb_id h1 \<noteq> hb_id h \<or> hb_stopped h1 then (None, r1, w1)
                          else
                            let (h2, w2) = (if hole then reset_for_gap sm k (rec_seq rec) tip probe_err h1 w1
                                            else (h1, w1))
                            in receive_enqueue sm env k rec h2 r1 w2)
              else receive_enqueue sm env k rec h r w)"

section \<open>The calls the relay makes\<close>

datatype relay_call =
    CallRead journal_request
  | CallRebind session_key
  | CallStop session_key
  | CallResume session_key u64
  | CallPublish link_id session_key bytes "rerr option"
  | CallCloseLink link_id string

definition log_relay :: "'w relay_seams \<Rightarrow> ('w \<times> relay_call list) relay_seams" where
  "log_relay sm =
     \<lparr>rl_core = rl_core sm,
      rl_read = \<lambda>q (w, l). (fst (rl_read sm q w), snd (rl_read sm q w), l @ [CallRead q]),
      rl_rebind = \<lambda>k (w, l). (fst (rl_rebind sm k w), snd (rl_rebind sm k w), l @ [CallRebind k]),
      tail_stop = \<lambda>k (w, l). (fst (tail_stop sm k w), snd (tail_stop sm k w), l @ [CallStop k]),
      tail_resume = \<lambda>k n (w, l). (fst (tail_resume sm k n w), snd (tail_resume sm k n w), l @ [CallResume k n]),
      publish = \<lambda>link k e (w, l).
        (fst (publish sm link k e w), snd (publish sm link k e w),
         l @ [CallPublish link k e (fst (publish sm link k e w))]),
      close_link = \<lambda>link reason (w, l).
        (fst (close_link sm link reason w), snd (close_link sm link reason w), l @ [CallCloseLink link reason]),
      marshal_reset = marshal_reset sm,
      max_gap_probe = max_gap_probe sm\<rparr>"

lemma log_relay_pure [simp]:
  "rl_core (log_relay sm) = rl_core sm" "marshal_reset (log_relay sm) = marshal_reset sm"
  by (simp_all add: log_relay_def)

lemma log_relay_snd [simp]:
  "snd (snd (rl_read (log_relay sm) q s)) = snd s @ [CallRead q]"
  "snd (snd (rl_rebind (log_relay sm) k s)) = snd s @ [CallRebind k]"
  "snd (snd (tail_stop (log_relay sm) k s)) = snd s @ [CallStop k]"
  "snd (snd (tail_resume (log_relay sm) k n s)) = snd s @ [CallResume k n]"
  "snd (snd (publish (log_relay sm) link k e s)) = snd s @ [CallPublish link k e (fst (publish (log_relay sm) link k e s))]"
  "snd (snd (close_link (log_relay sm) link reason s)) = snd s @ [CallCloseLink link reason]"
  by (simp_all add: log_relay_def split_beta)

section \<open>What a session's channel may carry\<close>

definition carries_session :: "core_codec \<Rightarrow> session_key \<Rightarrow> bytes \<Rightarrow> bool" where
  "carries_session core k enc \<longleftrightarrow>
     (record_type_of core enc = Inr RTEnduring \<and>
      (\<exists>p. unmarshal_enduring core enc = Inr p \<and> pub_tenant p = sk_tenant k \<and> pub_session p = sk_session k)) \<or>
     (record_type_of core enc = Inr RTEphemeral \<and>
      (\<exists>p. unmarshal_ephemeral core enc = Inr p \<and> eph_tenant p = sk_tenant k \<and> eph_session p = sk_session k))"

definition is_reset :: "'w relay_seams \<Rightarrow> session_key \<Rightarrow> bytes \<Rightarrow> bool" where
  "is_reset sm k enc \<longleftrightarrow>
     (\<exists>n tip. marshal_reset sm \<lparr>reset_tenant = sk_tenant k, reset_session = sk_session k,
        reset_last = n, reset_tip = tip\<rparr> = Inr enc)"

definition pub_rec :: "'w relay_seams \<Rightarrow> session_key \<Rightarrow> qrec \<Rightarrow> bool" where
  "pub_rec sm k x \<longleftrightarrow> rec_class x \<noteq> ClassControl \<and> carries_session (rl_core sm) k (rec_encoded x)"

definition out_rec :: "'w relay_seams \<Rightarrow> session_key \<Rightarrow> qrec \<Rightarrow> bool" where
  "out_rec sm k x \<longleftrightarrow> pub_rec sm k x \<or> (rec_class x = ClassControl \<and> is_reset sm k (rec_encoded x))"

definition queue_live :: "int \<Rightarrow> queue \<Rightarrow> bool" where
  "queue_live cap q \<longleftrightarrow> queue_ok q \<and> \<not> qclosed q \<and> qcapacity q = cap"

definition delivery_inv :: "'w relay_seams \<Rightarrow> repair_limits \<Rightarrow> session_key \<Rightarrow> link_id \<Rightarrow> delivery_binding \<Rightarrow> bool" where
  "delivery_inv sm lim k link b \<longleftrightarrow>
     db_link b = link \<and> queue_live (delivery_queue_cap lim) (db_queue b) \<and>
     (\<forall>x \<in> set (qbuf (db_queue b)). out_rec sm k x)"

definition host_inv :: "'w relay_seams \<Rightarrow> repair_limits \<Rightarrow> session_key \<Rightarrow> host_binding \<Rightarrow> bool" where
  "host_inv sm lim k h \<longleftrightarrow>
     queue_live (host_queue_cap lim) (hb_queue h) \<and>
     (\<forall>x \<in> set (qbuf (hb_queue h)). pub_rec sm k x) \<and>
     finite (dom (hb_deliveries h)) \<and>
     (\<forall>link b. hb_deliveries h link = Some b \<longrightarrow> delivery_inv sm lim k link b)"

definition log_inv :: "'w relay_seams \<Rightarrow> relay_call list \<Rightarrow> bool" where
  "log_inv sm l \<longleftrightarrow>
     (\<forall>link k enc err. CallPublish link k enc err \<in> set l \<longrightarrow>
        carries_session (rl_core sm) k enc \<or> is_reset sm k enc)"

definition relay_inv :: "'w relay_seams \<Rightarrow> relay \<Rightarrow> 'w \<times> relay_call list \<Rightarrow> bool" where
  "relay_inv sm r s \<longleftrightarrow>
     repair_limits_validate (rl_limits r) = None \<and> log_inv sm (snd s) \<and>
     (rl_closed r \<longrightarrow> rl_hosts r = Map.empty) \<and>
     (\<forall>k h. rl_hosts r k = Some h \<longrightarrow> host_inv sm (rl_limits r) k h)"

lemma log_inv_simps [simp]:
  "log_inv sm []"
  "log_inv sm (l @ [CallRead q]) = log_inv sm l"
  "log_inv sm (l @ [CallRebind k]) = log_inv sm l"
  "log_inv sm (l @ [CallStop k]) = log_inv sm l"
  "log_inv sm (l @ [CallResume k n]) = log_inv sm l"
  "log_inv sm (l @ [CallCloseLink link reason]) = log_inv sm l"
  "log_inv sm (l @ [CallPublish link k enc err]) \<longleftrightarrow>
     log_inv sm l \<and> (carries_session (rl_core sm) k enc \<or> is_reset sm k enc)"
  by (auto simp: log_inv_def)

subsection \<open>Queues\<close>

lemma queue_live_bounds: "queue_live cap q \<Longrightarrow> \<not> qclosed q \<and> qlen q \<le> cap"
  by (auto simp: queue_live_def queue_ok_def qlen_def)

lemma queue_live_enqueue: "queue_live cap q \<Longrightarrow> queue_live cap (snd (enqueue rec q))"
  using enqueue_ok [of q rec]
  by (cases rec q rule: enqueue_cases) (auto simp: queue_live_def)

lemma enqueue_set: "set (qbuf (snd (enqueue rec q))) \<subseteq> insert rec (set (qbuf q))"
  by (cases rec q rule: enqueue_cases) (auto dest: set_remove_nth [THEN subsetD])

lemma enqueue_live_error:
  "queue_live cap q \<Longrightarrow> fst (enqueue rec q) \<in> {None, Some ErrDropped, Some ErrOverflow}"
  by (cases rec q rule: enqueue_cases) (auto simp: queue_live_def)

lemma queue_live_qnext: "queue_live cap q \<Longrightarrow> queue_live cap (snd (qnext q))"
  using qnext_ok [of q] by (auto simp: queue_live_def qnext_def split: list.splits)

lemma qnext_set: "set (qbuf (snd (qnext q))) \<subseteq> set (qbuf q)"
  by (auto simp: qnext_def split: list.splits)

lemma queue_live_qrepair:
  "queue_live cap q \<Longrightarrow> fst (qrepair c q) = None \<and> queue_live cap (snd (qrepair c q)) \<and> qbuf (snd (qrepair c q)) = [c]"
  using qrepair_ok [of q c] by (auto simp: queue_live_def qrepair_def)

lemma queue_live_qclear: "queue_live cap q \<Longrightarrow> queue_live cap (qclear q) \<and> qbuf (qclear q) = []"
  using qclear_ok [of q] by (auto simp: queue_live_def qclear_def)

lemma queue_live_new: "new_queue cap = Inr q \<Longrightarrow> queue_live cap q \<and> qbuf q = []"
  using new_queue_ok [of cap q] by (auto simp: queue_live_def new_queue_def split: if_splits)

subsection \<open>One host binding\<close>

lemma host_inv_store:
  "host_inv sm lim k h \<Longrightarrow> delivery_inv sm lim k link b \<Longrightarrow>
    host_inv sm lim k (h\<lparr>hb_deliveries := (hb_deliveries h)(link \<mapsto> b)\<rparr>)"
  by (auto simp: host_inv_def)

lemma host_inv_remove:
  "host_inv sm lim k h \<Longrightarrow> host_inv sm lim k (h\<lparr>hb_deliveries := (hb_deliveries h)(link := None)\<rparr>)"
  by (auto simp: host_inv_def)

lemma host_inv_queue:
  "host_inv sm lim k h \<Longrightarrow> queue_live (host_queue_cap lim) q \<Longrightarrow> \<forall>x \<in> set (qbuf q). pub_rec sm k x \<Longrightarrow>
    host_inv sm lim k (h\<lparr>hb_queue := q\<rparr>)"
  by (simp add: host_inv_def)

lemma host_inv_flags [simp]:
  "host_inv sm lim k (h\<lparr>hb_stopped := x\<rparr>) = host_inv sm lim k h"
  "host_inv sm lim k (h\<lparr>hb_tail_seq := n\<rparr>) = host_inv sm lim k h"
  "host_inv sm lim k (h\<lparr>hb_tail_known := x\<rparr>) = host_inv sm lim k h"
  "host_inv sm lim k (anchor_locked n h) = host_inv sm lim k h"
  by (simp_all add: host_inv_def anchor_locked_def)

lemma host_inv_clear: "host_inv sm lim k h \<Longrightarrow> host_inv sm lim k (h\<lparr>hb_queue := qclear (hb_queue h)\<rparr>)"
  using queue_live_qclear [of "host_queue_cap lim" "hb_queue h"] by (simp add: host_inv_def)

definition host_log_inv ::
  "'w relay_seams \<Rightarrow> repair_limits \<Rightarrow> session_key \<Rightarrow> host_binding \<times> 'w \<times> relay_call list \<Rightarrow> bool" where
  "host_log_inv sm lim k hs \<longleftrightarrow> host_inv sm lim k (fst hs) \<and> log_inv sm (snd (snd hs))"

lemma close_binding_inv:
  "host_log_inv sm lim k (h, s) \<Longrightarrow> host_log_inv sm lim k (close_binding (log_relay sm) link reason h s)"
  by (simp add: host_log_inv_def close_binding_def host_inv_remove)

lemma reset_binding_inv:
  assumes "host_log_inv sm lim k (h, s)"
  shows "host_log_inv sm lim k (snd (reset_binding (log_relay sm) k tip link h s))"
proof (cases "hb_deliveries h link")
  case None
  with assms show ?thesis by (simp add: reset_binding_def)
next
  case (Some b)
  with assms have b: "delivery_inv sm lim k link b" by (simp add: host_log_inv_def host_inv_def)
  show ?thesis
  proof (cases "marshal_reset sm (reset_for k b tip)")
    case (Inl err)
    with Some close_binding_inv [OF assms] show ?thesis by (simp add: reset_binding_def)
  next
    case (Inr enc)
    let ?q = "snd (qrepair (control_record enc) (db_queue b))"
    have q: "fst (qrepair (control_record enc) (db_queue b)) = None"
        "queue_live (delivery_queue_cap lim) ?q" "qbuf ?q = [control_record enc]"
      using b queue_live_qrepair [of "delivery_queue_cap lim" "db_queue b"] by (auto simp: delivery_inv_def)
    have "is_reset sm k enc" using Inr by (auto simp: is_reset_def reset_for_def)
    with b q have "delivery_inv sm lim k link (b\<lparr>db_queue := ?q\<rparr>)"
      by (simp add: delivery_inv_def out_rec_def control_record_def)
    with Some Inr q(1) assms show ?thesis
      by (auto simp: reset_binding_def host_log_inv_def intro: host_inv_store split: prod.splits)
  qed
qed

lemma reset_all_inv:
  "host_log_inv sm lim k (h, s) \<Longrightarrow> host_log_inv sm lim k (snd (reset_all (log_relay sm) k tip links h s))"
proof (induction links arbitrary: h s)
  case (Cons link links)
  from Cons.IH [of "fst (snd (reset_binding (log_relay sm) k tip link h s))"
      "snd (snd (reset_binding (log_relay sm) k tip link h s))"] reset_binding_inv [OF Cons.prems]
  show ?case by (simp add: Let_def split_beta)
qed simp

lemma close_all_inv:
  "host_log_inv sm lim k (h, s) \<Longrightarrow> host_log_inv sm lim k (close_all (log_relay sm) reason links h s)"
proof (induction links arbitrary: h s)
  case (Cons link links)
  from Cons.IH [of "fst (close_binding (log_relay sm) link reason h s)"
      "snd (close_binding (log_relay sm) link reason h s)"] close_binding_inv [OF Cons.prems]
  show ?case by (simp add: split_beta)
qed simp

lemma read_tip_log [simp]: "snd (snd (read_tip (log_relay sm) k s)) = snd s @ [CallRead (tip_request k)]"
  using log_relay_snd(1) [of sm "tip_request k" s]
  by (auto simp: read_tip_def split: prod.splits sum.splits simp del: log_relay_snd)

lemma read_tip_inv: "read_tip (log_relay sm) k s = (x, s1) \<Longrightarrow> log_inv sm (snd s1) = log_inv sm (snd s)"
  using read_tip_log [of sm k s] by simp

lemma fan_out_cases [case_names none queued overflow]:
  assumes "host_inv sm lim k h"
  obtains "hb_deliveries h link = None" "fan_out S k rec link h w = (None, h, w)"
  | b where "hb_deliveries h link = Some b"
      "fst (enqueue rec (db_queue b)) = None \<or> fst (enqueue rec (db_queue b)) = Some ErrDropped"
      "fan_out S k rec link h w =
        (None, h\<lparr>hb_deliveries := (hb_deliveries h)(link \<mapsto> b\<lparr>db_queue := snd (enqueue rec (db_queue b))\<rparr>)\<rparr>, w)"
  | b where "hb_deliveries h link = Some b" "fst (enqueue rec (db_queue b)) = Some ErrOverflow"
      "fan_out S k rec link h w =
        (case read_tip S k w of
           (Inl err, w1) \<Rightarrow> (Some err, close_binding S link ''repair tip unavailable'' h w1)
         | (Inr tip, w1) \<Rightarrow> reset_binding S k tip link h w1)"
proof (cases "hb_deliveries h link")
  case None
  with that(1) show thesis by (simp add: fan_out_def)
next
  case (Some b)
  then have live: "queue_live (delivery_queue_cap lim) (db_queue b)"
    using assms by (simp add: host_inv_def delivery_inv_def)
  obtain e q where e: "enqueue rec (db_queue b) = (e, q)" by (rule prod.exhaust)
  with enqueue_live_error [OF live, of rec] consider "e = None" | "e = Some ErrDropped" | "e = Some ErrOverflow"
    by auto
  then show thesis
    by cases (use Some e that(2,3) [of b] in \<open>simp_all add: fan_out_def\<close>)
qed

lemma fan_out_inv:
  assumes "host_log_inv sm lim k (h, s)" "pub_rec sm k rec"
  shows "host_log_inv sm lim k (snd (fan_out (log_relay sm) k rec link h s))"
proof -
  have h: "host_inv sm lim k h" using assms(1) by (simp add: host_log_inv_def)
  then show ?thesis
  proof (cases rule: fan_out_cases [where rec = rec and link = link and S = "log_relay sm" and w = s])
    case (queued b)
    have b: "delivery_inv sm lim k link b" using h queued(1) by (simp add: host_inv_def)
    then have "\<forall>x \<in> set (qbuf (snd (enqueue rec (db_queue b)))). out_rec sm k x"
      using enqueue_set [of rec "db_queue b"] assms(2) by (auto simp: delivery_inv_def out_rec_def)
    with b have "delivery_inv sm lim k link (b\<lparr>db_queue := snd (enqueue rec (db_queue b))\<rparr>)"
      by (simp add: delivery_inv_def queue_live_enqueue)
    with queued(3) assms(1) show ?thesis by (simp add: host_log_inv_def host_inv_store)
  next
    case (overflow b)
    obtain x s1 where t: "read_tip (log_relay sm) k s = (x, s1)" by (rule prod.exhaust)
    with read_tip_log [of sm k s] assms(1) have "host_log_inv sm lim k (h, s1)"
      by (simp add: host_log_inv_def)
    with t overflow(3) show ?thesis
      by (cases x) (simp_all add: close_binding_inv reset_binding_inv)
  qed (use assms in simp_all)
qed

lemma fan_all_inv:
  "host_log_inv sm lim k (h, s) \<Longrightarrow> pub_rec sm k rec \<Longrightarrow>
    host_log_inv sm lim k (snd (fan_all (log_relay sm) k rec links h s))"
proof (induction links arbitrary: h s)
  case (Cons link links)
  from Cons.IH [of "fst (snd (fan_out (log_relay sm) k rec link h s))"
      "snd (snd (fan_out (log_relay sm) k rec link h s))"] fan_out_inv [OF Cons.prems]
  show ?case using Cons.prems by (simp add: Let_def split_beta)
qed simp

lemma qhead_set: "qhead q = Some rec \<Longrightarrow> rec \<in> set (qbuf q)"
  by (auto simp: qhead_def split: if_splits list.splits)

lemma drain_loop_inv:
  "delivery_inv sm lim k link b \<Longrightarrow> log_inv sm (snd s) \<Longrightarrow>
    delivery_inv sm lim k link (fst (snd (drain_loop (log_relay sm) k b s))) \<and>
    log_inv sm (snd (snd (snd (drain_loop (log_relay sm) k b s))))"
proof (induction "log_relay sm" k b s rule: drain_loop.induct)
  case (1 k b s)
  show ?case
  proof (cases "qhead (db_queue b)")
    case None
    with "1.prems" show ?thesis by (simp add: drain_loop.simps [of _ k b])
  next
    case (Some rec)
    have out: "out_rec sm k rec" using "1.prems"(1) qhead_set [OF Some] by (simp add: delivery_inv_def)
    obtain err s1 where p: "publish (log_relay sm) (db_link b) k (rec_encoded rec) s = (err, s1)" by (rule prod.exhaust)
    have l1: "log_inv sm (snd s1)"
      using "1.prems"(2) out log_relay_snd(5) [of sm "db_link b" k "rec_encoded rec" s] p
      by (auto simp: out_rec_def pub_rec_def)
    have b1: "delivery_inv sm lim k link (advance rec (b\<lparr>db_queue := snd (qnext (db_queue b))\<rparr>))"
      using "1.prems"(1) qnext_set [of "db_queue b"] by (auto simp: delivery_inv_def queue_live_qnext)
    show ?thesis
    proof (cases "err = None")
      case True
      with "1.hyps" [OF Some p [symmetric] _ _ b1 l1] Some p show ?thesis
        by (simp add: drain_loop.simps [of _ k b])
    next
      case False
      with Some p l1 "1.prems" show ?thesis by (auto simp: drain_loop.simps [of _ k b])
    qed
  qed
qed

lemma drain_inv:
  assumes "host_log_inv sm lim k (h, s)"
  shows "host_log_inv sm lim k (snd (drain (log_relay sm) k link h s))"
proof (cases "hb_deliveries h link")
  case None
  with assms show ?thesis by (simp add: drain_def)
next
  case (Some b)
  obtain e b1 s1 where d: "drain_loop (log_relay sm) k b s = (e, b1, s1)" by (metis prod_cases3)
  have "delivery_inv sm lim k link b1" "log_inv sm (snd s1)"
    using drain_loop_inv [of sm lim k link b s] d assms Some by (simp_all add: host_log_inv_def host_inv_def)
  with assms have "host_log_inv sm lim k (h, s1)"
      "host_log_inv sm lim k (h\<lparr>hb_deliveries := (hb_deliveries h)(link \<mapsto> b1)\<rparr>, s1)"
    by (simp_all add: host_log_inv_def host_inv_store)
  with Some d show ?thesis by (cases e) (simp_all add: drain_def close_binding_inv)
qed

lemma drain_all_inv:
  "host_log_inv sm lim k (h, s) \<Longrightarrow> host_log_inv sm lim k (snd (drain_all (log_relay sm) k links h s))"
proof (induction links arbitrary: h s)
  case (Cons link links)
  from Cons.IH [of "fst (snd (drain (log_relay sm) k link h s))"
      "snd (snd (drain (log_relay sm) k link h s))"] drain_inv [OF Cons.prems]
  show ?case by (simp add: Let_def split_beta)
qed simp

lemma pump_loop_inv:
  "host_log_inv sm lim k (h, s) \<Longrightarrow> host_log_inv sm lim k (snd (pump_loop (log_relay sm) k h s))"
proof (induction "log_relay sm" k h s rule: pump_loop.induct)
  case (1 k h s)
  obtain x q where q: "qnext (hb_queue h) = (x, q)" by (rule prod.exhaust)
  have h1: "host_log_inv sm lim k (h\<lparr>hb_queue := q\<rparr>, s)"
    using "1.prems" qnext_set [of "hb_queue h"] queue_live_qnext [of _ "hb_queue h"] q
    by (auto simp: host_log_inv_def host_inv_def)
  show ?case
  proof (cases x)
    case None
    with q h1 show ?thesis by (simp add: pump_loop.simps [of _ k h])
  next
    case (Some rec)
    have "pub_rec sm k rec"
      using "1.prems" q Some qnext_Some [of "hb_queue h" rec] by (simp add: host_log_inv_def host_inv_def)
    from fan_all_inv [OF h1 this] have
      "host_log_inv sm lim k (snd (pump_loop (log_relay sm) k
        (fst (snd (fan_all (log_relay sm) k rec (sorted_bindings (h\<lparr>hb_queue := q\<rparr>)) (h\<lparr>hb_queue := q\<rparr>) s)))
        (snd (snd (fan_all (log_relay sm) k rec (sorted_bindings (h\<lparr>hb_queue := q\<rparr>)) (h\<lparr>hb_queue := q\<rparr>) s)))))"
      by (intro "1.hyps" [OF q [symmetric] Some refl refl]) simp
    with q Some show ?thesis by (simp add: pump_loop.simps [of _ k h] Let_def)
  qed
qed

lemma repair_section_inv:
  assumes "host_log_inv sm lim k (h, s)"
  shows "host_log_inv sm lim k (snd (snd (repair_section (log_relay sm) k tip h s)))"
proof (cases tip)
  case (Inl err)
  with close_all_inv [OF assms, of "''repair tip unavailable''" "sorted_bindings h"] show ?thesis
    by (auto simp: repair_section_def host_log_inv_def host_inv_clear split: prod.splits)
next
  case (Inr n)
  obtain errs h1 s1 where r: "reset_all (log_relay sm) k n (sorted_bindings h) h s = (errs, h1, s1)"
    by (metis prod_cases3)
  with reset_all_inv [OF assms, of n "sorted_bindings h"] have "host_log_inv sm lim k (h1, s1)" by simp
  then have "host_inv sm lim k ((anchor_locked n h1)\<lparr>hb_queue := qclear (hb_queue (anchor_locked n h1))\<rparr>)"
    by (intro host_inv_clear) (simp add: host_log_inv_def)
  with Inr r \<open>host_log_inv sm lim k (h1, s1)\<close> show ?thesis
    by (simp add: repair_section_def host_log_inv_def Let_def)
qed

lemma reset_for_gap_inv:
  assumes "host_log_inv sm lim k (h, s)"
  shows "host_log_inv sm lim k (reset_for_gap (log_relay sm) k seq tip perr h s)"
proof -
  obtain tip1 s1 where t: "(if perr \<noteq> None then
      (case read_tip (log_relay sm) k s of (Inl err, w1) \<Rightarrow> (0, w1) | (Inr read, w1) \<Rightarrow> (read, w1))
      else (tip, s)) = (tip1, s1)" by (rule prod.exhaust)
  have s1: "host_log_inv sm lim k (h, s1)"
    using assms t
    by (auto simp: host_log_inv_def dest: read_tip_inv split: if_splits prod.splits sum.splits)
  show ?thesis
  proof (cases "tip1 + 1 < seq")
    case True
    with t close_all_inv [OF s1] show ?thesis
      by (auto simp: reset_for_gap_def host_log_inv_def split: prod.splits)
        (metis fst_conv snd_conv)+
  next
    case False
    with t reset_all_inv [OF s1, of tip1 "sorted_bindings h"] show ?thesis
      by (auto simp: reset_for_gap_def host_log_inv_def split: prod.splits)
  qed
qed

subsection \<open>The relay\<close>

text \<open>A window, or any function of the relay and the world, that keeps the invariant.\<close>

definition keeps :: "'w relay_seams \<Rightarrow> (relay \<Rightarrow> 'w \<times> relay_call list \<Rightarrow> relay \<times> 'w \<times> relay_call list) \<Rightarrow> bool" where
  "keeps sm f \<longleftrightarrow> (\<forall>r s. relay_inv sm r s \<longrightarrow> relay_inv sm (fst (f r s)) (snd (f r s)))"

lemma keepsD: "keeps sm f \<Longrightarrow> relay_inv sm r s \<Longrightarrow> f r s = (r', s') \<Longrightarrow> relay_inv sm r' s'"
  unfolding keeps_def by (metis fst_conv snd_conv)

lemma relay_inv_host:
  "relay_inv sm r s \<Longrightarrow> rl_hosts r k = Some h \<Longrightarrow>
    host_log_inv sm (rl_limits r) k (h, s) \<and> \<not> rl_closed r"
  by (auto simp: relay_inv_def host_log_inv_def)

lemma relay_inv_store:
  "relay_inv sm r s \<Longrightarrow> \<not> rl_closed r \<Longrightarrow> host_log_inv sm (rl_limits r) k (h, s') \<Longrightarrow>
    relay_inv sm (r\<lparr>rl_hosts := (rl_hosts r)(k \<mapsto> h)\<rparr>) s'"
  by (auto simp: relay_inv_def host_log_inv_def)

lemma relay_inv_log: "relay_inv sm r s \<Longrightarrow> log_inv sm (snd s') \<Longrightarrow> relay_inv sm r s'"
  by (simp add: relay_inv_def)

lemma host_log_inv_flags [simp]:
  "host_log_inv sm lim k (h\<lparr>hb_stopped := x\<rparr>, s) = host_log_inv sm lim k (h, s)"
  "host_log_inv sm lim k (h\<lparr>hb_tail_seq := n\<rparr>, s) = host_log_inv sm lim k (h, s)"
  "host_log_inv sm lim k (anchor_locked n h, s) = host_log_inv sm lim k (h, s)"
  by (simp_all add: host_log_inv_def)

lemma host_log_inv_clear:
  "host_log_inv sm lim k (h, s) \<Longrightarrow> host_log_inv sm lim k (h\<lparr>hb_queue := qclear (hb_queue h)\<rparr>, s)"
  by (simp add: host_log_inv_def host_inv_clear)

lemma relay_open_inv: "relay_inv sm r s \<Longrightarrow> relay_inv sm (snd (relay_open k r)) s"
  by (auto simp: relay_open_def relay_inv_def host_inv_def dest: queue_live_new split: option.splits sum.splits)

lemma subscribe_inv:
  assumes "relay_inv sm r s"
  shows "relay_inv sm (snd (subscribe k link r)) s"
proof (cases "\<exists>h q. rl_hosts r k = Some h \<and> hb_deliveries h link = None \<and> \<not> rl_closed r \<and>
    new_queue (delivery_queue_cap (rl_limits r)) = Inr q")
  case False
  with assms show ?thesis by (auto simp: subscribe_def split: option.splits sum.splits)
next
  case True
  then obtain h q where h: "rl_hosts r k = Some h" "hb_deliveries h link = None" "\<not> rl_closed r"
      "new_queue (delivery_queue_cap (rl_limits r)) = Inr q" by auto
  let ?b = "\<lparr>db_link = link, db_queue = q, db_last = 0, db_forwarded = 0\<rparr>"
  have "delivery_inv sm (rl_limits r) k link ?b"
    using queue_live_new [OF h(4)] by (simp add: delivery_inv_def)
  with relay_inv_host [OF assms h(1)]
  have "host_log_inv sm (rl_limits r) k (h\<lparr>hb_deliveries := (hb_deliveries h)(link \<mapsto> ?b)\<rparr>, s)"
    by (simp add: host_log_inv_def host_inv_store)
  with assms h show ?thesis by (simp add: subscribe_def relay_inv_store)
qed

lemma unsubscribe_inv: "relay_inv sm r s \<Longrightarrow> relay_inv sm (unsubscribe k link r) s"
  by (auto simp: unsubscribe_def host_log_inv_def host_inv_remove dest: relay_inv_host intro!: relay_inv_store
      split: option.splits)

lemma relay_close_inv: "relay_inv sm r s \<Longrightarrow> relay_inv sm (relay_close r) s"
  by (simp add: relay_close_def relay_inv_def)

lemma forget_inv: "relay_inv sm r s \<Longrightarrow> relay_inv sm (forget k r) s"
  by (auto simp: forget_def relay_inv_def split: option.splits)

lemma pump_inv:
  assumes "relay_inv sm r s"
  shows "relay_inv sm (fst (snd (pump (log_relay sm) k r s))) (snd (snd (pump (log_relay sm) k r s)))"
proof (cases "rl_hosts r k")
  case None
  with assms show ?thesis by (simp add: pump_def)
next
  case (Some h)
  note h = relay_inv_host [OF assms Some]
  obtain errs h1 s1 where p: "pump_loop (log_relay sm) k h s = (errs, h1, s1)" by (metis prod_cases3)
  obtain errs' h2 s2 where d: "drain_all (log_relay sm) k (sorted_bindings h1) h1 s1 = (errs', h2, s2)"
    by (metis prod_cases3)
  have "host_log_inv sm (rl_limits r) k (h1, s1)" using pump_loop_inv [OF conjunct1 [OF h]] p by simp
  from drain_all_inv [OF this, of "sorted_bindings h1"] d
  have "host_log_inv sm (rl_limits r) k (h2, s2)" by simp
  with assms h Some p d show ?thesis by (simp add: pump_def relay_inv_store)
qed

lemma unlocked_inv:
  assumes "\<forall>i. keeps sm (env i)" "relay_inv sm r s" "\<And>s. log_inv sm (snd s) \<Longrightarrow> log_inv sm (snd (snd (f s)))"
    "unlocked env i f r s = (x, r', s')"
  shows "relay_inv sm r' s'"
proof -
  obtain r1 s1 where e1: "env (2 * i) r s = (r1, s1)" by (rule prod.exhaust)
  obtain y s2 where f: "f s1 = (y, s2)" by (rule prod.exhaust)
  have 1: "relay_inv sm r1 s1" using keepsD [OF spec [OF assms(1)] assms(2) e1] .
  then have "log_inv sm (snd s2)" using assms(3) [of s1] f by (simp add: relay_inv_def)
  with 1 have 2: "relay_inv sm r1 s2" by (rule relay_inv_log)
  have "env (2 * i + 1) r1 s2 = (r', s')" using assms(4) e1 f by (auto simp: unlocked_def split: prod.splits)
  from keepsD [OF spec [OF assms(1)] 2 this] show ?thesis .
qed

lemma repair_inv:
  assumes env: "\<forall>i. keeps sm (env i)" and r: "relay_inv sm r s"
    and run: "repair (log_relay sm) env k i r s = (err, r', s')"
  shows "relay_inv sm r' s'"
proof -
  obtain e1 r1 s1 where 1: "unlocked env 1 (tail_stop (log_relay sm) k) r s = (e1, r1, s1)" by (metis prod_cases3)
  obtain tip r2 s2 where 2: "unlocked env 2 (read_tip (log_relay sm) k) r1 s1 = (tip, r2, s2)" by (metis prod_cases3)
  have i1: "relay_inv sm r1 s1" by (rule unlocked_inv [OF env r _ 1]) simp
  have i2: "relay_inv sm r2 s2" by (rule unlocked_inv [OF env i1 _ 2]) simp
  show ?thesis
  proof (cases "rl_closed r2 \<or> \<not> same_host k i r2")
    case True
    with run 1 2 i2 show ?thesis by (auto simp: repair_def)
  next
    case False
    then obtain h where h: "rl_hosts r2 k = Some h" "\<not> rl_closed r2"
      by (auto simp: same_host_def split: option.splits)
    obtain errs n h1 s3 where 3: "repair_section (log_relay sm) k tip h s2 = (errs, n, h1, s3)"
      by (metis prod_cases4)
    let ?r3 = "r2\<lparr>rl_hosts := (rl_hosts r2)(k \<mapsto> h1)\<rparr>"
    obtain e4 r4 s4 where 4: "unlocked env 3 (rl_rebind (log_relay sm) k) ?r3 s3 = (e4, r4, s4)"
      by (metis prod_cases3)
    obtain e5 r5 s5 where 5: "unlocked env 4 (tail_resume (log_relay sm) k n) r4 s4 = (e5, r5, s5)"
      by (metis prod_cases3)
    have "host_log_inv sm (rl_limits r2) k (h1, s3)"
      using repair_section_inv [OF conjunct1 [OF relay_inv_host [OF i2 h(1)]], of tip] 3 by simp
    with i2 h(2) have i3: "relay_inv sm ?r3 s3" by (rule relay_inv_store)
    have i4: "relay_inv sm r4 s4" by (rule unlocked_inv [OF env i3 _ 4]) simp
    have i5: "relay_inv sm r5 s5" by (rule unlocked_inv [OF env i4 _ 5]) simp
    have "r' = r5 \<or> (\<exists>h5. rl_hosts r5 k = Some h5 \<and> r' = r5\<lparr>rl_hosts := (rl_hosts r5)(k \<mapsto> h5\<lparr>hb_stopped := False\<rparr>)\<rparr>)"
        "s' = s5"
      using run 1 2 3 4 5 h False by (auto simp: repair_def Let_def split: option.splits if_splits)
    then show ?thesis
    proof (elim disjE exE conjE)
      fix h5
      assume "rl_hosts r5 k = Some h5" "s' = s5"
        and r': "r' = r5\<lparr>rl_hosts := (rl_hosts r5)(k \<mapsto> h5\<lparr>hb_stopped := False\<rparr>)\<rparr>"
      then show ?thesis unfolding r'
        using relay_inv_store [OF i5, of k "h5\<lparr>hb_stopped := False\<rparr>" s5] relay_inv_host [OF i5, of k h5] by simp
    qed (use i5 in simp)
  qed
qed

lemma host_link_closed_inv:
  assumes "\<forall>i. keeps sm (env i)" "relay_inv sm r s" "host_link_closed (log_relay sm) env k r s = (err, r', s')"
  shows "relay_inv sm r' s'"
proof (cases "rl_hosts r k")
  case None
  with assms show ?thesis by (auto simp: host_link_closed_def split: if_splits)
next
  case (Some h)
  note h = relay_inv_host [OF assms(2) Some]
  have "relay_inv sm (r\<lparr>rl_hosts := (rl_hosts r)(k \<mapsto> h\<lparr>hb_stopped := True\<rparr>)\<rparr>) s"
    using assms(2) h by (simp add: relay_inv_store)
  from repair_inv [OF assms(1) this] assms(3) h Some show ?thesis by (simp add: host_link_closed_def)
qed

lemma resync_inv:
  assumes "\<forall>i. keeps sm (env i)" "relay_inv sm r s" "resync (log_relay sm) env k r s = (err, r', s')"
  shows "relay_inv sm r' s'"
proof (cases "rl_closed r \<or> rl_hosts r k = None")
  case True
  with assms(2,3) show ?thesis by (auto simp: resync_def split: if_splits)
next
  case False
  obtain tip r1 s1 where 1: "unlocked env 0 (read_tip (log_relay sm) k) r s = (tip, r1, s1)" by (metis prod_cases3)
  have i1: "relay_inv sm r1 s1" by (rule unlocked_inv [OF assms(1,2) _ 1]) simp
  show ?thesis
  proof (cases "rl_hosts r1 k")
    case None
    with False 1 assms(3) i1 show ?thesis by (auto simp: resync_def split: if_splits)
  next
    case (Some h)
    note h = relay_inv_host [OF i1 Some]
    show ?thesis
    proof (cases tip)
      case (Inl e)
      obtain h1 s2 where c: "close_all (log_relay sm) ''resync tip unavailable'' (sorted_bindings h) h s1 = (h1, s2)"
        by (rule prod.exhaust)
      with close_all_inv [OF conjunct1 [OF h]] have "host_log_inv sm (rl_limits r1) k (h1, s2)" by metis
      from relay_inv_store [OF i1 conjunct2 [OF h] host_log_inv_clear [OF this]] False 1 Some Inl c h assms(3)
      show ?thesis by (auto simp: resync_def)
    next
      case (Inr n)
      obtain errs h1 s2 where c: "reset_all (log_relay sm) k n (sorted_bindings h) h s1 = (errs, h1, s2)"
        by (metis prod_cases3)
      with reset_all_inv [OF conjunct1 [OF h], of n "sorted_bindings h"]
      have "host_log_inv sm (rl_limits r1) k (h1, s2)" by simp
      then have "host_log_inv sm (rl_limits r1) k (anchor_locked n (h1\<lparr>hb_queue := qclear (hb_queue h1)\<rparr>), s2)"
        by (simp add: host_log_inv_clear)
      from relay_inv_store [OF i1 conjunct2 [OF h] this] False 1 Some Inr c h assms(3)
      show ?thesis by (auto simp: resync_def)
    qed
  qed
qed

lemma anchor_inv:
  assumes "\<forall>i. keeps sm (env i)" "relay_inv sm r s" "anchor (log_relay sm) env k r s = (err, r', s')"
  shows "relay_inv sm r' s'"
proof (cases "rl_closed r \<or> rl_hosts r k = None")
  case True
  with assms(2,3) show ?thesis by (auto simp: anchor_def split: if_splits)
next
  case False
  obtain tip r1 s1 where 1: "unlocked env 0 (read_tip (log_relay sm) k) r s = (tip, r1, s1)" by (metis prod_cases3)
  have i1: "relay_inv sm r1 s1" by (rule unlocked_inv [OF assms(1,2) _ 1]) simp
  show ?thesis
  proof (cases "\<exists>n h. tip = Inr n \<and> rl_hosts r1 k = Some h")
    case False2: False
    with False 1 assms(3) i1 show ?thesis by (auto simp: anchor_def split: if_splits sum.splits option.splits)
  next
    case True
    then obtain n h where n: "tip = Inr n" "rl_hosts r1 k = Some h" by auto
    note h = relay_inv_host [OF i1 n(2)]
    then have "host_log_inv sm (rl_limits r1) k (anchor_locked n h, s1)" by simp
    from relay_inv_store [OF i1 conjunct2 [OF h] this] False 1 n h assms(3)
    show ?thesis by (auto simp: anchor_def)
  qed
qed

lemma classify_pub_rec: "classify (rl_core sm) k fr = Inr rec \<Longrightarrow> pub_rec sm k rec"
  by (auto simp: classify_def parse_enduring_def owns_def pub_rec_def carries_session_def enduring_record_def
      split: sum.splits session_record_type.splits if_splits)

lemma probe_gap_log:
  "log_inv sm (snd s) \<Longrightarrow> log_inv sm (snd (snd (probe_gap (log_relay sm) k n seq s)))"
  by (auto simp: probe_gap_def log_relay_def Let_def split: prod.splits sum.splits list.splits)

lemma receive_enqueue_inv:
  assumes env: "\<forall>i. keeps sm (env i)" and r: "relay_inv sm r s0" "\<not> rl_closed r"
    and h: "host_log_inv sm (rl_limits r) k (h, s)" and rec: "pub_rec sm k rec"
    and run: "receive_enqueue (log_relay sm) env k rec h r s = (err, r', s')"
  shows "relay_inv sm r' s'"
proof -
  obtain h1 where h1: "h1 = (if rec_class rec = ClassEnduring \<and> (\<not> hb_tail_known h \<or> rec_seq rec > hb_tail_seq h)
                then h\<lparr>hb_tail_seq := rec_seq rec\<rparr> else h)" by blast
  obtain e q where q: "enqueue rec (hb_queue h1) = (e, q)" by (rule prod.exhaust)
  have hi: "host_inv sm (rl_limits r) k h1" using h h1 by (auto simp: host_log_inv_def)
  then have "host_inv sm (rl_limits r) k (h1\<lparr>hb_queue := q\<rparr>)"
    using queue_live_enqueue [of "host_queue_cap (rl_limits r)" "hb_queue h1" rec] enqueue_set [of rec "hb_queue h1"] q rec
    by (intro host_inv_queue) (auto simp: host_inv_def)
  with h have h2: "host_log_inv sm (rl_limits r) k (h1\<lparr>hb_queue := q\<rparr>, s)" by (simp add: host_log_inv_def)
  then have r2: "relay_inv sm (r\<lparr>rl_hosts := (rl_hosts r)(k \<mapsto> h1\<lparr>hb_queue := q\<rparr>)\<rparr>) s"
      "relay_inv sm (r\<lparr>rl_hosts := (rl_hosts r)(k \<mapsto> h1\<lparr>hb_queue := q, hb_stopped := True\<rparr>)\<rparr>) s"
    using relay_inv_store [OF r] by simp_all
  show ?thesis
  proof (cases "e = Some ErrOverflow")
    case True
    with run h1 q have "repair (log_relay sm) env k (hb_id h1)
        (r\<lparr>rl_hosts := (rl_hosts r)(k \<mapsto> h1\<lparr>hb_queue := q, hb_stopped := True\<rparr>)\<rparr>) s = (err, r', s')"
      by (auto simp: receive_enqueue_def Let_def split: if_splits)
    from repair_inv [OF env r2(2) this] show ?thesis .
  next
    case False
    have "r' = r\<lparr>rl_hosts := (rl_hosts r)(k \<mapsto> h1\<lparr>hb_queue := q\<rparr>)\<rparr> \<and> s' = s"
      using run False q unfolding receive_enqueue_def h1 [symmetric] Let_def by (auto split: if_splits)
    with r2(1) show ?thesis by simp
  qed
qed

lemma receive_inv:
  assumes env: "\<forall>i. keeps sm (env i)" and r: "relay_inv sm r s"
    and run: "receive (log_relay sm) env k fr r s = (err, r', s')"
  shows "relay_inv sm r' s'"
proof (cases "\<exists>h rec. rl_hosts r k = Some h \<and> \<not> hb_stopped h \<and> classify (rl_core sm) k fr = Inr rec")
  case False
  have "relay_inv sm (r\<lparr>rl_foreign := n\<rparr>) s" for n using r by (simp add: relay_inv_def)
  with False run r show ?thesis by (auto simp: receive_def split: if_splits option.splits sum.splits)
next
  case True
  then obtain h rec where h: "rl_hosts r k = Some h" "\<not> hb_stopped h" "classify (rl_core sm) k fr = Inr rec" by auto
  note hr = relay_inv_host [OF r h(1)] and rec = classify_pub_rec [OF h(3)]
  show ?thesis
  proof (cases "rec_class rec = ClassEnduring \<and> hb_tail_known h \<and> rec_seq rec > hb_tail_seq h + 1")
    case False
    with run h hr have "receive_enqueue (log_relay sm) env k rec h r s = (err, r', s')" by (auto simp: receive_def)
    from receive_enqueue_inv [OF env r conjunct2 [OF hr] conjunct1 [OF hr] rec this] show ?thesis .
  next
    case gap: True
    obtain hole tip perr r1 s1 where
      1: "unlocked env 0 (probe_gap (log_relay sm) k (hb_tail_seq h) (rec_seq rec)) r s = ((hole, tip, perr), r1, s1)"
      by (metis prod_cases3)
    have i1: "relay_inv sm r1 s1" by (rule unlocked_inv [OF env r _ 1]) (rule probe_gap_log)
    show ?thesis
    proof (cases "\<exists>h1. rl_hosts r1 k = Some h1 \<and> hb_id h1 = hb_id h \<and> \<not> hb_stopped h1")
      case False
      with gap run h hr 1 i1 show ?thesis by (auto simp: receive_def split: if_splits option.splits)
    next
      case True
      then obtain h1 where h1: "rl_hosts r1 k = Some h1" "hb_id h1 = hb_id h" "\<not> hb_stopped h1" by auto
      note hr1 = relay_inv_host [OF i1 h1(1)]
      obtain h2 s2 where 2: "(if hole then reset_for_gap (log_relay sm) k (rec_seq rec) tip perr h1 s1 else (h1, s1)) = (h2, s2)"
        by (rule prod.exhaust)
      with reset_for_gap_inv [OF conjunct1 [OF hr1]] hr1 have h2: "host_log_inv sm (rl_limits r1) k (h2, s2)"
        by (metis fst_conv snd_conv)
      have "receive_enqueue (log_relay sm) env k rec h2 r1 s2 = (err, r', s')"
        using gap run h hr hr1 1 2 h1 by (simp add: receive_def)
      from receive_enqueue_inv [OF env i1 conjunct2 [OF hr1] h2 rec this] show ?thesis .
    qed
  qed
qed

section \<open>Windows: what other goroutines may do\<close>

text \<open>
  What may happen to the relay while its mutex is free: nothing, the world moving on its own,
  or any sequence of the relay's own operations, whose unlocked calls have such windows in
  turn. Also a whole run of the relay is of this form.
\<close>

inductive relay_window ::
  "'w relay_seams \<Rightarrow> (relay \<Rightarrow> 'w \<times> relay_call list \<Rightarrow> relay \<times> 'w \<times> relay_call list) \<Rightarrow> bool"
  for sm where
  idle: "relay_window sm (\<lambda>r s. (r, s))"
| world: "relay_window sm (\<lambda>r s. (r, g (fst s), snd s))"
| sequel: "relay_window sm f \<Longrightarrow> relay_window sm f' \<Longrightarrow> relay_window sm (\<lambda>r s. f' (fst (f r s)) (snd (f r s)))"
| opens: "relay_window sm (\<lambda>r s. (snd (relay_open k r), s))"
| subscribes: "relay_window sm (\<lambda>r s. (snd (subscribe k link r), s))"
| unsubscribes: "relay_window sm (\<lambda>r s. (unsubscribe k link r, s))"
| forgets: "relay_window sm (\<lambda>r s. (forget k r, s))"
| closes: "relay_window sm (\<lambda>r s. (relay_close r, s))"
| pumps: "relay_window sm (\<lambda>r s. snd (pump (log_relay sm) k r s))"
| receives: "\<forall>i. relay_window sm (env i) \<Longrightarrow> relay_window sm (\<lambda>r s. snd (receive (log_relay sm) env k fr r s))"
| link_closes: "\<forall>i. relay_window sm (env i) \<Longrightarrow> relay_window sm (\<lambda>r s. snd (host_link_closed (log_relay sm) env k r s))"
| resyncs: "\<forall>i. relay_window sm (env i) \<Longrightarrow> relay_window sm (\<lambda>r s. snd (resync (log_relay sm) env k r s))"
| anchors: "\<forall>i. relay_window sm (env i) \<Longrightarrow> relay_window sm (\<lambda>r s. snd (anchor (log_relay sm) env k r s))"

lemma keeps_op:
  assumes "\<And>r s err r' s'. relay_inv sm r s \<Longrightarrow> op r s = (err, r', s') \<Longrightarrow> relay_inv sm r' s'"
  shows "keeps sm (\<lambda>r s. snd (op r s))"
  unfolding keeps_def using assms by (metis prod.collapse)

lemma relay_window_keeps: "relay_window sm f \<Longrightarrow> keeps sm f"
proof (induction rule: relay_window.induct)
  case (receives env k fr)
  then have "\<forall>i. keeps sm (env i)" by blast
  from receive_inv [OF this] show ?case by (intro keeps_op) blast
next
  case (link_closes env k)
  then have "\<forall>i. keeps sm (env i)" by blast
  from host_link_closed_inv [OF this] show ?case by (intro keeps_op) blast
next
  case (resyncs env k)
  then have "\<forall>i. keeps sm (env i)" by blast
  from resync_inv [OF this] show ?case by (intro keeps_op) blast
next
  case (anchors env k)
  then have "\<forall>i. keeps sm (env i)" by blast
  from anchor_inv [OF this] show ?case by (intro keeps_op) blast
next
  case (world g)
  show ?case by (simp add: keeps_def relay_inv_def)
next
  case (sequel f f')
  then show ?case unfolding keeps_def by metis
qed (simp_all add: keeps_def relay_open_inv subscribe_inv unsubscribe_inv forget_inv relay_close_inv pump_inv)

lemma new_relay_inv: "new_relay a b c d lim = Inr r \<Longrightarrow> relay_inv sm r (w, [])"
  by (auto simp: new_relay_def relay_inv_def split: if_splits option.splits)

lemma relay_run_inv:
  assumes "new_relay a b c d lim = Inr r0" "relay_window sm f" "f r0 (w0, []) = (r, w, l)"
  shows "relay_inv sm r (w, l)"
  using keepsD [OF relay_window_keeps [OF assms(2)] new_relay_inv [OF assms(1)] assms(3)] .

section \<open>What a pump does with one subscriber's queue\<close>

text \<open>Every call of the pump only extends the log.\<close>

lemma reset_binding_grows:
  "\<exists>x. snd (snd (snd (reset_binding (log_relay sm) k tip link h s))) = snd s @ x"
  by (auto simp: reset_binding_def close_binding_def split: option.splits sum.splits prod.splits)

lemma fan_out_grows: "\<exists>x. snd (snd (snd (fan_out (log_relay sm) k rec link h s))) = snd s @ x"
proof -
  obtain y s1 where t: "read_tip (log_relay sm) k s = (y, s1)" by (rule prod.exhaust)
  have "snd s1 = snd s @ [CallRead (tip_request k)]" using read_tip_log [of sm k s] t by simp
  moreover obtain z where "snd (snd (snd (reset_binding (log_relay sm) k (projr y) link h s1))) = snd s1 @ z"
    using reset_binding_grows by blast
  ultimately show ?thesis using t
    by (auto simp: fan_out_def close_binding_def
        split: option.splits sum.splits prod.splits delivery_error.splits)
qed

lemma fan_all_grows: "\<exists>x. snd (snd (snd (fan_all (log_relay sm) k rec links h s))) = snd s @ x"
proof (induction links arbitrary: h s)
  case (Cons link links)
  obtain x where "snd (snd (snd (fan_out (log_relay sm) k rec link h s))) = snd s @ x"
    using fan_out_grows by blast
  with Cons.IH [of "fst (snd (fan_out (log_relay sm) k rec link h s))"
      "snd (snd (fan_out (log_relay sm) k rec link h s))"] show ?case
    by (auto simp: Let_def split_beta)
qed simp

text \<open>
  How a subscriber's queue follows a list of route records: it took every durable one behind
  what it held, or it was cut to a reset naming its own last contiguous sequence and then took
  every durable record after the cut, or its link was closed.
\<close>

definition follows :: "'w relay_seams \<Rightarrow> session_key \<Rightarrow> delivery_binding \<Rightarrow> qrec list \<Rightarrow> delivery_binding \<Rightarrow> bool" where
  "follows sm k b0 recs b \<longleftrightarrow>
     db_last b = db_last b0 \<and>
     (filter durable (qbuf (db_queue b)) = filter durable (qbuf (db_queue b0)) @ filter durable recs \<or>
      (\<exists>pre post tip enc. recs = pre @ post \<and> marshal_reset sm (reset_for k b0 tip) = Inr enc \<and>
         filter durable (qbuf (db_queue b)) = control_record enc # filter durable post))"

definition follows_or_closed ::
  "'w relay_seams \<Rightarrow> session_key \<Rightarrow> link_id \<Rightarrow> delivery_binding \<Rightarrow> qrec list \<Rightarrow>
   host_binding \<times> 'w \<times> relay_call list \<Rightarrow> bool" where
  "follows_or_closed sm k link b0 recs hs \<longleftrightarrow>
     (case hb_deliveries (fst hs) link of
        None \<Rightarrow> \<exists>reason. CallCloseLink link reason \<in> set (snd (snd hs))
      | Some b \<Rightarrow> follows sm k b0 recs b)"

lemma durable_control [simp]: "durable (control_record enc)"
  by (simp add: durable_def droppable_def control_record_def)

lemma reset_for_cong: "db_last b = db_last b0 \<Longrightarrow> reset_for k b tip = reset_for k b0 tip"
  by (simp add: reset_for_def)

lemma follows_enqueue:
  assumes "follows sm k b0 recs b" "fst (enqueue rec (db_queue b)) = None \<or> \<not> durable rec"
  shows "follows sm k b0 (recs @ [rec]) (b\<lparr>db_queue := snd (enqueue rec (db_queue b))\<rparr>)"
proof -
  have e: "filter durable (qbuf (snd (enqueue rec (db_queue b)))) =
      filter durable (qbuf (db_queue b)) @ filter durable [rec]"
    using enqueue_durable [of rec "db_queue b"] assms(2) by auto
  from assms(1) show ?thesis unfolding follows_def e
  proof (elim conjE disjE exE)
    fix pre post tip enc
    assume a: "db_last b = db_last b0" "recs = pre @ post" "marshal_reset sm (reset_for k b0 tip) = Inr enc"
      "filter durable (qbuf (db_queue b)) = control_record enc # filter durable post"
    have "\<exists>pre post tip enc. recs @ [rec] = pre @ post \<and> marshal_reset sm (reset_for k b0 tip) = Inr enc \<and>
        filter durable (qbuf (db_queue b)) @ filter durable [rec] = control_record enc # filter durable post"
      by (rule exI [of _ pre], rule exI [of _ "post @ [rec]"], rule exI [of _ tip], rule exI [of _ enc]) (use a in simp)
    with a e show "db_last (b\<lparr>db_queue := snd (enqueue rec (db_queue b))\<rparr>) = db_last b0 \<and>
      (filter durable (qbuf (db_queue (b\<lparr>db_queue := snd (enqueue rec (db_queue b))\<rparr>))) =
         filter durable (qbuf (db_queue b0)) @ filter durable (recs @ [rec]) \<or>
       (\<exists>pre post tip enc. recs @ [rec] = pre @ post \<and> marshal_reset sm (reset_for k b0 tip) = Inr enc \<and>
         filter durable (qbuf (db_queue (b\<lparr>db_queue := snd (enqueue rec (db_queue b))\<rparr>))) =
           control_record enc # filter durable post))"
      by simp
  qed (simp add: e)
qed

lemma reset_binding_follows:
  assumes "hb_deliveries h link = Some b" "db_last b = db_last b0" "queue_live cap (db_queue b)"
  shows "follows_or_closed sm k link b0 recs (snd (reset_binding (log_relay sm) k tip link h s))"
proof (cases "marshal_reset sm (reset_for k b tip)")
  case (Inl err)
  with assms(1) show ?thesis
    by (auto simp: reset_binding_def close_binding_def follows_or_closed_def)
next
  case (Inr enc)
  have q: "qrepair (control_record enc) (db_queue b) = (None, snd (qrepair (control_record enc) (db_queue b)))"
      "qbuf (snd (qrepair (control_record enc) (db_queue b))) = [control_record enc]"
    using queue_live_qrepair [OF assms(3), of "control_record enc"] by (simp_all add: prod_eq_iff)
  have "marshal_reset sm (reset_for k b0 tip) = Inr enc" using Inr assms(2) by (simp add: reset_for_def)
  then have "follows sm k b0 recs (b\<lparr>db_queue := snd (qrepair (control_record enc) (db_queue b))\<rparr>)"
    unfolding follows_def using q(2) assms(2) by (intro conjI disjI2 exI [of _ recs] exI [of _ "[]"]) auto
  moreover have "reset_binding (log_relay sm) k tip link h s = (None, h\<lparr>hb_deliveries := (hb_deliveries h)(link \<mapsto>
      b\<lparr>db_queue := snd (qrepair (control_record enc) (db_queue b))\<rparr>)\<rparr>, s)"
    using assms(1) Inr q(1) by (auto simp: reset_binding_def split: prod.split option.split)
  ultimately show ?thesis by (simp add: follows_or_closed_def)
qed

lemma fan_out_other: "j \<noteq> link \<Longrightarrow> hb_deliveries (fst (snd (fan_out S k rec link h w))) j = hb_deliveries h j"
  by (simp add: fan_out_def reset_binding_def close_binding_def
      split: option.split sum.split prod.split delivery_error.split)

lemma follows_or_closed_grow:
  "follows_or_closed sm k link b0 recs (h, s) \<Longrightarrow> hb_deliveries h' link = hb_deliveries h link \<Longrightarrow>
    snd s' = snd s @ x \<Longrightarrow> follows_or_closed sm k link b0 recs (h', s')"
  by (auto simp: follows_or_closed_def split: option.splits)

lemma fan_out_follows:
  assumes h: "host_inv sm lim k h" and f: "follows_or_closed sm k link b0 recs (h, s)"
  shows "follows_or_closed sm k link b0 (recs @ [rec]) (snd (fan_out (log_relay sm) k rec link h s))"
  using h
proof (cases rule: fan_out_cases [where rec = rec and link = link and S = "log_relay sm" and w = s])
  case none
  with f show ?thesis by (simp add: follows_or_closed_def)
next
  case (queued b)
  have "fst (enqueue rec (db_queue b)) = None \<or> \<not> durable rec"
    using queued(2) by (cases rec "db_queue b" rule: enqueue_cases) auto
  with f queued(1) have "follows sm k b0 (recs @ [rec]) (b\<lparr>db_queue := snd (enqueue rec (db_queue b))\<rparr>)"
    by (intro follows_enqueue) (simp_all add: follows_or_closed_def)
  with queued(3) show ?thesis by (simp add: follows_or_closed_def)
next
  case (overflow b)
  obtain x s1 where t: "read_tip (log_relay sm) k s = (x, s1)" by (rule prod.exhaust)
  have b: "db_last b = db_last b0" "queue_live (delivery_queue_cap lim) (db_queue b)"
    using f h overflow(1) by (simp_all add: follows_or_closed_def follows_def host_inv_def delivery_inv_def)
  show ?thesis
  proof (cases x)
    case (Inl err)
    with t overflow(3) show ?thesis by (auto simp: follows_or_closed_def close_binding_def)
  next
    case (Inr tip)
    with t overflow(3) reset_binding_follows [OF overflow(1) b, of sm k "recs @ [rec]" tip s1] show ?thesis by simp
  qed
qed

lemma fan_all_follows:
  assumes "host_log_inv sm lim k (h, s)" "pub_rec sm k rec" "distinct links"
    "link \<in> set links \<longrightarrow> follows_or_closed sm k link b0 recs (h, s)"
    "link \<notin> set links \<longrightarrow> follows_or_closed sm k link b0 (recs @ [rec]) (h, s)"
  shows "follows_or_closed sm k link b0 (recs @ [rec]) (snd (fan_all (log_relay sm) k rec links h s))"
  using assms
proof (induction links arbitrary: h s)
  case Nil
  then show ?case by simp
next
  case (Cons j js)
  let ?r = "fan_out (log_relay sm) k rec j h s"
  obtain x where x: "snd (snd (snd ?r)) = snd s @ x" using fan_out_grows by blast
  have keep: "follows_or_closed sm k link b0 rs (fst (snd ?r), snd (snd ?r))"
    if "j \<noteq> link" "follows_or_closed sm k link b0 rs (h, s)" for rs
  proof (rule follows_or_closed_grow [OF that(2) _ x])
    show "hb_deliveries (fst (snd ?r)) link = hb_deliveries h link" using that(1) by (simp add: fan_out_other)
  qed
  have inv: "host_log_inv sm lim k (fst (snd ?r), snd (snd ?r))"
    using fan_out_inv [OF Cons.prems(1,2), of j] by simp
  have "follows_or_closed sm k link b0 (recs @ [rec]) (snd (fan_all (log_relay sm) k rec js (fst (snd ?r)) (snd (snd ?r))))"
  proof (rule Cons.IH [OF inv Cons.prems(2)])
    show "distinct js" using Cons.prems(3) by simp
    show "link \<in> set js \<longrightarrow> follows_or_closed sm k link b0 recs (fst (snd ?r), snd (snd ?r))"
      using Cons.prems(3,4) keep by auto
    have "follows_or_closed sm k j b0 (recs @ [rec]) (snd ?r)" if "j = link"
      using fan_out_follows [of sm lim k h j b0 recs s rec] Cons.prems(1,4) that by (simp add: host_log_inv_def)
    then show "link \<notin> set js \<longrightarrow> follows_or_closed sm k link b0 (recs @ [rec]) (fst (snd ?r), snd (snd ?r))"
      using Cons.prems(5) keep by auto
  qed
  then show ?case by (simp add: Let_def split_beta)
qed

lemma pump_loop_follows:
  "host_log_inv sm lim k (h, s) \<Longrightarrow> follows_or_closed sm k link b0 recs (h, s) \<Longrightarrow>
    follows_or_closed sm k link b0 (recs @ qbuf (hb_queue h)) (snd (pump_loop (log_relay sm) k h s))"
proof (induction "log_relay sm" k h s arbitrary: recs rule: pump_loop.induct)
  case (1 k h s)
  obtain x q where q: "qnext (hb_queue h) = (x, q)" by (rule prod.exhaust)
  have live: "queue_live (host_queue_cap lim) (hb_queue h)" using "1.prems"(1) by (simp add: host_log_inv_def host_inv_def)
  show ?case
  proof (cases x)
    case None
    then have "qbuf (hb_queue h) = []"
      using q live by (auto simp: qnext_def queue_live_def split: list.splits if_splits)
    with q None "1.prems"(2) show ?thesis
      by (simp add: pump_loop.simps [of _ k h] follows_or_closed_def split: option.splits)
  next
    case (Some rec)
    let ?h = "h\<lparr>hb_queue := q\<rparr>"
    let ?r = "fan_all (log_relay sm) k rec (sorted_bindings ?h) ?h s"
    have buf: "qbuf (hb_queue h) = rec # qbuf q" using q Some qnext_Some [of "hb_queue h" rec] by simp
    have h1: "host_log_inv sm lim k (?h, s)"
      using "1.prems"(1) buf queue_live_qnext [OF live] q by (auto simp: host_log_inv_def host_inv_def)
    have rec: "pub_rec sm k rec" using "1.prems"(1) buf by (simp add: host_log_inv_def host_inv_def)
    have f1: "follows_or_closed sm k link b0 rs (?h, s) = follows_or_closed sm k link b0 rs (h, s)" for rs
      by (simp add: follows_or_closed_def split: option.split)
    have dom: "set (sorted_bindings ?h) = dom (hb_deliveries h)"
      using "1.prems"(1) by (simp add: sorted_bindings_def host_log_inv_def host_inv_def)
    have "follows_or_closed sm k link b0 (recs @ [rec]) (snd ?r)"
    proof (rule fan_all_follows [OF h1 rec])
      show "distinct (sorted_bindings ?h)" by (simp add: sorted_bindings_def)
      show "link \<in> set (sorted_bindings ?h) \<longrightarrow> follows_or_closed sm k link b0 recs (?h, s)"
        using "1.prems"(2) f1 by simp
      show "link \<notin> set (sorted_bindings ?h) \<longrightarrow> follows_or_closed sm k link b0 (recs @ [rec]) (?h, s)"
        using "1.prems"(2) dom by (auto simp: follows_or_closed_def split: option.splits)
    qed
    moreover have "host_log_inv sm lim k (fst (snd ?r), snd (snd ?r))" using fan_all_inv [OF h1 rec] by simp
    ultimately have "follows_or_closed sm k link b0 ((recs @ [rec]) @ qbuf (hb_queue (fst (snd ?r))))
        (snd (pump_loop (log_relay sm) k (fst (snd ?r)) (snd (snd ?r))))"
      by (intro "1.hyps" [OF q [symmetric] Some refl refl]) simp_all
    with q Some buf show ?thesis by (simp add: pump_loop.simps [of _ k h] Let_def)
  qed
qed

lemma follows_start: "hb_deliveries h link = Some b0 \<Longrightarrow> follows_or_closed sm k link b0 [] (h, s)"
  by (simp add: follows_or_closed_def follows_def)

section \<open>What a drain publishes\<close>

text \<open>
  A drain that stopped after publishing the first \<open>n\<close> records: the queue keeps the others, the
  binding advanced over the published ones, and the log has one accepted publish for each,
  followed by one refused publish unless the queue was emptied.
\<close>

definition drain_end :: "link_id \<Rightarrow> session_key \<Rightarrow> qrec list \<Rightarrow> nat \<Rightarrow> rerr option \<Rightarrow> relay_call list \<Rightarrow> bool" where
  "drain_end link k buf n e rest \<longleftrightarrow>
     (if n = length buf then rest = [] \<and> e = None
      else n < length buf \<and>
        (\<exists>err. rest = [CallPublish link k (rec_encoded (buf ! n)) (Some err)] \<and>
           e = (if errors_is ErrWouldBlock err then None else Some err)))"

definition published :: "qrec list \<Rightarrow> delivery_binding \<Rightarrow> delivery_binding" where
  "published recs b = fold advance recs b"

definition drained_to ::
  "session_key \<Rightarrow> delivery_binding \<Rightarrow> relay_call list \<Rightarrow> nat \<Rightarrow> rerr option \<Rightarrow> delivery_binding \<Rightarrow> relay_call list \<Rightarrow> bool" where
  "drained_to k b l n e b' l' \<longleftrightarrow>
     b' = (published (take n (qbuf (db_queue b))) b)\<lparr>db_queue := (db_queue b)\<lparr>qbuf := drop n (qbuf (db_queue b))\<rparr>\<rparr> \<and>
     (\<exists>rest. l' = l @ map (\<lambda>x. CallPublish (db_link b) k (rec_encoded x) None) (take n (qbuf (db_queue b))) @ rest \<and>
        drain_end (db_link b) k (qbuf (db_queue b)) n e rest)"

lemma drain_end_Cons: "drain_end link k (x # xs) (Suc n) e rest = drain_end link k xs n e rest"
  by (simp add: drain_end_def)

lemma advance_upd_queue: "advance x (b\<lparr>db_queue := q\<rparr>) = (advance x b)\<lparr>db_queue := q\<rparr>"
  by (simp add: advance_def Let_def)

lemma published_queue: "(published xs (b\<lparr>db_queue := q\<rparr>))\<lparr>db_queue := q'\<rparr> = (published xs b)\<lparr>db_queue := q'\<rparr>"
  by (induction xs arbitrary: b) (simp_all add: published_def advance_upd_queue)

lemma drained_to_step:
  assumes "qbuf (db_queue b) = rec # rest"
    "drained_to k (advance rec (b\<lparr>db_queue := (db_queue b)\<lparr>qbuf := rest\<rparr>\<rparr>))
       (l @ [CallPublish (db_link b) k (rec_encoded rec) None]) n e b' l'"
  shows "drained_to k b l (Suc n) e b' l'"
proof -
  let ?b = "b\<lparr>db_queue := (db_queue b)\<lparr>qbuf := rest\<rparr>\<rparr>"
  let ?q = "(db_queue b)\<lparr>qbuf := drop n rest\<rparr>"
  have "(published (take n rest) (advance rec ?b))\<lparr>db_queue := ?q\<rparr> = (published (rec # take n rest) b)\<lparr>db_queue := ?q\<rparr>"
    using published_queue [where xs = "rec # take n rest" and b = b and q = "(db_queue b)\<lparr>qbuf := rest\<rparr>" and q' = ?q] by (simp add: published_def)
  with assms show ?thesis by (auto simp: drained_to_def drain_end_Cons)
qed

lemma drain_loop_prefix:
  "\<not> qclosed (db_queue b) \<Longrightarrow> drain_loop (log_relay sm) k b s = (e, b', s') \<Longrightarrow>
    \<exists>n \<le> length (qbuf (db_queue b)). drained_to k b (snd s) n e b' (snd s')"
proof (induction "log_relay sm" k b s arbitrary: e rule: drain_loop.induct)
  case (1 k b s)
  show ?case
  proof (cases "qbuf (db_queue b)")
    case Nil
    then have "(db_queue b)\<lparr>qbuf := []\<rparr> = db_queue b" by simp
    with Nil "1.prems" show ?thesis
      by (auto simp: drain_loop.simps [of _ k b] qhead_def drained_to_def drain_end_def published_def)
  next
    case (Cons rec rest)
    have hd: "qhead (db_queue b) = Some rec" using Cons "1.prems"(1) by (simp add: qhead_def)
    obtain err s1 where p: "publish (log_relay sm) (db_link b) k (rec_encoded rec) s = (err, s1)" by (rule prod.exhaust)
    have l1: "snd s1 = snd s @ [CallPublish (db_link b) k (rec_encoded rec) err]"
      using log_relay_snd(5) [of sm "db_link b" k "rec_encoded rec" s] p by simp
    show ?thesis
    proof (cases err)
      case (Some er)
      have "e = (if errors_is ErrWouldBlock er then None else Some er) \<and> b' = b \<and> s' = s1"
        using hd p "1.prems"(2) Some by (simp add: drain_loop.simps [of _ k b] err_is_def split: if_splits)
      moreover have "(db_queue b)\<lparr>qbuf := rec # rest\<rparr> = db_queue b" using Cons by simp
      ultimately have "drained_to k b (snd s) 0 e b' (snd s')"
        using Cons l1 Some by (simp add: drained_to_def drain_end_def published_def)
      then show ?thesis by blast
    next
      case None
      have q: "snd (qnext (db_queue b)) = (db_queue b)\<lparr>qbuf := rest\<rparr>" using Cons "1.prems"(1) by (simp add: qnext_def)
      let ?b = "advance rec (b\<lparr>db_queue := (db_queue b)\<lparr>qbuf := rest\<rparr>\<rparr>)"
      have run: "drain_loop (log_relay sm) k ?b s1 = (e, b', s')"
        using hd p None q "1.prems"(2) by (simp add: drain_loop.simps [of _ k b])
      have "\<exists>n \<le> length (qbuf (db_queue ?b)). drained_to k ?b (snd s1) n e b' (snd s')"
        using "1.hyps" [OF hd p [symmetric]] None q run "1.prems"(1) by simp
      then obtain n where "n \<le> length rest" "drained_to k ?b (snd s1) n e b' (snd s')" by auto
      with drained_to_step [OF Cons] l1 None Cons show ?thesis by (intro exI [of _ "Suc n"]) simp
    qed
  qed
qed

text \<open>What advancing over a list of records vouches for.\<close>

definition seqs :: "qrec list \<Rightarrow> u64 list" where
  "seqs recs = map rec_seq (filter (\<lambda>x. rec_class x = ClassEnduring) recs)"

lemma seqs_simps [simp]:
  "seqs [] = []" "seqs (x # xs) = (if rec_class x = ClassEnduring then rec_seq x # seqs xs else seqs xs)"
  by (simp_all add: seqs_def)

text \<open>
  The run from the first published sequence to the last contiguous one, each a step of one,
  as a sublist of what was published.
\<close>

definition runs_to :: "u64 \<Rightarrow> u64 \<Rightarrow> u64 list \<Rightarrow> bool" where
  "runs_to first stop published_seqs \<longleftrightarrow>
     (\<exists>n. stop = first + of_nat n \<and> subseq (map (\<lambda>i. first + of_nat i) [0 ..< Suc n]) published_seqs)"

lemma runs_to_keep: "runs_to a z xs \<Longrightarrow> runs_to a z (xs @ [y])"
  by (auto simp: runs_to_def intro: subseq_order.order_trans [OF _ subseq_rev_drop_many])

lemma runs_to_step: "runs_to a z xs \<Longrightarrow> runs_to a (z + 1) (xs @ [z + 1])"
proof -
  assume "runs_to a z xs"
  then obtain n where n: "z = a + of_nat n" "subseq (map (\<lambda>i. a + of_nat i) [0 ..< Suc n]) xs"
    by (auto simp: runs_to_def)
  from n(2) have "subseq (map (\<lambda>i. a + of_nat i) [0 ..< Suc n] @ [z + 1]) (xs @ [z + 1])"
    by (rule list_emb_append_mono) simp
  moreover have "map (\<lambda>i. a + of_nat i) [0 ..< Suc n] @ [z + 1] = map (\<lambda>i. a + of_nat i) [0 ..< Suc (Suc n)]"
    using n(1) by (simp add: algebra_simps)
  ultimately show ?thesis using n(1) by (auto simp: runs_to_def algebra_simps intro!: exI [of _ "Suc n"])
qed

lemma published_counts: "db_forwarded (published recs b) = db_forwarded b + of_nat (length (seqs recs))"
  by (induction recs arbitrary: b) (simp_all add: published_def advance_def Let_def algebra_simps)

lemma published_append: "published (xs @ [x]) b = advance x (published xs b)"
  by (simp add: published_def)

lemma published_runs:
  assumes "db_forwarded b = 0" "length (seqs recs) < 2 ^ 64"
  shows "if seqs recs = [] then db_last (published recs b) = db_last b
         else runs_to (hd (seqs recs)) (db_last (published recs b)) (seqs recs)"
  using assms(2)
proof (induction recs rule: rev_induct)
  case Nil
  then show ?case by (simp add: published_def)
next
  case (snoc x xs)
  have sx: "seqs (xs @ [x]) = seqs xs @ (if rec_class x = ClassEnduring then [rec_seq x] else [])"
    by (simp add: seqs_def)
  show ?case
  proof (cases "rec_class x = ClassEnduring")
    case False
    with snoc sx show ?thesis by (simp add: published_append advance_def)
  next
    case True
    have len: "length (seqs xs) < 2 ^ 64" using snoc.prems sx by (simp split: if_splits)
    have fwd: "db_forwarded (published xs b) = 0 \<longleftrightarrow> seqs xs = []"
      using published_counts [of xs b] assms(1) len nat_dvd_not_less [of "length (seqs xs)" "2 ^ 64"]
      by (auto simp: word_of_nat_eq_0_iff)
    show ?thesis
    proof (cases "seqs xs = []")
      case True2: True
      have "runs_to (rec_seq x) (rec_seq x) [rec_seq x]" by (auto simp: runs_to_def intro!: exI [of _ 0])
      with True True2 sx fwd show ?thesis by (simp add: published_append advance_def Let_def)
    next
      case False
      with snoc.IH len have run: "runs_to (hd (seqs xs)) (db_last (published xs b)) (seqs xs)" by simp
      show ?thesis
      proof (cases "rec_seq x = db_last (published xs b) + 1")
        case eq: True
        with runs_to_step [OF run] True False sx fwd show ?thesis
          by (simp add: published_append advance_def Let_def)
      next
        case neq: False
        with runs_to_keep [OF run] True False sx fwd show ?thesis
          by (simp add: published_append advance_def Let_def)
      qed
    qed
  qed
qed

section \<open>What a reset leaves\<close>

definition reset_result :: "'w relay_seams \<Rightarrow> session_key \<Rightarrow> u64 \<Rightarrow> delivery_binding \<Rightarrow> delivery_binding option" where
  "reset_result sm k tip b =
     (case marshal_reset sm (reset_for k b tip) of
        Inl err \<Rightarrow> None
      | Inr enc \<Rightarrow> Some (b\<lparr>db_queue := (db_queue b)\<lparr>qbuf := [control_record enc]\<rparr>\<rparr>))"

lemma reset_binding_effect:
  assumes "host_inv sm lim k h" "reset_binding S k tip link h w = (err, h', w')"
    "marshal_reset S = marshal_reset sm"
  shows "h' = h\<lparr>hb_deliveries := (hb_deliveries h)(link := Option.bind (hb_deliveries h link) (reset_result sm k tip))\<rparr>"
proof (cases "hb_deliveries h link")
  case None
  then have "(hb_deliveries h)(link := None) = hb_deliveries h" by (simp add: fun_upd_idem)
  with None assms(2) show ?thesis by (simp add: reset_binding_def)
next
  case (Some b)
  then have "queue_live (delivery_queue_cap lim) (db_queue b)"
    using assms(1) by (simp add: host_inv_def delivery_inv_def)
  with Some assms(2,3) show ?thesis
    by (auto simp: reset_binding_def close_binding_def reset_result_def qrepair_def queue_live_def split: sum.splits)
qed

lemma reset_result_inv:
  "delivery_inv sm lim k link b \<Longrightarrow> reset_result sm k tip b = Some b' \<Longrightarrow> delivery_inv sm lim k link b'"
  by (auto 4 6 simp: reset_result_def delivery_inv_def queue_live_def queue_ok_def out_rec_def control_record_def
      is_reset_def reset_for_def split: sum.splits)

lemma reset_all_effect:
  assumes "host_inv sm lim k h" "reset_all S k tip links h w = (errs, h', w')" "distinct links"
    "marshal_reset S = marshal_reset sm"
  shows "h' = h\<lparr>hb_deliveries := (\<lambda>j. if j \<in> set links then Option.bind (hb_deliveries h j) (reset_result sm k tip)
                                        else hb_deliveries h j)\<rparr>"
  using assms
proof (induction links arbitrary: h w errs)
  case Nil
  then show ?case by simp
next
  case (Cons link links)
  obtain e h1 w1 where r: "reset_binding S k tip link h w = (e, h1, w1)" by (metis prod_cases3)
  note h1 = reset_binding_effect [OF Cons.prems(1) r Cons.prems(4)]
  have "host_inv sm lim k h1"
    unfolding h1 using Cons.prems(1)
    by (cases "hb_deliveries h link"; cases "reset_result sm k tip (the (hb_deliveries h link))")
      (auto simp: host_inv_remove fun_upd_idem intro!: host_inv_store intro: reset_result_inv
        simp: host_inv_def)
  moreover obtain es where "reset_all S k tip links h1 w1 = (es, h', w')"
    using Cons.prems(2) r by (auto split: prod.splits)
  ultimately have "h' = h1\<lparr>hb_deliveries := (\<lambda>j. if j \<in> set links then
      Option.bind (hb_deliveries h1 j) (reset_result sm k tip) else hb_deliveries h1 j)\<rparr>"
    using Cons.IH Cons.prems(3,4) by simp
  with h1 Cons.prems(3) show ?case by (auto simp: fun_eq_iff)
qed

lemma close_all_effect:
  "fst (close_all S reason links h w) =
    h\<lparr>hb_deliveries := (\<lambda>j. if j \<in> set links then None else hb_deliveries h j)\<rparr>"
proof (induction links arbitrary: h w)
  case (Cons link links)
  show ?case
    by (auto simp: Cons.IH close_binding_def fun_eq_iff split_beta)
qed simp

lemma reset_everyone:
  assumes "host_inv sm lim k h" "reset_all S k tip (sorted_bindings h) h w = (errs, h', w')"
    "marshal_reset S = marshal_reset sm"
  shows "h' = h\<lparr>hb_deliveries := (\<lambda>j. Option.bind (hb_deliveries h j) (reset_result sm k tip))\<rparr>"
proof -
  have fin: "finite (dom (hb_deliveries h))" using assms(1) by (simp add: host_inv_def)
  have "distinct (sorted_bindings h)" by (simp add: sorted_bindings_def)
  from reset_all_effect [OF assms(1,2) this assms(3)] fin show ?thesis
    by (auto simp: sorted_bindings_def fun_eq_iff domIff)
qed

lemma sorted_bindings_set: "finite (dom (hb_deliveries h)) \<Longrightarrow> set (sorted_bindings h) = dom (hb_deliveries h)"
  by (simp add: sorted_bindings_def)

lemma close_everyone:
  assumes "finite (dom (hb_deliveries h))"
  shows "fst (close_all S reason (sorted_bindings h) h w) = h\<lparr>hb_deliveries := Map.empty\<rparr>"
  using assms by (auto simp: close_all_effect sorted_bindings_set fun_eq_iff domIff)

text \<open>The only calls resets and closes make are closes of the links they visit.\<close>

definition closes_of :: "link_id set \<Rightarrow> relay_call list \<Rightarrow> bool" where
  "closes_of L cs \<longleftrightarrow> (\<forall>c \<in> set cs. \<exists>link \<in> L. \<exists>reason. c = CallCloseLink link reason)"

lemma reset_binding_calls:
  "\<exists>cs. snd (snd (snd (reset_binding (log_relay sm) k tip link h s))) = snd s @ cs \<and> closes_of {link} cs"
  by (auto simp: reset_binding_def close_binding_def closes_of_def split: option.splits sum.splits prod.splits)

lemma reset_all_calls:
  "\<exists>cs. snd (snd (snd (reset_all (log_relay sm) k tip links h s))) = snd s @ cs \<and> closes_of (set links) cs"
proof (induction links arbitrary: h s)
  case Nil
  then show ?case by (simp add: closes_of_def)
next
  case (Cons link links)
  let ?r = "reset_binding (log_relay sm) k tip link h s"
  obtain cs where cs: "snd (snd (snd ?r)) = snd s @ cs" "closes_of {link} cs" using reset_binding_calls by blast
  obtain cs' where "snd (snd (snd (reset_all (log_relay sm) k tip links (fst (snd ?r)) (snd (snd ?r))))) =
      snd (snd (snd ?r)) @ cs'" "closes_of (set links) cs'"
    using Cons.IH by blast
  with cs show ?case
    by (intro exI [of _ "cs @ cs'"]) (auto simp: closes_of_def Let_def split_beta)
qed

lemma close_all_calls:
  "\<exists>cs. snd (snd (close_all (log_relay sm) reason links h s)) = snd s @ cs \<and> closes_of (set links) cs"
proof (induction links arbitrary: h s)
  case Nil
  then show ?case by (simp add: closes_of_def)
next
  case (Cons link links)
  let ?r = "close_binding (log_relay sm) link reason h s"
  have "snd (snd ?r) = snd s @ [CallCloseLink link reason]" by (simp add: close_binding_def)
  moreover obtain cs' where "snd (snd (close_all (log_relay sm) reason links (fst ?r) (snd ?r))) =
      snd (snd ?r) @ cs'" "closes_of (set links) cs'"
    using Cons.IH by blast
  ultimately show ?case
    by (intro exI [of _ "CallCloseLink link reason # cs'"]) (auto simp: closes_of_def split_beta)
qed

definition idle_window :: "'w window" where
  "idle_window i r w = (r, w)"

lemma unlocked_idle [simp]: "unlocked idle_window i f r w = (fst (f w), r, snd (f w))"
  by (simp add: unlocked_def idle_window_def split_beta)

text \<open>What the locked section of a repair leaves of a host binding, by the tip it was given.\<close>

definition repaired :: "'w relay_seams \<Rightarrow> session_key \<Rightarrow> rerr + u64 \<Rightarrow> host_binding \<Rightarrow> host_binding" where
  "repaired sm k tip h =
     (case tip of
        Inl err \<Rightarrow> h\<lparr>hb_queue := (hb_queue h)\<lparr>qbuf := []\<rparr>, hb_deliveries := Map.empty\<rparr>
      | Inr n \<Rightarrow> h\<lparr>hb_queue := (hb_queue h)\<lparr>qbuf := []\<rparr>,
                   hb_deliveries := (\<lambda>j. Option.bind (hb_deliveries h j) (reset_result sm k n)),
                   hb_tail_seq := n, hb_tail_known := True\<rparr>)"

lemma repair_section_effect:
  assumes "host_inv sm lim k h" "repair_section (log_relay sm) k tip h s = (errs, n, h', s')"
  shows "h' = repaired sm k tip h \<and> n = (case tip of Inl err \<Rightarrow> 0 | Inr m \<Rightarrow> m) \<and>
    (\<exists>cs. snd s' = snd s @ cs \<and> closes_of (dom (hb_deliveries h)) cs)"
proof -
  have fin: "finite (dom (hb_deliveries h))" and open': "\<not> qclosed (hb_queue h)"
    using assms(1) by (simp_all add: host_inv_def queue_live_def)
  show ?thesis
  proof (cases tip)
    case (Inl err)
    let ?c = "close_all (log_relay sm) ''repair tip unavailable'' (sorted_bindings h) h s"
    obtain cs where "snd (snd ?c) = snd s @ cs" "closes_of (set (sorted_bindings h)) cs" using close_all_calls by blast
    with Inl assms(2) fin open' close_everyone [OF fin, of "log_relay sm" "''repair tip unavailable''" s] show ?thesis
      by (auto simp: repair_section_def repaired_def qclear_def sorted_bindings_set split_beta)
  next
    case (Inr m)
    obtain es h1 s1 where r: "reset_all (log_relay sm) k m (sorted_bindings h) h s = (es, h1, s1)"
      by (metis prod_cases3)
    obtain cs where "snd s1 = snd s @ cs" "closes_of (set (sorted_bindings h)) cs"
      using reset_all_calls [of sm k m "sorted_bindings h" h s] r by auto
    with Inr assms(2) fin open' r reset_everyone [OF assms(1) r] show ?thesis
      by (auto simp: repair_section_def repaired_def qclear_def sorted_bindings_set anchor_locked_def Let_def)
  qed
qed

section \<open>Properties\<close>

text \<open>
  C3. Tenant isolation of the live tail. In every run of the relay, under every interleaving
  its windows allow, each record handed to the transport for a session is one Core decodes as
  that tenant's and that session's own publication, or a reset the relay itself built for that
  session. A Host that mislabels a record cannot have it published on another session's
  channel, and no control a Host sends is ever published.
\<close>

theorem published_records_belong_to_session:
  assumes "new_relay a b c d lim = Inr r0" "relay_window sm f" "f r0 (w0, []) = (r, w, l)"
    "CallPublish link k enc err \<in> set l"
  shows "carries_session (rl_core sm) k enc \<or> is_reset sm k enc"
  using relay_run_inv [OF assms(1-3)] assms(4) by (auto simp: relay_inv_def log_inv_def)

definition sample_tail_codec :: core_codec where
  \<comment> \<open>A record is enduring when it starts with e, its sequence is its length, and any other
     record is ephemeral; a record starting with f names another session.\<close>
  "sample_tail_codec =
     \<lparr>record_type_of = \<lambda>e. (case e of [] \<Rightarrow> Inl (Opaque ''empty'')
         | c # _ \<Rightarrow> Inr (if c = CHR ''e'' then RTEnduring else RTEphemeral)),
      unmarshal_enduring = \<lambda>e. Inr \<lparr>pub_tenant = ''t'', pub_session = ''s'', pub_event = ''v'',
         pub_seq = of_nat (length e), pub_covered = of_nat (length e), pub_body = e\<rparr>,
      unmarshal_ephemeral = \<lambda>e. Inr \<lparr>eph_tenant = ''t'', eph_session = (if hd e = CHR ''f'' then ''other'' else ''s'')\<rparr>\<rparr>"

definition sample_relay_seams :: "unit relay_seams" where
  "sample_relay_seams =
     \<lparr>rl_core = sample_tail_codec,
      rl_read = \<lambda>q w. (Inr \<lparr>jp_events = [3], jp_covered = 9, jp_tip = 9\<rparr>, w),
      rl_rebind = \<lambda>k w. (None, w), tail_stop = \<lambda>k w. (None, w), tail_resume = \<lambda>k n w. (None, w),
      publish = \<lambda>link k e w. (None, w), close_link = \<lambda>link reason w. (None, w),
      marshal_reset = \<lambda>x. if reset_last x \<le> reset_tip x then Inr ''reset'' else Inl (Opaque ''incoherent''),
      max_gap_probe = 100\<rparr>"

definition sample_delivery :: "qrec list \<Rightarrow> delivery_binding" where
  "sample_delivery buf = \<lparr>db_link = ''l'', db_queue = \<lparr>qcapacity = 2, qclosed = False, qbuf = buf\<rparr>,
     db_last = 0, db_forwarded = 0\<rparr>"

definition sample_host :: "qrec list \<Rightarrow> qrec list \<Rightarrow> host_binding" where
  "sample_host hq dq = \<lparr>hb_id = 0, hb_queue = \<lparr>qcapacity = 2, qclosed = False, qbuf = hq\<rparr>, hb_stopped = False,
     hb_deliveries = [''l'' \<mapsto> sample_delivery dq], hb_tail_seq = 1, hb_tail_known = True\<rparr>"

definition sample_limits :: repair_limits where
  "sample_limits = \<lparr>host_queue_cap = 2, delivery_queue_cap = 2\<rparr>"

definition sample_relay :: "(session_key \<rightharpoonup> host_binding) \<Rightarrow> relay" where
  "sample_relay hs = \<lparr>rl_closed = False, rl_hosts = hs, rl_foreign = 0, rl_limits = sample_limits, rl_next = 1\<rparr>"

definition sample_enduring :: "nat \<Rightarrow> qrec" where
  "sample_enduring n = \<lparr>rec_class = ClassEnduring, rec_encoded = replicate n CHR ''e'', rec_seq = of_nat n,
     coalesce_key = []\<rparr>"

lemma sample_enduring_rec: "0 < n \<Longrightarrow> pub_rec sample_relay_seams sample_key (sample_enduring n)"
  by (cases n) (auto simp: pub_rec_def carries_session_def sample_enduring_def sample_relay_seams_def sample_tail_codec_def
      sample_key_def)

lemma sample_host_inv:
  "\<forall>n \<in> set hq. 0 < n \<Longrightarrow> length hq \<le> 2 \<Longrightarrow> \<forall>n \<in> set dq. 0 < n \<Longrightarrow> length dq \<le> 2 \<Longrightarrow>
    host_inv sample_relay_seams sample_limits sample_key
      (sample_host (map sample_enduring hq) (map sample_enduring dq))"
  by (auto simp: host_inv_def sample_host_def queue_live_def queue_ok_def sample_limits_def delivery_inv_def
      sample_delivery_def out_rec_def sample_enduring_rec split: if_splits)

lemma sorted_one: "sorted_bindings (sample_host hq dq) = [''l'']"
  by (simp add: sorted_bindings_def sample_host_def)

definition sample_fresh_host :: "qrec list \<Rightarrow> qrec list \<Rightarrow> u64 \<Rightarrow> host_binding" where
  "sample_fresh_host hq dq n = \<lparr>hb_id = 0, hb_queue = \<lparr>qcapacity = 2, qclosed = False, qbuf = hq\<rparr>,
     hb_stopped = False, hb_deliveries = [''l'' \<mapsto> sample_delivery dq], hb_tail_seq = n, hb_tail_known = False\<rparr>"

definition sample_frame :: "bytes \<Rightarrow> tail_frame" where
  "sample_frame e = \<lparr>fr_encoded = e, fr_committed = 9, fr_coalesce = []\<rparr>"

lemma sample_new_relay:
  "new_relay True True True True sample_limits =
    Inr \<lparr>rl_closed = False, rl_hosts = Map.empty, rl_foreign = 0, rl_limits = sample_limits, rl_next = 0\<rparr>"
  by (simp add: new_relay_def repair_limits_validate_def sample_limits_def)

lemma sample_subscribe:
  "snd (subscribe sample_key ''l'' (snd (relay_open sample_key
     \<lparr>rl_closed = False, rl_hosts = Map.empty, rl_foreign = 0, rl_limits = sample_limits, rl_next = 0\<rparr>))) =
    sample_relay [sample_key \<mapsto> sample_fresh_host [] [] 0]"
  by (simp add: subscribe_def relay_open_def new_queue_def sample_limits_def sample_relay_def sample_fresh_host_def
      sample_delivery_def)

lemma sample_classify: "classify (rl_core (log_relay sample_relay_seams)) sample_key (sample_frame ''e'') = Inr (sample_enduring 1)"
  by (simp add: classify_def parse_enduring_def sample_relay_seams_def sample_tail_codec_def sample_frame_def
      owns_def sample_key_def enduring_record_def sample_enduring_def)

lemma sample_receive:
  "receive (log_relay sample_relay_seams) env sample_key (sample_frame ''e'')
     (sample_relay [sample_key \<mapsto> sample_fresh_host [] [] 0]) s =
    (None, sample_relay [sample_key \<mapsto> sample_fresh_host [sample_enduring 1] [] 1], s)"
  using sample_classify
  by (simp add: receive_def sample_relay_def sample_fresh_host_def receive_enqueue_def enqueue_def sample_enduring_def)

lemma sample_pump:
  "snd (snd (snd (pump (log_relay sample_relay_seams) sample_key
      (sample_relay [sample_key \<mapsto> sample_fresh_host [sample_enduring 1] [] 1]) ((), [])))) =
    [CallPublish ''l'' sample_key ''e'' None]"
  by (simp add: pump_def sample_relay_def pump_loop.simps [where k = sample_key] sample_fresh_host_def qnext_def
      sorted_bindings_def fan_out_def enqueue_def drain_def sample_delivery_def
      drain_loop.simps [where k = sample_key] qhead_def log_relay_def sample_relay_seams_def sample_enduring_def
      advance_def)

theorem published_records_belong_to_session_witness:
  "\<exists>f r0 r w l. new_relay True True True True sample_limits = Inr r0 \<and> relay_window sample_relay_seams f \<and>
     f r0 ((), []) = (r, w, l) \<and> CallPublish ''l'' sample_key ''e'' None \<in> set l \<and>
     (carries_session (rl_core sample_relay_seams) sample_key ''e'' \<or> is_reset sample_relay_seams sample_key ''e'')"
proof -
  let ?sm = sample_relay_seams
  let ?init = "\<lparr>rl_closed = False, rl_hosts = Map.empty, rl_foreign = 0, rl_limits = sample_limits, rl_next = 0\<rparr>"
  let ?idle = "\<lambda>(i :: nat) r s. (r :: relay, s :: unit \<times> relay_call list)"
  let ?f1 = "\<lambda>r s. (snd (relay_open sample_key r), s :: unit \<times> relay_call list)"
  let ?f2 = "\<lambda>r s. (snd (subscribe sample_key ''l'' r), s :: unit \<times> relay_call list)"
  let ?f3 = "\<lambda>r s. snd (receive (log_relay ?sm) ?idle sample_key (sample_frame ''e'') r s)"
  let ?f4 = "\<lambda>r s. snd (pump (log_relay ?sm) sample_key r s)"
  let ?g2 = "\<lambda>r s. ?f2 (fst (?f1 r s)) (snd (?f1 r s))"
  let ?g3 = "\<lambda>r s. ?f3 (fst (?g2 r s)) (snd (?g2 r s))"
  let ?g4 = "\<lambda>r s. ?f4 (fst (?g3 r s)) (snd (?g3 r s))"
  have w3: "relay_window ?sm ?f3" by (rule relay_window.receives) (simp add: relay_window.idle)
  have w2: "relay_window ?sm ?g2"
    by (rule relay_window.sequel [OF relay_window.opens relay_window.subscribes])
  have w: "relay_window ?sm ?g4"
    by (rule relay_window.sequel [OF relay_window.sequel [OF w2 w3] relay_window.pumps])
  note new = sample_new_relay
  obtain r w' l where run: "?g4 ?init ((), []) = (r, w', l)" by (metis prod_cases3)
  then have "l = [CallPublish ''l'' sample_key ''e'' None]"
    using sample_pump by (simp add: sample_subscribe sample_receive)
  then have mem: "CallPublish ''l'' sample_key ''e'' None \<in> set l" by simp
  from published_records_belong_to_session [OF new w run mem] new w run mem show ?thesis by blast
qed

text \<open>
  Every queue of the relay is open and within its bound in every run: a route queue never
  holds more records than the host-binding limit and a subscriber's queue never more than the
  delivery-binding limit, so the error the code calls unreachable, a live binding with a closed
  queue, is unreachable.
\<close>

theorem relay_queues_bounded:
  assumes "new_relay a b c d lim = Inr r0" "relay_window sm f" "f r0 (w0, []) = (r, w, l)"
    "rl_hosts r k = Some h"
  shows "\<not> qclosed (hb_queue h) \<and> qlen (hb_queue h) \<le> host_queue_cap (rl_limits r) \<and>
    (\<forall>link v. hb_deliveries h link = Some v \<longrightarrow>
       \<not> qclosed (db_queue v) \<and> qlen (db_queue v) \<le> delivery_queue_cap (rl_limits r))"
proof -
  have "host_inv sm (rl_limits r) k h" using relay_run_inv [OF assms(1-3)] assms(4) by (auto simp: relay_inv_def)
  then show ?thesis using queue_live_bounds unfolding host_inv_def delivery_inv_def by blast
qed

theorem relay_queues_bounded_witness:
  "\<exists>f r w l h. relay_window sample_relay_seams f \<and>
     f \<lparr>rl_closed = False, rl_hosts = Map.empty, rl_foreign = 0, rl_limits = sample_limits, rl_next = 0\<rparr> ((), []) = (r, w, l) \<and>
     rl_hosts r sample_key = Some h \<and> \<not> qclosed (hb_queue h) \<and> qlen (hb_queue h) \<le> host_queue_cap (rl_limits r)"
proof -
  let ?init = "\<lparr>rl_closed = False, rl_hosts = Map.empty, rl_foreign = 0, rl_limits = sample_limits, rl_next = 0\<rparr>"
  let ?f = "\<lambda>r s. (snd (relay_open sample_key r), s :: unit \<times> relay_call list)"
  let ?h = "\<lparr>hb_id = 0, hb_queue = \<lparr>qcapacity = 2, qclosed = False, qbuf = []\<rparr>, hb_stopped = False,
    hb_deliveries = Map.empty, hb_tail_seq = 0, hb_tail_known = False\<rparr>"
  let ?r = "?init\<lparr>rl_hosts := [sample_key \<mapsto> ?h], rl_next := 1\<rparr>"
  note new = sample_new_relay
  have w: "relay_window sample_relay_seams ?f" by (rule relay_window.opens)
  have run: "?f ?init ((), []) = (?r, (), [])" by (simp add: relay_open_def new_queue_def sample_limits_def)
  have h: "rl_hosts ?r sample_key = Some ?h" by simp
  from relay_queues_bounded [OF new w run h] w run h show ?thesis by blast
qed

text \<open>
  C22. A durable record is never discarded silently. When a pump moves the route queue to the
  subscribers, each subscriber present either took every durable record of the route queue, in
  order and behind every durable record it held; or was cut to a reset that names its own last
  contiguous sequence and then took every durable record behind the cut; or had its link closed,
  and the close is among the calls made.
\<close>

theorem pump_never_drops_silently:
  assumes "host_inv sm lim k h" "log_inv sm (snd s)" "hb_deliveries h link = Some b0"
    "pump_loop (log_relay sm) k h s = (errs, h', s')"
  shows "case hb_deliveries h' link of
      None \<Rightarrow> \<exists>reason. CallCloseLink link reason \<in> set (snd s')
    | Some b \<Rightarrow> db_last b = db_last b0 \<and>
        (filter durable (qbuf (db_queue b)) =
           filter durable (qbuf (db_queue b0)) @ filter durable (qbuf (hb_queue h)) \<or>
         (\<exists>pre post tip enc. qbuf (hb_queue h) = pre @ post \<and>
            marshal_reset sm (reset_for k b0 tip) = Inr enc \<and>
            filter durable (qbuf (db_queue b)) = control_record enc # filter durable post))"
proof -
  have "follows_or_closed sm k link b0 ([] @ qbuf (hb_queue h)) (snd (pump_loop (log_relay sm) k h s))"
    using assms(1-3) by (intro pump_loop_follows follows_start) (simp_all add: host_log_inv_def)
  with assms(4) show ?thesis
    by (auto simp: follows_or_closed_def follows_def split: option.splits)
qed

lemma sample_pump_loop:
  "pump_loop (log_relay sample_relay_seams) sample_key
     (sample_host (map sample_enduring [3]) (map sample_enduring [1, 2])) ((), []) =
    ([], sample_host [] [control_record ''reset''], (), [CallRead (tip_request sample_key)])"
proof -
  have v: "select_victim (map sample_enduring [1, 2]) = -1" by code_simp
  show ?thesis
    using v by (simp add: pump_loop.simps [where k = sample_key] sample_host_def qnext_def sorted_bindings_def
        sample_delivery_def fan_out_def enqueue_def read_tip_def log_relay_def sample_relay_seams_def
        reset_binding_def reset_for_def qrepair_def droppable_def sample_enduring_def control_record_def)
qed

theorem pump_never_drops_silently_witness:
  "\<exists>h' s' b. pump_loop (log_relay sample_relay_seams) sample_key
       (sample_host (map sample_enduring [3]) (map sample_enduring [1, 2])) ((), []) = ([], h', s') \<and>
     hb_deliveries h' ''l'' = Some b \<and> db_last b = 0 \<and> qbuf (db_queue b) = [control_record ''reset'']"
proof -
  have i: "host_inv sample_relay_seams sample_limits sample_key
      (sample_host (map sample_enduring [3]) (map sample_enduring [1, 2]))"
    by (rule sample_host_inv) simp_all
  have b: "hb_deliveries (sample_host (map sample_enduring [3]) (map sample_enduring [1, 2])) ''l'' =
      Some (sample_delivery (map sample_enduring [1, 2]))" by (simp add: sample_host_def)
  from pump_never_drops_silently [OF i _ b sample_pump_loop] sample_pump_loop show ?thesis
    by (simp add: sample_host_def sample_delivery_def)
qed

text \<open>
  A drain publishes a prefix of the subscriber's queue, in order, and keeps the rest: the
  records it removed are exactly those the transport took, the refused one stays at the head,
  and the drain ends without an error exactly when the queue is empty or the transport would
  block. What the subscriber is then vouched for is a run of consecutive sequences, starting at
  the first enduring record it was ever sent and all of them published to it.
\<close>

theorem drain_publishes_a_prefix:
  assumes "\<not> qclosed (db_queue b)" "drain_loop (log_relay sm) k b s = (e, b', s')"
  shows "\<exists>n \<le> length (qbuf (db_queue b)).
    drained_to k b (snd s) n e b' (snd s') \<and>
    (db_forwarded b = 0 \<and> length (qbuf (db_queue b)) < 2 ^ 64 \<and> seqs (take n (qbuf (db_queue b))) \<noteq> [] \<longrightarrow>
       runs_to (hd (seqs (take n (qbuf (db_queue b))))) (db_last b') (seqs (take n (qbuf (db_queue b)))))"
proof -
  obtain n where n: "n \<le> length (qbuf (db_queue b))" "drained_to k b (snd s) n e b' (snd s')"
    using drain_loop_prefix [OF assms] by blast
  let ?xs = "take n (qbuf (db_queue b))"
  have "db_last b' = db_last (published ?xs b)" using n(2) by (simp add: drained_to_def)
  moreover have "length (seqs ?xs) \<le> length (qbuf (db_queue b))"
    unfolding seqs_def by (metis length_filter_le length_map length_take min.cobounded2 le_trans min.commute)
  ultimately have "runs_to (hd (seqs ?xs)) (db_last b') (seqs ?xs)"
    if "db_forwarded b = 0" "length (qbuf (db_queue b)) < 2 ^ 64" "seqs ?xs \<noteq> []"
    using published_runs [OF that(1), of ?xs] that by simp
  with n show ?thesis by blast
qed

lemma sample_drain:
  "drain_loop (log_relay sample_relay_seams) sample_key (sample_delivery (map sample_enduring [1, 2])) ((), []) =
    (None, (sample_delivery [])\<lparr>db_last := 2, db_forwarded := 2\<rparr>, (),
     [CallPublish ''l'' sample_key ''e'' None, CallPublish ''l'' sample_key ''ee'' None])"
  by (simp add: drain_loop.simps [where k = sample_key] qhead_def qnext_def sample_delivery_def log_relay_def
      sample_relay_seams_def sample_enduring_def advance_def numeral_2_eq_2)

theorem drain_publishes_a_prefix_witness:
  "\<exists>n. drained_to sample_key (sample_delivery (map sample_enduring [1, 2])) [] n None
      ((sample_delivery [])\<lparr>db_last := 2, db_forwarded := 2\<rparr>)
      [CallPublish ''l'' sample_key ''e'' None, CallPublish ''l'' sample_key ''ee'' None]"
proof -
  have "\<not> qclosed (db_queue (sample_delivery (map sample_enduring [1, 2])))" by (simp add: sample_delivery_def)
  from drain_publishes_a_prefix [OF this sample_drain] show ?thesis by auto
qed


lemma sample_relay_inv:
  "relay_inv sample_relay_seams (sample_relay [sample_key \<mapsto> sample_host [] (map sample_enduring [1])]) ((), [])"
  using sample_host_inv [of "[]" "[1]"]
  by (simp add: relay_inv_def sample_relay_def repair_limits_validate_def sample_limits_def)


definition probe_request :: "'w relay_seams \<Rightarrow> session_key \<Rightarrow> u64 \<Rightarrow> u64 \<Rightarrow> journal_request" where
  "probe_request sm k prev seq =
     \<lparr>jr_key = k, jr_from = prev + 1, jr_tip_only = False, jr_tail = False, jr_limit = 1,
      jr_scan = uint (min (max_gap_probe sm) (seq - prev - 1))\<rparr>"

definition page_has_hole :: "journal_page \<Rightarrow> u64 \<Rightarrow> bool" where
  "page_has_hole page seq \<longleftrightarrow>
     (case jp_events page of [] \<Rightarrow> jp_covered page + 1 < seq | first # _ \<Rightarrow> first < seq)"

lemma probe_gap_page:
  assumes "rl_read sm (probe_request sm k prev seq) w = (Inr page, w1)"
  shows "probe_gap (log_relay sm) k prev seq (w, l) =
    ((page_has_hole page seq, jp_tip page, None), w1, l @ [CallRead (probe_request sm k prev seq)])"
proof -
  let ?q = "probe_request sm k prev seq"
  have read: "rl_read (log_relay sm) ?q (w, l) = (Inr page, w1, l @ [CallRead ?q])"
    using assms by (simp add: log_relay_def)
  have q: "\<lparr>jr_key = k, jr_from = prev + 1, jr_tip_only = False, jr_tail = False, jr_limit = 1,
      jr_scan = uint (if seq - prev - 1 > max_gap_probe (log_relay sm) then max_gap_probe (log_relay sm)
                      else seq - prev - 1)\<rparr> = ?q"
    by (auto simp: probe_request_def log_relay_def min_def)
  show ?thesis
    unfolding probe_gap_def Let_def q read by (simp add: page_has_hole_def split: list.split)
qed

lemma reset_for_gap_effect:
  assumes "host_inv sm lim k h" "reset_for_gap (log_relay sm) k seq tip None h s = (h', s')"
  shows "h' = (if tip + 1 < seq then h\<lparr>hb_deliveries := Map.empty, hb_tail_known := False\<rparr>
               else h\<lparr>hb_deliveries := (\<lambda>j. Option.bind (hb_deliveries h j) (reset_result sm k tip)),
                      hb_tail_seq := tip, hb_tail_known := True\<rparr>)"
proof (cases "tip + 1 < seq")
  case True
  have fin: "finite (dom (hb_deliveries h))" using assms(1) by (simp add: host_inv_def)
  show ?thesis
    using True assms(2) close_everyone [OF fin, of "log_relay sm" _ s] by (auto simp: reset_for_gap_def split_beta)
next
  case False
  obtain es h1 s1 where r: "reset_all (log_relay sm) k tip (sorted_bindings h) h s = (es, h1, s1)"
    by (metis prod_cases3)
  with False assms(2) reset_everyone [OF assms(1) r] show ?thesis
    by (simp add: reset_for_gap_def anchor_locked_def)
qed

lemma receive_enqueue_room:
  assumes "queue_live cap (hb_queue h)" "qlen (hb_queue h) < cap"
  shows "\<exists>h'. receive_enqueue S env k rec h r s = (None, r\<lparr>rl_hosts := (rl_hosts r)(k \<mapsto> h')\<rparr>, s) \<and>
    hb_deliveries h' = hb_deliveries h \<and> hb_tail_known h' = hb_tail_known h \<and>
    qbuf (hb_queue h') = qbuf (hb_queue h) @ [rec]"
  using assms by (auto simp: receive_enqueue_def enqueue_def queue_live_def qlen_def Let_def)


lemma sample_classify5: "classify (rl_core sample_relay_seams) sample_key (sample_frame ''eeeee'') = Inr (sample_enduring 5)"
proof -
  have "replicate 5 CHR ''e'' = ''eeeee''" by code_simp
  then show ?thesis
    by (simp add: classify_def parse_enduring_def sample_relay_seams_def sample_tail_codec_def sample_frame_def
        owns_def sample_key_def enduring_record_def sample_enduring_def)
qed


text \<open>
  A record that names another tenant or session is refused and counted, and nothing else
  happens: the queues, the anchors and the world stay as they are, and the error answers both
  the foreign-record and the malformed-record question.
\<close>

theorem foreign_record_only_counted:
  assumes "\<not> rl_closed r" "rl_hosts r k = Some h" "\<not> hb_stopped h"
    "(record_type_of (rl_core sm) (fr_encoded fr) = Inr RTEphemeral \<and>
      (\<exists>p. unmarshal_ephemeral (rl_core sm) (fr_encoded fr) = Inr p \<and>
         (eph_tenant p \<noteq> sk_tenant k \<or> eph_session p \<noteq> sk_session k))) \<or>
     (record_type_of (rl_core sm) (fr_encoded fr) = Inr RTEnduring \<and>
      (\<exists>p. unmarshal_enduring (rl_core sm) (fr_encoded fr) = Inr p \<and> pub_covered p \<le> fr_committed fr \<and>
         (pub_tenant p \<noteq> sk_tenant k \<or> pub_session p \<noteq> sk_session k)))"
  shows "\<exists>err. receive sm env k fr r w = (Some err, r\<lparr>rl_foreign := rl_foreign r + 1\<rparr>, w) \<and>
    errors_is ErrForeignRecord err \<and> errors_is (DeliveryErr ErrMalformed) err"
proof -
  have "classify (rl_core sm) k fr =
      Inl (Wrapped [Sentinel ErrForeignRecord, Sentinel (DeliveryErr ErrMalformed)])"
    using assms(4) by (auto simp: classify_def parse_enduring_def owns_def not_less)
  with assms(1-3) show ?thesis by (simp add: receive_def)
qed

theorem foreign_record_only_counted_witness:
  "\<exists>err. receive sample_relay_seams idle_window sample_key (sample_frame ''f'')
       (sample_relay [sample_key \<mapsto> sample_host [] []]) () =
      (Some err, (sample_relay [sample_key \<mapsto> sample_host [] []])\<lparr>rl_foreign := 1\<rparr>, ()) \<and>
    errors_is ErrForeignRecord err"
proof -
  let ?r = "sample_relay [sample_key \<mapsto> sample_host [] []]"
  have h: "\<not> rl_closed ?r" "rl_hosts ?r sample_key = Some (sample_host [] [])" "\<not> hb_stopped (sample_host [] [])"
    by (simp_all add: sample_relay_def sample_host_def)
  have "record_type_of (rl_core sample_relay_seams) (fr_encoded (sample_frame ''f'')) = Inr RTEphemeral \<and>
      (\<exists>p. unmarshal_ephemeral (rl_core sample_relay_seams) (fr_encoded (sample_frame ''f'')) = Inr p \<and>
         (eph_tenant p \<noteq> sk_tenant sample_key \<or> eph_session p \<noteq> sk_session sample_key))"
    by (simp add: sample_relay_seams_def sample_tail_codec_def sample_frame_def sample_key_def)
  from foreign_record_only_counted [OF h disjI1 [OF this], of idle_window "()"] show ?thesis
    by (auto simp: sample_relay_def)
qed

end
