(* ===== verification/Policy.thy ===== *)
theory Policy
  imports Wire
begin

text \<open>
  The pure half of placement, \<open>internal/placement/policy.go\<close>: a total function of a catalog
  record, an optional registry observation and a page of capacity reports. The clock is an
  argument, as it is in the code.
\<close>

section \<open>Decisions\<close>

datatype outcome =
    OutcomeUndecided | OutcomeReuseOwner | OutcomeAttachPooled
  | OutcomeReconcileDedicated | OutcomeNoCapacity

fun outcome_string :: "outcome \<Rightarrow> string" where
  "outcome_string OutcomeUndecided = ''undecided''"
| "outcome_string OutcomeReuseOwner = ''reuse_owner''"
| "outcome_string OutcomeAttachPooled = ''attach_pooled''"
| "outcome_string OutcomeReconcileDedicated = ''reconcile_dedicated''"
| "outcome_string OutcomeNoCapacity = ''no_capacity''"

text \<open>A member the outcome does not license stays zero in the code: here it is \<open>None\<close>.\<close>

record decision =
  dec_outcome :: outcome
  dec_owner :: "registry_observation option"
  dec_target :: "capacity_report option"

definition reusable_owner :: "registry_observation \<Rightarrow> catalog_record \<Rightarrow> time \<Rightarrow> bool" where
  "reusable_owner owner rec now \<longleftrightarrow>
     obs_tenant owner = cat_tenant rec \<and> obs_session owner = cat_session rec \<and>
     obs_agent owner = cat_agent rec \<and> obs_runtime owner = cat_runtime rec \<and>
     obs_placement owner = cat_placement rec \<and>
     obs_residency owner = Resident \<and> obs_accepting owner \<and> obs_expires owner > now"

definition admissible :: "capacity_report \<Rightarrow> catalog_record \<Rightarrow> bool" where
  "admissible c rec \<longleftrightarrow>
     cap_agent c = cat_agent rec \<and> cap_runtime c = cat_runtime rec \<and>
     cap_placement c = cat_placement rec \<and> cap_isolation c = CrossTenantIsolated \<and>
     cap_accepting c \<and> cap_available c > 0"

text \<open>The loop over the page: the first admissible candidate.\<close>

fun pick_candidate :: "catalog_record \<Rightarrow> capacity_report list \<Rightarrow> decision" where
  "pick_candidate rec [] =
     \<lparr>dec_outcome = OutcomeNoCapacity, dec_owner = None, dec_target = None\<rparr>"
| "pick_candidate rec (c # cs) =
     (if admissible c rec
      then \<lparr>dec_outcome = OutcomeAttachPooled, dec_owner = None, dec_target = Some c\<rparr>
      else pick_candidate rec cs)"

definition decide ::
  "catalog_record \<Rightarrow> registry_observation \<Rightarrow> bool \<Rightarrow> capacity_report list \<Rightarrow> time \<Rightarrow> decision" where
  "decide rec owner owner_observed candidates now =
     (if owner_observed \<and> reusable_owner owner rec now
      then \<lparr>dec_outcome = OutcomeReuseOwner, dec_owner = Some owner, dec_target = None\<rparr>
      else case cat_placement rec of
             Dedicated \<Rightarrow>
               \<lparr>dec_outcome = OutcomeReconcileDedicated, dec_owner = None, dec_target = None\<rparr>
           | Pooled \<Rightarrow> pick_candidate rec candidates
           | OtherPlacement p \<Rightarrow>
               \<lparr>dec_outcome = OutcomeUndecided, dec_owner = None, dec_target = None\<rparr>)"

section \<open>The scan of a page\<close>

lemma pick_candidate_attach:
  "dec_outcome (pick_candidate rec cs) = OutcomeAttachPooled \<longleftrightarrow> (\<exists>c \<in> set cs. admissible c rec)"
  by (induction cs) auto

lemma pick_candidate_find:
  "dec_target (pick_candidate rec cs) = find (\<lambda>c. admissible c rec) cs"
  by (induction cs) auto

lemma pick_candidate_owner [simp]: "dec_owner (pick_candidate rec cs) = None"
  by (induction cs) auto

lemma pick_candidate_outcome:
  "dec_outcome (pick_candidate rec cs) \<in> {OutcomeAttachPooled, OutcomeNoCapacity}"
  by (induction cs) auto

lemma outcome_string_inject: "outcome_string a = outcome_string b \<longleftrightarrow> a = b"
  by (cases a; cases b) simp_all

section \<open>Properties\<close>

text \<open>
  A pooled attach names the first admissible seat of the page, so replicas reading the
  same page choose the same Host: its agent, runtime and placement are the record's, it is
  accepting with free capacity, and it is a cross-tenant isolated Host, never a
  tenant-exclusive one; and a pooled session with no reusable owner gets one exactly when the
  page has an admissible seat.
\<close>

theorem attach_names_first_admissible:
  assumes "decide rec owner obs cs now = d"
  shows "(dec_outcome d = OutcomeAttachPooled \<longrightarrow>
            (\<exists>pre c post. cs = pre @ c # post \<and> dec_target d = Some c \<and>
               (\<forall>x \<in> set pre. \<not> admissible x rec) \<and>
               cap_agent c = cat_agent rec \<and> cap_runtime c = cat_runtime rec \<and>
               cap_placement c = Pooled \<and> cap_isolation c = CrossTenantIsolated \<and>
               cap_accepting c \<and> 0 < cap_available c)) \<and>
         (dec_outcome d = OutcomeAttachPooled \<longleftrightarrow>
            cat_placement rec = Pooled \<and> \<not> (obs \<and> reusable_owner owner rec now) \<and>
            (\<exists>c \<in> set cs. admissible c rec)) \<and>
         (dec_outcome d = OutcomeNoCapacity \<longleftrightarrow>
            cat_placement rec = Pooled \<and> \<not> (obs \<and> reusable_owner owner rec now) \<and>
            (\<forall>c \<in> set cs. \<not> admissible c rec))"
proof (cases "cat_placement rec = Pooled \<and> \<not> (obs \<and> reusable_owner owner rec now)")
  case True
  with assms have d: "d = pick_candidate rec cs" by (auto simp: decide_def)
  have first: "\<exists>pre c post. cs = pre @ c # post \<and> dec_target d = Some c \<and> admissible c rec \<and>
      (\<forall>x \<in> set pre. \<not> admissible x rec)" if "dec_outcome d = OutcomeAttachPooled"
  proof -
    from that d have "\<exists>c \<in> set cs. admissible c rec" by (simp add: pick_candidate_attach)
    then obtain c where "find (\<lambda>c. admissible c rec) cs = Some c"
      by (metis (full_types) find_None_iff option.exhaust)
    with d find_SomeD [OF this] show ?thesis by (auto simp: pick_candidate_find)
  qed
  have "dec_outcome d = OutcomeNoCapacity \<longleftrightarrow> (\<forall>c \<in> set cs. \<not> admissible c rec)"
    using pick_candidate_outcome [of rec cs] pick_candidate_attach [of rec cs] d by auto
  with first True d pick_candidate_attach [of rec cs] show ?thesis
    by (fastforce simp: admissible_def)
next
  case False
  with assms show ?thesis by (auto simp: decide_def split: placement.splits if_splits)
qed

definition sample_record :: catalog_record where
  "sample_record = \<lparr>cat_tenant = ''t'', cat_session = ''s'', cat_agent = ''a'',
     cat_runtime = ''r'', cat_placement = Pooled, cat_generation = 1,
     cat_workload = \<lparr>dw_version = [], dw_payload = []\<rparr>, cat_last_seq = 0, cat_checkpoint_seq = 0,
     cat_initial_workload = None\<rparr>"

definition sample_report :: "isolation \<Rightarrow> int \<Rightarrow> capacity_report" where
  "sample_report i n = \<lparr>cap_host = ''h'', cap_agent = ''a'', cap_runtime = ''r'',
     cap_placement = Pooled, cap_isolation = i, cap_accepting = True, cap_available = n,
     cap_generation = 1, cap_endpoint = ''ep''\<rparr>"

definition sample_owner :: registry_observation where
  "sample_owner = \<lparr>obs_tenant = ''t'', obs_session = ''s'', obs_host = ''h'', obs_generation = 1,
     obs_epoch = 1, obs_endpoint = ''ep'', obs_runtime = ''r'', obs_agent = ''a'',
     obs_placement = Pooled, obs_residency = Resident, obs_accepting = True, obs_expires = 10\<rparr>"

theorem attach_names_first_admissible_witness:
  "dec_target (decide sample_record sample_owner False
     [sample_report (OtherIsolation ''tenant_exclusive'') 5, sample_report CrossTenantIsolated 0,
      sample_report CrossTenantIsolated 2] 20) = Some (sample_report CrossTenantIsolated 2)"
proof -
  let ?cs = "[sample_report (OtherIsolation ''tenant_exclusive'') 5, sample_report CrossTenantIsolated 0,
      sample_report CrossTenantIsolated 2]"
  let ?d = "decide sample_record sample_owner False ?cs 20"
  have "dec_outcome ?d = OutcomeAttachPooled"
    using attach_names_first_admissible [of sample_record sample_owner False ?cs 20 ?d]
    by (simp add: sample_record_def sample_report_def admissible_def)
  then show ?thesis
    by (simp add: decide_def sample_record_def sample_report_def admissible_def)
qed

text \<open>
  An owner is reused exactly when one was observed and it is this session's own live,
  resident, accepting owner under the record's agent, runtime and placement with an expiry
  after the caller's clock; reuse takes precedence over placement. The decision carries an
  owner exactly when it reuses one and a target exactly when it attaches, and distinct
  outcomes never render the same.
\<close>

theorem reuse_is_the_live_owner:
  "(dec_outcome (decide rec owner obs cs now) = OutcomeReuseOwner \<longleftrightarrow>
      obs \<and> obs_tenant owner = cat_tenant rec \<and> obs_session owner = cat_session rec \<and>
      obs_agent owner = cat_agent rec \<and> obs_runtime owner = cat_runtime rec \<and>
      obs_placement owner = cat_placement rec \<and> obs_residency owner = Resident \<and>
      obs_accepting owner \<and> now < obs_expires owner) \<and>
   (dec_owner (decide rec owner obs cs now) =
      (if dec_outcome (decide rec owner obs cs now) = OutcomeReuseOwner then Some owner else None)) \<and>
   (dec_target (decide rec owner obs cs now) \<noteq> None \<longleftrightarrow>
      dec_outcome (decide rec owner obs cs now) = OutcomeAttachPooled) \<and>
   (outcome_string a = outcome_string b \<longleftrightarrow> a = b)"
proof -
  have pick: "dec_target (pick_candidate rec cs) \<noteq> None \<longleftrightarrow>
      dec_outcome (pick_candidate rec cs) = OutcomeAttachPooled"
    by (auto simp: pick_candidate_find pick_candidate_attach find_None_iff)
  show ?thesis
    using pick pick_candidate_outcome [of rec cs]
    by (auto simp: decide_def reusable_owner_def outcome_string_inject split: placement.splits)
qed

end
