(* ===== verification/Sweeper.thy ===== *)
theory Sweeper
  imports Bindings Policy
begin

text \<open>
  The record sweeper of \<open>internal/placement/records.go\<close>: retirement of lapsed capacity targets,
  with the continuation carried between sweeps, and the release of this replica's own
  reconciliation claims. The errors of the placement package are here too. The store's calls
  are parameters, as functions of the request and the world.
\<close>

section \<open>Errors of the placement package\<close>

text \<open>The codes of Core's \<open>HostLinkError\<close> that placement tells apart.\<close>

datatype hostlink_code = EpochMismatch | OtherHostLink string

datatype place_error =
    PErrInvalidConfig | ErrNoWorkloadController | ErrSessionReleased | ErrNoLaunchTemplate
  | ErrAttachUnsupported | ErrHostUnreachable | ErrAttachFailed | ErrTenantUnaddressable
  | ErrRegistryStale | ErrBindAfterAttach | ErrDedicatedEndpointInvalid
  | ErrDedicatedObservationInvalid | ErrWorkloadEndpointUnsupported
  | ErrInvalidSweeperConfig | ErrInvalidPendingSweeperConfig
  | AttachRefusal hostlink_code
  | PlaceStore store_error | PlaceCtxDone

type_synonym perr = "place_error go_err"

definition store_error_of :: "place_error \<Rightarrow> store_error option" where
  "store_error_of e = (case e of PlaceStore s \<Rightarrow> Some s | _ \<Rightarrow> None)"

definition reconcile_error_of :: "place_error \<Rightarrow> (reconcile_code \<times> time) option" where
  "reconcile_error_of e = (case e of PlaceStore (ReconcileError c t) \<Rightarrow> Some (c, t) | _ \<Rightarrow> None)"

definition keyspace_error_of :: "place_error \<Rightarrow> keyspace_code option" where
  "keyspace_error_of e = (case e of PlaceStore (KeyspaceError c) \<Rightarrow> Some c | _ \<Rightarrow> None)"

definition target_error_of :: "place_error \<Rightarrow> target_code option" where
  "target_error_of e = (case e of PlaceStore (HostTargetError c) \<Rightarrow> Some c | _ \<Rightarrow> None)"

section \<open>Configuration and results\<close>

record target_request =
  trq_limit :: int
  trq_pages :: int
  trq_cursor :: cursor

record store_sweep =
  ss_scanned :: int
  ss_withdrawn :: int
  ss_live :: int
  ss_contended :: int
  ss_unreadable :: int
  ss_unverified :: int
  ss_exhausted :: bool
  ss_next :: cursor

record 'w sweep_seams =
  reconcile_targets :: "target_request \<Rightarrow> 'w \<Rightarrow> (store_sweep \<times> perr option) \<times> 'w"
  release_claim :: "session_key \<Rightarrow> string \<Rightarrow> 'w \<Rightarrow> perr option \<times> 'w"

record sweeper =
  sw_holder :: string
  sw_page_limit :: int
  sw_max_pages :: int
  sw_cursor :: cursor

record target_sweep =
  ts_scanned :: int
  ts_unranked :: int
  ts_retained :: int
  ts_contended :: int
  ts_unreadable :: int
  ts_unverified :: int
  ts_exhausted :: bool
  ts_resumed :: bool

record claim_sweep =
  cs_examined :: int
  cs_released :: int
  cs_held :: int
  cs_lapsed :: int
  cs_absent :: int

definition new_record_sweeper ::
  "int \<Rightarrow> int \<Rightarrow> bool \<Rightarrow> bool \<Rightarrow> string \<Rightarrow> int \<Rightarrow> int \<Rightarrow> perr + sweeper" where
  \<comment> \<open>The two bounds are constants of the storage and session-store modules.\<close>
  "new_record_sweeper max_page max_pages targets claims holder page_limit pages =
     (if \<not> targets then Inl (Sentinel ErrInvalidSweeperConfig)
      else if \<not> claims then Inl (Sentinel ErrInvalidSweeperConfig)
      else if holder = [] then Inl (Sentinel ErrInvalidSweeperConfig)
      else if page_limit < 1 \<or> page_limit > max_page then Inl (Sentinel ErrInvalidSweeperConfig)
      else if pages < 1 \<or> pages > max_pages then Inl (Sentinel ErrInvalidSweeperConfig)
      else Inr \<lparr>sw_holder = holder, sw_page_limit = page_limit, sw_max_pages = pages, sw_cursor = []\<rparr>)"

section \<open>The operations\<close>

definition translate_target_sweep :: "store_sweep \<Rightarrow> bool \<Rightarrow> target_sweep" where
  "translate_target_sweep x resumed =
     \<lparr>ts_scanned = ss_scanned x, ts_unranked = ss_withdrawn x, ts_retained = ss_live x,
      ts_contended = ss_contended x, ts_unreadable = ss_unreadable x, ts_unverified = ss_unverified x,
      ts_exhausted = ss_exhausted x, ts_resumed = resumed\<rparr>"

definition refused_continuation :: "perr \<Rightarrow> bool" where
  "refused_continuation err \<longleftrightarrow> errors_as target_error_of err = Some HostTargetCursor"

definition sweep_targets ::
  "'w sweep_seams \<Rightarrow> sweeper \<Rightarrow> 'w \<Rightarrow> (target_sweep \<times> perr option) \<times> sweeper \<times> 'w" where
  "sweep_targets sm s w =
     (let resumed = (sw_cursor s \<noteq> []);
          ((result, err), w1) = reconcile_targets sm
            \<lparr>trq_limit = sw_page_limit s, trq_pages = sw_max_pages s, trq_cursor = sw_cursor s\<rparr> w;
          s1 = s\<lparr>sw_cursor := ss_next result\<rparr>
      in case err of
           Some e \<Rightarrow>
             ((translate_target_sweep result resumed, Some e),
              if refused_continuation e then s1\<lparr>sw_cursor := []\<rparr> else s1, w1)
         | None \<Rightarrow> ((translate_target_sweep result resumed, None), s1, w1))"

definition claim_code_is :: "perr \<Rightarrow> reconcile_code \<Rightarrow> bool" where
  "claim_code_is err code \<longleftrightarrow> map_option fst (errors_as reconcile_error_of err) = Some code"

definition no_such_session :: "perr \<Rightarrow> bool" where
  "no_such_session err \<longleftrightarrow> errors_as keyspace_error_of err = Some KeyspaceBindingNotFound"

fun sweep_claims_loop ::
  "'w sweep_seams \<Rightarrow> string \<Rightarrow> session_key list \<Rightarrow> claim_sweep \<Rightarrow> 'w \<Rightarrow> (claim_sweep \<times> perr option) \<times> 'w" where
  "sweep_claims_loop sm holder [] res w = ((res, None), w)"
| "sweep_claims_loop sm holder (ref # refs) res w =
     (case release_claim sm ref holder w of
        (None, w1) \<Rightarrow>
          sweep_claims_loop sm holder refs (res\<lparr>cs_released := cs_released res + 1, cs_examined := cs_examined res + 1\<rparr>) w1
      | (Some err, w1) \<Rightarrow>
          if claim_code_is err ReconcileHeld then
            sweep_claims_loop sm holder refs (res\<lparr>cs_held := cs_held res + 1, cs_examined := cs_examined res + 1\<rparr>) w1
          else if claim_code_is err ReconcileLapsed then
            sweep_claims_loop sm holder refs (res\<lparr>cs_lapsed := cs_lapsed res + 1, cs_examined := cs_examined res + 1\<rparr>) w1
          else if claim_code_is err ReconcileNotFound \<or> no_such_session err then
            sweep_claims_loop sm holder refs (res\<lparr>cs_absent := cs_absent res + 1, cs_examined := cs_examined res + 1\<rparr>) w1
          else ((res, Some (Wrapped [err])), w1))"

definition sweep_claims ::
  "'w sweep_seams \<Rightarrow> session_key list \<Rightarrow> sweeper \<Rightarrow> 'w \<Rightarrow> (claim_sweep \<times> perr option) \<times> 'w" where
  "sweep_claims sm refs s w =
     sweep_claims_loop sm (sw_holder s) refs
       \<lparr>cs_examined = 0, cs_released = 0, cs_held = 0, cs_lapsed = 0, cs_absent = 0\<rparr> w"

section \<open>A run of sweeps\<close>

text \<open>The requests the successive sweeps of one sweeper make and the replies they get, oldest first.\<close>

definition sweep_request :: "sweeper \<Rightarrow> target_request" where
  "sweep_request s = \<lparr>trq_limit = sw_page_limit s, trq_pages = sw_max_pages s, trq_cursor = sw_cursor s\<rparr>"

fun sweep_log :: "'w sweep_seams \<Rightarrow> nat \<Rightarrow> sweeper \<Rightarrow> 'w \<Rightarrow> (target_request \<times> store_sweep \<times> perr option) list" where
  "sweep_log sm 0 s w = []"
| "sweep_log sm (Suc n) s w =
     (let (r, s1, w1) = sweep_targets sm s w
      in (sweep_request s, fst (reconcile_targets sm (sweep_request s) w)) # sweep_log sm n s1 w1)"

text \<open>The cursor a sweep leaves, by what the store answered.\<close>

definition next_cursor :: "store_sweep \<Rightarrow> perr option \<Rightarrow> cursor" where
  "next_cursor result err =
     (case err of None \<Rightarrow> ss_next result | Some e \<Rightarrow> if refused_continuation e then [] else ss_next result)"

lemma sweep_targets_state:
  "fst (snd (sweep_targets sm s w)) = s\<lparr>sw_cursor :=
    (let x = fst (reconcile_targets sm (sweep_request s) w) in next_cursor (fst x) (snd x))\<rparr>"
  by (simp add: sweep_targets_def sweep_request_def next_cursor_def Let_def split_beta split: option.split)

lemma sweep_log_length [simp]: "length (sweep_log sm n s w) = n"
  by (induction n arbitrary: s w) (simp_all add: split_beta)

lemma sweep_log_first: "0 < n \<Longrightarrow> fst (sweep_log sm n s w ! 0) = sweep_request s"
  by (cases n) (simp_all add: split_beta)

lemma sweep_log_chain:
  "Suc i < n \<Longrightarrow> sweep_log sm n s w ! i = (q, x, e) \<Longrightarrow>
    fst (sweep_log sm n s w ! Suc i) = q\<lparr>trq_cursor := next_cursor x e\<rparr>"
proof (induction n arbitrary: i s w)
  case 0
  then show ?case by simp
next
  case (Suc n)
  obtain r s1 w1 where t: "sweep_targets sm s w = (r, s1, w1)" by (metis prod_cases3)
  show ?case
  proof (cases i)
    case (Suc j)
    with Suc.IH [of j s1 w1] Suc.prems t show ?thesis by simp
  next
    case 0
    with Suc.prems t have q: "q = sweep_request s" "(x, e) = fst (reconcile_targets sm (sweep_request s) w)" by auto
    have "s1 = s\<lparr>sw_cursor := next_cursor x e\<rparr>"
      using sweep_targets_state [of sm s w] t q(2) [symmetric] by simp
    with 0 Suc.prems(1) t q(1) sweep_log_first [of n sm s1 w1] show ?thesis by (simp add: sweep_request_def)
  qed
qed

lemma sweep_claims_loop_counts:
  assumes "sweep_claims_loop sm holder refs res w = ((res', err), w')"
    "cs_examined res = cs_released res + cs_held res + cs_lapsed res + cs_absent res"
  shows "cs_examined res' = cs_released res' + cs_held res' + cs_lapsed res' + cs_absent res' \<and>
    cs_examined res \<le> cs_examined res' \<and> cs_examined res' \<le> cs_examined res + int (length refs) \<and>
    (err = None \<longleftrightarrow> cs_examined res' = cs_examined res + int (length refs))"
  using assms
proof (induction refs arbitrary: res w)
  case Nil
  then show ?case by auto
next
  case (Cons ref refs)
  obtain e w1 where e: "release_claim sm ref holder w = (e, w1)" by (rule prod.exhaust)
  define bump where "bump res1 \<longleftrightarrow> sweep_claims_loop sm holder refs res1 w1 = ((res', err), w') \<and>
    cs_examined res1 = cs_examined res + 1 \<and>
    cs_examined res1 = cs_released res1 + cs_held res1 + cs_lapsed res1 + cs_absent res1" for res1
  have IH: ?case if "bump res1" for res1
    using Cons.IH [of res1 w1] that by (auto simp: bump_def)
  consider "e = None" | x where "e = Some x" "claim_code_is x ReconcileHeld"
    | x where "e = Some x" "\<not> claim_code_is x ReconcileHeld" "claim_code_is x ReconcileLapsed"
    | x where "e = Some x" "\<not> claim_code_is x ReconcileHeld" "\<not> claim_code_is x ReconcileLapsed"
        "claim_code_is x ReconcileNotFound \<or> no_such_session x"
    | x where "e = Some x" "\<not> claim_code_is x ReconcileHeld" "\<not> claim_code_is x ReconcileLapsed"
        "\<not> (claim_code_is x ReconcileNotFound \<or> no_such_session x)"
    by (cases e) blast+
  then show ?case
  proof cases
    case 1
    with Cons.prems e show ?thesis
      by (intro IH [of "res\<lparr>cs_released := cs_released res + 1, cs_examined := cs_examined res + 1\<rparr>"])
        (simp add: bump_def)
  next
    case (2 x)
    with Cons.prems e show ?thesis
      by (intro IH [of "res\<lparr>cs_held := cs_held res + 1, cs_examined := cs_examined res + 1\<rparr>"]) (simp add: bump_def)
  next
    case (3 x)
    with Cons.prems e show ?thesis
      by (intro IH [of "res\<lparr>cs_lapsed := cs_lapsed res + 1, cs_examined := cs_examined res + 1\<rparr>"]) (simp add: bump_def)
  next
    case (4 x)
    with Cons.prems e show ?thesis
      by (intro IH [of "res\<lparr>cs_absent := cs_absent res + 1, cs_examined := cs_examined res + 1\<rparr>"]) (auto simp: bump_def)
  next
    case (5 x)
    with Cons.prems e show ?thesis by auto
  qed
qed

section \<open>Properties\<close>

definition sample_sweep_seams :: "nat sweep_seams" where
  "sample_sweep_seams =
     \<lparr>reconcile_targets = \<lambda>q w. ((\<lparr>ss_scanned = 1, ss_withdrawn = 0, ss_live = 1, ss_contended = 0,
        ss_unreadable = 0, ss_unverified = 0, ss_exhausted = False, ss_next = ''c''\<rparr>, None), w),
      release_claim = \<lambda>k h w. (if w = 0 then None else Some (Sentinel (PlaceStore (ReconcileError ReconcileHeld 9))), w + 1)\<rparr>"

text \<open>
  The target sweep carries the store's continuation faithfully. In any run of sweeps each
  sweep asks for the configured page size and page count at the cursor the previous reply
  named, whether or not that reply was an error; but after a reply that refused the cursor the
  next sweep starts from the beginning, so a refused cursor is not presented again.
\<close>

theorem sweep_resumes_from_reply:
  assumes "Suc i < n" "sweep_log sm n s w ! i = (q, x, e)"
  shows "fst (sweep_log sm n s w ! Suc i) =
    \<lparr>trq_limit = trq_limit q, trq_pages = trq_pages q,
     trq_cursor = (case e of
         None \<Rightarrow> ss_next x
       | Some er \<Rightarrow> if errors_as target_error_of er = Some HostTargetCursor then [] else ss_next x)\<rparr>"
  using sweep_log_chain [OF assms]
  by (simp add: next_cursor_def refused_continuation_def split: option.split)

theorem sweep_resumes_from_reply_witness:
  "trq_cursor (fst (sweep_log sample_sweep_seams 2
     \<lparr>sw_holder = ''h'', sw_page_limit = 1, sw_max_pages = 1, sw_cursor = []\<rparr> 0 ! Suc 0)) = ''c''"
proof -
  let ?s = "\<lparr>sw_holder = ''h'', sw_page_limit = 1, sw_max_pages = 1, sw_cursor = []\<rparr>"
  obtain q x e where l: "sweep_log sample_sweep_seams 2 ?s 0 ! 0 = (q, x, e)" by (metis prod_cases3)
  then have "e = None" "ss_next x = ''c''"
    by (auto simp: eval_nat_numeral sample_sweep_seams_def split_beta)
  with sweep_resumes_from_reply [OF _ l] show ?thesis by simp
qed

text \<open>
  The claim sweep's accounting is exact: every examined session is counted as released,
  held, lapsed or absent, exactly one of them; a sweep without an error examined every session
  it was given, and one with an error stopped at a session it did not count.
\<close>

theorem claim_sweep_accounts:
  assumes "sweep_claims sm refs s w = ((res, err), w')"
  shows "cs_examined res = cs_released res + cs_held res + cs_lapsed res + cs_absent res \<and>
    0 \<le> cs_examined res \<and> cs_examined res \<le> int (length refs) \<and>
    (err = None \<longleftrightarrow> cs_examined res = int (length refs))"
  using sweep_claims_loop_counts [of sm "sw_holder s" refs _ w res err w'] assms
  by (fastforce simp: sweep_claims_def)

theorem claim_sweep_accounts_witness:
  "\<exists>res w'. sweep_claims sample_sweep_seams [sample_key, sample_key]
       \<lparr>sw_holder = ''h'', sw_page_limit = 1, sw_max_pages = 1, sw_cursor = []\<rparr> 0 = ((res, None), w') \<and>
     cs_released res = 1 \<and> cs_held res = 1 \<and> cs_examined res = 2"
proof -
  let ?s = "\<lparr>sw_holder = ''h'', sw_page_limit = 1, sw_max_pages = 1, sw_cursor = []\<rparr>"
  obtain res err w' where run: "sweep_claims sample_sweep_seams [sample_key, sample_key] ?s 0 = ((res, err), w')"
    by (metis prod.exhaust)
  then have "err = None" "cs_released res = 1" "cs_held res = 1" "cs_lapsed res = 0" "cs_absent res = 0"
    by (auto simp: sweep_claims_def sample_sweep_seams_def claim_code_is_def reconcile_error_of_def)
  with claim_sweep_accounts [OF run] run show ?thesis by auto
qed

end
