(* ===== verification/Command.thy ===== *)
theory Command
  imports Wire
begin

text \<open>
  The command vocabulary of \<open>internal/command\<close>: the kinds, the status of a classified refusal,
  the store's spellings of an absent session and the projection of a durable inbox record to
  the public command status. The inbox records of the session store are here as the members
  Factory reads, with the errors the control packages return.
\<close>

section \<open>Records of the inbox\<close>

type_synonym command_id = string

datatype command_kind =
  KindCreateSession | KindInput | KindInterrupt | KindRestore | KindGateResponse | OtherKind string

datatype inbox_state =
  StatePending | StateClaimed | StateApplying | StateApplied | StateRejected | OtherState string

text \<open>Codes of Core's public error detail.\<close>

datatype error_code =
    CodeInvalidRequest | CodeSessionNotFound | CodeCommandRejected | CodeGateResolved
  | CodeGateNotResumable | CodeGateExpired | CodeRuntimeUnavailable | OtherCode string

text \<open>
  A record of the disposition family: the descriptor's members and the record's own. The flags
  say that an optional member is present.
\<close>

record disposition_entry =
  ib_tenant :: tenant_id
  ib_session :: session_id
  ib_command :: command_id
  ib_kind :: command_kind
  ib_object :: bool \<comment> \<open>the payload is stored by reference\<close>
  ib_principal :: bool
  ib_metadata :: bool
  ib_state :: inbox_state
  ib_attempt :: bool
  ib_claim :: "time option" \<comment> \<open>when the claim expires\<close>
  ib_deadline :: time
  ib_revision :: u64
  ib_order :: u64 \<comment> \<open>the accepted order\<close>

text \<open>A record of the legacy family; an unclaimed record's expiry is the zero instant.\<close>

record legacy_entry =
  le_tenant :: tenant_id
  le_session :: session_id
  le_command :: command_id
  le_state :: inbox_state
  le_claim :: time
  le_deadline :: time
  le_revision :: u64
  le_order :: u64
  le_rejection :: "error_code option"

section \<open>Errors of the control packages\<close>

datatype control_error =
    ErrInvalidReconcilerConfig | ErrInvalidGateSweeperConfig
  | ControlStore store_error | ControlCtxDone

type_synonym cerr = "control_error go_err"

definition control_catalog :: "control_error \<Rightarrow> (catalog_code \<times> string) option" where
  "control_catalog e = (case e of ControlStore (CatalogError c f) \<Rightarrow> Some (c, f) | _ \<Rightarrow> None)"

definition control_inbox :: "control_error \<Rightarrow> inbox_code option" where
  "control_inbox e = (case e of ControlStore (InboxError c) \<Rightarrow> Some c | _ \<Rightarrow> None)"

definition control_reconcile :: "control_error \<Rightarrow> reconcile_code option" where
  "control_reconcile e = (case e of ControlStore (ReconcileError c t) \<Rightarrow> Some c | _ \<Rightarrow> None)"

definition control_keyspace :: "control_error \<Rightarrow> keyspace_code option" where
  "control_keyspace e = (case e of ControlStore (KeyspaceError c) \<Rightarrow> Some c | _ \<Rightarrow> None)"

section \<open>Kinds and refusals\<close>

definition kinds :: "command_kind list" where
  "kinds = [KindCreateSession, KindInput, KindInterrupt, KindRestore, KindGateResponse]"

text \<open>The table is a map literal; the numbers are those of \<open>net/http\<close>.\<close>

definition refusal_table :: "(error_code \<times> int) list" where
  "refusal_table =
     [(CodeInvalidRequest, 400), (CodeSessionNotFound, 404), (CodeCommandRejected, 409),
      (CodeGateResolved, 409), (CodeGateNotResumable, 409), (CodeGateExpired, 409),
      (CodeRuntimeUnavailable, 422)]"

definition refusal_status :: "error_code \<Rightarrow> int option" where
  "refusal_status code = map_of refusal_table code"

definition refusal_codes :: "error_code list" where
  "refusal_codes = map fst refusal_table"

definition retryable_status :: "int \<Rightarrow> bool" where
  "retryable_status status \<longleftrightarrow> status = 429 \<or> status = 502 \<or> status = 503 \<or> status = 504"

definition session_absent :: "cerr \<Rightarrow> bool" where
  "session_absent err \<longleftrightarrow>
     (case errors_as control_catalog err of
        Some (code, field) \<Rightarrow> code = CatalogNotFound \<or> code = CatalogDeleted \<or> code = CatalogIdentity
      | None \<Rightarrow> False) \<or>
     errors_as control_keyspace err = Some KeyspaceBindingNotFound"

section \<open>The public status of a command\<close>

datatype command_state = CommandAccepted | CommandApplied | CommandRejected

record command_status =
  st_command :: command_id
  st_order :: u64
  st_state :: command_state
  st_error :: "error_code option"

definition status_for_state ::
  "command_id \<Rightarrow> u64 \<Rightarrow> inbox_state \<Rightarrow> error_code option \<Rightarrow> command_status option" where
  "status_for_state cmd ord state rejection =
     (case state of
        StatePending \<Rightarrow> Some \<lparr>st_command = cmd, st_order = ord, st_state = CommandAccepted, st_error = None\<rparr>
      | StateClaimed \<Rightarrow> Some \<lparr>st_command = cmd, st_order = ord, st_state = CommandAccepted, st_error = None\<rparr>
      | StateApplying \<Rightarrow> Some \<lparr>st_command = cmd, st_order = ord, st_state = CommandAccepted, st_error = None\<rparr>
      | StateApplied \<Rightarrow> Some \<lparr>st_command = cmd, st_order = ord, st_state = CommandApplied, st_error = None\<rparr>
      | StateRejected \<Rightarrow>
          (case rejection of
             None \<Rightarrow> None
           | Some code \<Rightarrow> Some \<lparr>st_command = cmd, st_order = ord, st_state = CommandRejected, st_error = Some code\<rparr>)
      | OtherState _ \<Rightarrow> None)"

definition status_for :: "legacy_entry \<Rightarrow> command_status option" where
  "status_for e = status_for_state (le_command e) (le_order e) (le_state e) (le_rejection e)"

definition status_for_disposition :: "disposition_entry \<Rightarrow> command_status option" where
  "status_for_disposition e =
     status_for_state (ib_command e) (ib_order e) (ib_state e)
       (if ib_state e = StateRejected \<and> \<not> ib_attempt e then Some CodeRuntimeUnavailable else None)"

text \<open>
  The projection describes the record. It is undefined exactly for an unknown state and for a
  rejection with no public detail, it names an error exactly on a rejection, and it agrees for
  the two families.
\<close>

lemma status_for_state_cases:
  "status_for_state cmd ord state rejection = None \<longleftrightarrow>
     (\<exists>n. state = OtherState n) \<or> (state = StateRejected \<and> rejection = None)"
  "status_for_state cmd ord state rejection = Some s \<Longrightarrow>
     st_command s = cmd \<and> st_order s = ord \<and> (st_state s = CommandRejected \<longleftrightarrow> st_error s \<noteq> None) \<and>
     (st_state s = CommandRejected \<longleftrightarrow> state = StateRejected) \<and> (st_state s = CommandApplied \<longleftrightarrow> state = StateApplied)"
  by (auto simp: status_for_state_def split: inbox_state.splits option.splits)

lemma refusals_not_retryable:
  "refusal_status code = Some status \<Longrightarrow> 400 \<le> status \<and> status < 500 \<and> \<not> retryable_status status"
  by (auto simp: refusal_status_def refusal_table_def retryable_status_def split: if_splits)

end
