(* ===== verification/Trace.thy ===== *)
theory Trace
  imports Main "HOL-Library.State_Monad"
begin

text \<open>
  Code that threads a world through many fallible calls is written in the state monad of the
  library. A seam of such code can be \<^emph>\<open>logged\<close>: the world is paired with the list of calls
  made so far, each with the reply it got. \<open>emits m R\<close> says that \<open>m\<close> only appends to that list,
  and that its value and the calls it appended are always related by \<open>R\<close>, whatever the seams
  reply. There is one rule per construct, so a property of the calls of an operation is proved
  by following its text.
\<close>

abbreviation ret :: "'a \<Rightarrow> ('s, 'a) state" where
  "ret \<equiv> State_Monad.return"

section \<open>Logged calls\<close>

definition logged :: "('a \<Rightarrow> 'c) \<Rightarrow> ('w, 'a) state \<Rightarrow> ('w \<times> 'c list, 'a) state" where
  "logged ev m = State (\<lambda>(w, l). case run_state m w of (x, w') \<Rightarrow> (x, (w', l @ [ev x])))"

definition emits :: "('w \<times> 'c list, 'a) state \<Rightarrow> ('a \<Rightarrow> 'c list \<Rightarrow> bool) \<Rightarrow> bool" where
  "emits m R \<longleftrightarrow> (\<forall>w l. \<exists>x w' cs. run_state m (w, l) = (x, (w', l @ cs)) \<and> R x cs)"

named_theorems emits_intro \<open>one rule per construct for the calls of an operation\<close>

lemma emits_run:
  assumes "emits m R" "run_state m (w, l) = (x, (w', l'))"
  obtains cs where "l' = l @ cs" "R x cs"
proof -
  from assms(1) obtain y v cs where "run_state m (w, l) = (y, (v, l @ cs))" "R y cs"
    unfolding emits_def by blast
  with assms(2) that [of cs] show thesis by simp
qed

lemma emits_run_Nil:
  assumes "emits m R" "run_state m (w, []) = (x, (w', cs))"
  shows "R x cs"
  using assms by (auto elim: emits_run)

lemma emits_ret [emits_intro]: "R x [] \<Longrightarrow> emits (ret x) R"
  unfolding emits_def by force

lemma emits_logged [emits_intro]:
  assumes "\<And>x. R x [ev x]"
  shows "emits (logged ev m) R"
  unfolding emits_def
proof (intro allI)
  fix w l
  obtain x w' where "run_state m w = (x, w')" by (rule prod.exhaust)
  with assms have "run_state (logged ev m) (w, l) = (x, (w', l @ [ev x])) \<and> R x [ev x]"
    by (simp add: logged_def)
  then show "\<exists>x w' cs. run_state (logged ev m) (w, l) = (x, (w', l @ cs)) \<and> R x cs" by blast
qed

lemma emits_bind:
  assumes "emits m (\<lambda>x cs. emits (f x) (\<lambda>y ds. R y (cs @ ds)))"
  shows "emits (State_Monad.bind m f) R"
  unfolding emits_def
proof (intro allI)
  fix w l
  from assms obtain x v cs where m: "run_state m (w, l) = (x, (v, l @ cs))"
    and f: "emits (f x) (\<lambda>y ds. R y (cs @ ds))"
    unfolding emits_def by blast
  from f obtain y u ds where "run_state (f x) (v, l @ cs) = (y, (u, (l @ cs) @ ds))" "R y (cs @ ds)"
    unfolding emits_def by blast
  with m show "\<exists>x w' cs. run_state (State_Monad.bind m f) (w, l) = (x, (w', l @ cs)) \<and> R x cs"
    by force
qed

lemma emits_call [emits_intro]:
  assumes "\<And>x. emits (f x) (\<lambda>y ds. R y (ev x # ds))"
  shows "emits (State_Monad.bind (logged ev m) f) R"
  by (intro emits_bind emits_logged) (simp add: assms)

lemma emits_weaken:
  assumes "emits m R" "\<And>x cs. R x cs \<Longrightarrow> S x cs"
  shows "emits m S"
  using assms unfolding emits_def by blast

lemma emits_sub:
  assumes "emits m S" "\<And>x cs. S x cs \<Longrightarrow> emits (f x) (\<lambda>y ds. R y (cs @ ds))"
  shows "emits (State_Monad.bind m f) R"
  by (rule emits_bind, rule emits_weaken, rule assms(1), rule assms(2))

lemma emits_both:
  assumes "emits m R" "emits m S"
  shows "emits m (\<lambda>x cs. R x cs \<and> S x cs)"
  unfolding emits_def
proof (intro allI)
  fix w l
  from assms(1) obtain x v cs where m: "run_state m (w, l) = (x, (v, l @ cs))" "R x cs"
    unfolding emits_def by blast
  moreover from assms(2) obtain y u ds where "run_state m (w, l) = (y, (u, l @ ds))" "S y ds"
    unfolding emits_def by blast
  ultimately show "\<exists>x w' cs. run_state m (w, l) = (x, (w', l @ cs)) \<and> R x cs \<and> S x cs"
    by auto
qed

section \<open>Branches\<close>

lemma emits_if [emits_intro]:
  assumes "b \<Longrightarrow> emits m R" "\<not> b \<Longrightarrow> emits n R"
  shows "emits (if b then m else n) R"
  using assms by simp

lemma emits_case_sum [emits_intro]:
  assumes "\<And>a. x = Inl a \<Longrightarrow> emits (f a) R" "\<And>b. x = Inr b \<Longrightarrow> emits (g b) R"
  shows "emits (case x of Inl a \<Rightarrow> f a | Inr b \<Rightarrow> g b) R"
  using assms by (cases x) simp_all

lemma emits_case_option [emits_intro]:
  assumes "x = None \<Longrightarrow> emits m R" "\<And>a. x = Some a \<Longrightarrow> emits (f a) R"
  shows "emits (case x of None \<Rightarrow> m | Some a \<Rightarrow> f a) R"
  using assms by (cases x) simp_all

lemma emits_case_prod [emits_intro]:
  assumes "\<And>a b. x = (a, b) \<Longrightarrow> emits (f a b) R"
  shows "emits (case x of (a, b) \<Rightarrow> f a b) R"
  using assms by (cases x) simp_all

lemma emits_let [emits_intro]:
  assumes "\<And>y. y = x \<Longrightarrow> emits (f y) R"
  shows "emits (Let x f) R"
  using assms by simp

section \<open>Monitors\<close>

text \<open>
  A rule about the order of calls is a monitor: a state and a partial step, undefined where a
  call is not allowed. \<open>obeys t s m Q\<close> says that from monitor state \<open>s\<close> every call \<open>m\<close> makes is
  allowed, and that its value and the state it leaves satisfy \<open>Q\<close>.
\<close>

fun run_monitor :: "('s \<Rightarrow> 'c \<Rightarrow> 's option) \<Rightarrow> 's \<Rightarrow> 'c list \<Rightarrow> 's option" where
  "run_monitor t s [] = Some s"
| "run_monitor t s (e # es) = (case t s e of None \<Rightarrow> None | Some s' \<Rightarrow> run_monitor t s' es)"

lemma run_monitor_append:
  "run_monitor t s (es @ fs) = (case run_monitor t s es of None \<Rightarrow> None | Some s' \<Rightarrow> run_monitor t s' fs)"
  by (induction es arbitrary: s) (simp_all split: option.split)

text \<open>A fact about the states of a monitor, by induction on the calls from the front.\<close>

lemma run_monitor_invariant:
  assumes "run_monitor t s es = Some s'" "I s []"
    "\<And>s1 s2 e pre. I s1 pre \<Longrightarrow> t s1 e = Some s2 \<Longrightarrow> I s2 (pre @ [e])"
  shows "I s' es"
  using assms(1)
proof (induction es arbitrary: s' rule: rev_induct)
  case Nil
  with assms(2) show ?case by simp
next
  case (snoc e es)
  then obtain s1 where "run_monitor t s es = Some s1" "t s1 e = Some s'"
    by (auto simp: run_monitor_append split: option.splits)
  with snoc.IH assms(3) show ?case by blast
qed

lemma run_monitor_split:
  assumes "run_monitor t s (pre @ e # post) = Some s'"
  obtains s1 s2 where "run_monitor t s pre = Some s1" "t s1 e = Some s2" "run_monitor t s2 post = Some s'"
  using assms by (auto simp: run_monitor_append split: option.splits)

definition obeys ::
  "('s \<Rightarrow> 'c \<Rightarrow> 's option) \<Rightarrow> 's \<Rightarrow> ('w \<times> 'c list, 'a) state \<Rightarrow> ('a \<Rightarrow> 's \<Rightarrow> bool) \<Rightarrow> bool" where
  "obeys t s m Q \<longleftrightarrow> emits m (\<lambda>x cs. \<exists>s'. run_monitor t s cs = Some s' \<and> Q x s')"

named_theorems obeys_intro \<open>one rule per construct for the order of the calls\<close>

lemma obeys_run_Nil:
  assumes "obeys t s m Q" "run_state m (w, []) = (x, (w', cs))"
  obtains s' where "run_monitor t s cs = Some s'" "Q x s'"
  using emits_run_Nil [OF _ assms(2)] assms(1) unfolding obeys_def by blast

lemma obeys_ret [obeys_intro]: "Q x s \<Longrightarrow> obeys t s (ret x) Q"
  unfolding obeys_def by (rule emits_ret) simp

lemma obeys_weaken:
  assumes "obeys t s m R" "\<And>x s'. R x s' \<Longrightarrow> Q x s'"
  shows "obeys t s m Q"
  using assms(1) unfolding obeys_def by (rule emits_weaken) (use assms(2) in blast)

lemma obeys_sub:
  assumes "obeys t s m R" "\<And>x s'. R x s' \<Longrightarrow> obeys t s' (f x) Q"
  shows "obeys t s (State_Monad.bind m f) Q"
  unfolding obeys_def
proof (rule emits_sub [OF assms(1) [unfolded obeys_def]], elim exE conjE)
  fix x cs s'
  assume "run_monitor t s cs = Some s'" "R x s'"
  with assms(2) show "emits (f x) (\<lambda>y ds. \<exists>s''. run_monitor t s (cs @ ds) = Some s'' \<and> Q y s'')"
    by (simp add: obeys_def run_monitor_append)
qed

lemma obeys_call [obeys_intro]:
  assumes "\<And>x. \<exists>s'. t s (ev x) = Some s' \<and> obeys t s' (f x) Q"
  shows "obeys t s (State_Monad.bind (logged ev m) f) Q"
  unfolding obeys_def
proof (rule emits_call)
  fix x
  from assms [of x] obtain s' where "t s (ev x) = Some s'" "obeys t s' (f x) Q" by blast
  then show "emits (f x) (\<lambda>y ds. \<exists>s''. run_monitor t s (ev x # ds) = Some s'' \<and> Q y s'')"
    by (simp add: obeys_def)
qed

lemma obeys_step:
  assumes "\<And>x. t s (ev x) = Some (g x)" "\<And>x. obeys t (g x) (f x) Q"
  shows "obeys t s (State_Monad.bind (logged ev m) f) Q"
  by (rule obeys_call) (simp add: assms)

lemma obeys_logged [obeys_intro]:
  assumes "\<And>x. \<exists>s'. t s (ev x) = Some s' \<and> Q x s'"
  shows "obeys t s (logged ev m) Q"
proof -
  have "obeys t s (State_Monad.bind (logged ev m) ret) Q"
    by (rule obeys_call) (use assms in \<open>blast intro: obeys_ret\<close>)
  then show ?thesis by simp
qed

lemma obeys_if [obeys_intro]:
  assumes "b \<Longrightarrow> obeys t s m Q" "\<not> b \<Longrightarrow> obeys t s n Q"
  shows "obeys t s (if b then m else n) Q"
  using assms by simp

lemma obeys_case_sum [obeys_intro]:
  assumes "\<And>a. x = Inl a \<Longrightarrow> obeys t s (f a) Q" "\<And>b. x = Inr b \<Longrightarrow> obeys t s (g b) Q"
  shows "obeys t s (case x of Inl a \<Rightarrow> f a | Inr b \<Rightarrow> g b) Q"
  using assms by (cases x) simp_all

lemma obeys_case_option [obeys_intro]:
  assumes "x = None \<Longrightarrow> obeys t s m Q" "\<And>a. x = Some a \<Longrightarrow> obeys t s (f a) Q"
  shows "obeys t s (case x of None \<Rightarrow> m | Some a \<Rightarrow> f a) Q"
  using assms by (cases x) simp_all

lemma obeys_case_prod [obeys_intro]:
  assumes "\<And>a b. x = (a, b) \<Longrightarrow> obeys t s (f a b) Q"
  shows "obeys t s (case x of (a, b) \<Rightarrow> f a b) Q"
  using assms by (cases x) simp_all

lemma obeys_let [obeys_intro]:
  assumes "\<And>y. y = x \<Longrightarrow> obeys t s (f y) Q"
  shows "obeys t s (Let x f) Q"
  using assms by simp

section \<open>Results\<close>

text \<open>\<open>yields m Q\<close>: whatever the world is, the value \<open>m\<close> returns satisfies \<open>Q\<close>.\<close>

definition yields :: "('w, 'a) state \<Rightarrow> ('a \<Rightarrow> bool) \<Rightarrow> bool" where
  "yields m Q \<longleftrightarrow> (\<forall>w. Q (fst (run_state m w)))"

named_theorems yields_intro \<open>one rule per construct for the value of an operation\<close>

lemma yields_run: "yields m Q \<Longrightarrow> run_state m w = (x, w') \<Longrightarrow> Q x"
  unfolding yields_def by (metis fst_conv)

lemma yields_ret [yields_intro]: "Q x \<Longrightarrow> yields (ret x) Q"
  by (simp add: yields_def)

lemma yields_sub:
  assumes "yields m P" "\<And>x. P x \<Longrightarrow> yields (f x) Q"
  shows "yields (State_Monad.bind m f) Q"
  using assms unfolding yields_def by (simp add: run_state_bind split: prod.split) (metis fst_conv)

lemma yields_bind [yields_intro]: "(\<And>x. yields (f x) Q) \<Longrightarrow> yields (State_Monad.bind m f) Q"
  by (rule yields_sub [of _ "\<lambda>_. True"]) (simp_all add: yields_def)

lemma yields_if [yields_intro]:
  "(b \<Longrightarrow> yields m Q) \<Longrightarrow> (\<not> b \<Longrightarrow> yields n Q) \<Longrightarrow> yields (if b then m else n) Q"
  by simp

lemma yields_case_sum [yields_intro]:
  assumes "\<And>a. x = Inl a \<Longrightarrow> yields (f a) Q" "\<And>b. x = Inr b \<Longrightarrow> yields (g b) Q"
  shows "yields (case x of Inl a \<Rightarrow> f a | Inr b \<Rightarrow> g b) Q"
  using assms by (cases x) simp_all

lemma yields_case_option [yields_intro]:
  assumes "x = None \<Longrightarrow> yields m Q" "\<And>a. x = Some a \<Longrightarrow> yields (f a) Q"
  shows "yields (case x of None \<Rightarrow> m | Some a \<Rightarrow> f a) Q"
  using assms by (cases x) simp_all

lemma yields_case_prod [yields_intro]:
  assumes "\<And>a b. x = (a, b) \<Longrightarrow> yields (f a b) Q"
  shows "yields (case x of (a, b) \<Rightarrow> f a b) Q"
  using assms by (cases x) simp_all

lemma yields_let [yields_intro]: "(\<And>y. y = x \<Longrightarrow> yields (f y) Q) \<Longrightarrow> yields (Let x f) Q"
  by simp

end
