(* ===== verification/Attach.thy ===== *)
theory Attach
  imports Sweeper Command Trace "HOL-Library.AList"
begin

text \<open>
  The acting half of placement, \<open>internal/placement/attach.go\<close>: asking Hosts to attach a
  session, reading each answer, binding with the epoch the answer carries and delivering the
  wake. The configuration of \<open>reconciler.go\<close> and the seams of \<open>workload.go\<close> are here too,
  because both halves read them. Every seam is a function in the state monad over an arbitrary
  world, so another replica may change anything between two calls. Core's constants and pure
  functions (record validation, endpoint derivation, the intent of a record, the SHA-256
  digest in hexadecimal) are members of the configuration; the constant wire version each
  request carries is left out. Log lines are not modelled, except
  the rate-limited report of incapable candidates, which has state of its own.
\<close>

section \<open>Requests of the seams\<close>

record catalog_entry =
  ce_record :: catalog_record
  ce_revision :: u64

record target_key =
  tk_agent :: string
  tk_runtime :: string
  tk_placement :: placement

record intent =
  in_tenant :: tenant_id
  in_session :: session_id
  in_agent :: string
  in_runtime :: string
  in_generation :: u64
  in_workload :: desired_workload

record desired_update =
  du_key :: session_key
  du_revision :: u64
  du_idempotency :: string
  du_placement :: placement
  du_runtime :: string
  du_workload :: desired_workload

datatype attach_mode_t = AttachCreate | AttachRestore

record attach_req =
  at_tenant :: tenant_id
  at_session :: session_id
  at_host :: host_id
  at_generation :: u64
  at_agent :: string
  at_runtime :: string
  at_mode :: attach_mode_t
  at_actor :: string
  at_idempotency :: string

record dedicated_endpoint =
  de_host :: host_id
  de_generation :: u64
  de_endpoint :: string

section \<open>Configuration\<close>

text \<open>A capability question has the error or the answer; the zero answer beside an error is not read.\<close>

record 'w host_links =
  lk_attach :: "string \<Rightarrow> attach_req \<Rightarrow> ('w, perr + registry_observation) state"
  lk_bind :: "string \<Rightarrow> bind_request \<Rightarrow> ('w, perr option) state"
  lk_unbind :: "unbind_request \<Rightarrow> ('w, perr option) state"
  lk_deliver :: "tenant_id \<Rightarrow> session_id \<Rightarrow> command_id \<Rightarrow> ('w, perr option) state"
  lk_route_for :: "tenant_id \<Rightarrow> session_id \<Rightarrow> ('w, host_id option) state"
  lk_gates :: "registry_observation \<Rightarrow> ('w, perr + bool) state"
  lk_references :: "registry_observation \<Rightarrow> ('w, perr + bool) state"
  lk_principal :: "registry_observation \<Rightarrow> ('w, perr + bool) state"

text \<open>
  Endpoint discovery is an optional interface of a controller; its reply is the endpoint and
  whether it is ready.
\<close>

record 'w workload_controller =
  wl_ensure :: "intent \<Rightarrow> ('w, perr option) state"
  wl_observe :: "intent \<Rightarrow> ('w, perr + registry_observation option) state"
  wl_endpoint :: "(intent \<Rightarrow> ('w, perr + (dedicated_endpoint \<times> bool)) state) option"

record 'w place_config =
  pc_owner :: "tenant_id \<Rightarrow> session_id \<Rightarrow> ('w, perr + registry_observation option) state"
  pc_candidates :: "target_key \<Rightarrow> int \<Rightarrow> ('w, perr + capacity_report list) state"
  pc_get :: "session_key \<Rightarrow> ('w, perr + catalog_entry) state"
  pc_update :: "desired_update \<Rightarrow> ('w, perr + catalog_entry) state"
  pc_acquire :: "claim_request \<Rightarrow> ('w, perr option) state"
  pc_release :: "session_key \<Rightarrow> string \<Rightarrow> ('w, perr option) state"
  pc_workloads :: "'w workload_controller option"
  pc_now :: "('w, time) state"
  pc_holder :: string
  pc_claim_ttl :: int
  pc_candidate_limit :: int
  pc_links :: "'w host_links option"
  pc_actor :: string
  pc_replace_attempts :: int
  pc_replace_backoff :: int
  pc_wait :: "(int \<Rightarrow> ('w, perr option) state) option"
  pc_draw :: "(int \<Rightarrow> ('w, int) state) option" \<comment> \<open>the \<open>draw\<close> member of the reconciler\<close>
  pc_rand :: "int \<Rightarrow> ('w, int) state" \<comment> \<open>\<open>rand.N\<close>\<close>
  pc_timer :: "int \<Rightarrow> ('w, perr option) state" \<comment> \<open>a timer or the end of the context\<close>
  pc_obs_valid :: "registry_observation \<Rightarrow> bool"
  pc_host_valid :: "host_id \<Rightarrow> bool"
  pc_hostlink :: "string \<Rightarrow> tenant_id \<Rightarrow> perr option"
  pc_intent :: "catalog_record \<Rightarrow> perr + intent"
  pc_sha :: "bytes \<Rightarrow> string"
  pc_placement_text :: "placement \<Rightarrow> string"
  pc_mode_text :: "attach_mode_t \<Rightarrow> string"
  pc_error_text :: "perr \<Rightarrow> string"
  pc_reference_name :: string
  pc_principal_name :: string

record desired =
  dd_placement :: placement
  dd_runtime :: string
  dd_workload :: desired_workload

record place_request =
  rq_tenant :: tenant_id
  rq_session :: session_id
  rq_desired :: "desired option"
  rq_wake :: "command_id list"
  rq_gates :: "command_id list"
  rq_references :: "command_id list"
  rq_principals :: "command_id list"
  rq_restore :: bool

definition rq_key :: "place_request \<Rightarrow> session_key" where
  "rq_key req = \<lparr>sk_tenant = rq_tenant req, sk_session = rq_session req\<rparr>"

section \<open>Results\<close>

record candidate_refusal =
  cr_host :: host_id
  cr_generation :: u64
  cr_code :: hostlink_code

text \<open>Go's zero values of an observation and a decision.\<close>

definition zero_observation :: registry_observation where
  "zero_observation = \<lparr>obs_tenant = [], obs_session = [], obs_host = [], obs_generation = 0,
     obs_epoch = 0, obs_endpoint = [], obs_runtime = [], obs_agent = [],
     obs_placement = OtherPlacement [], obs_residency = OtherResidency [], obs_accepting = False,
     obs_expires = 0\<rparr>"

definition plain_decision :: "outcome \<Rightarrow> decision" where
  "plain_decision oc = \<lparr>dec_outcome = oc, dec_owner = None, dec_target = None\<rparr>"

definition reuse_decision :: "registry_observation \<Rightarrow> decision" where
  "reuse_decision obs = \<lparr>dec_outcome = OutcomeReuseOwner, dec_owner = Some obs, dec_target = None\<rparr>"

definition attach_decision :: "capacity_report \<Rightarrow> decision" where
  "attach_decision c = \<lparr>dec_outcome = OutcomeAttachPooled, dec_owner = None, dec_target = Some c\<rparr>"

record result =
  res_decision :: decision
  res_deferred :: bool
  res_claim_expires :: time
  res_desired_writes :: int
  res_intent :: "intent option" \<comment> \<open>\<open>None\<close> is the zero intent\<close>
  res_attached :: registry_observation
  res_bound :: bool
  res_delivered :: int
  res_delivery_failures :: int
  res_withheld_gates :: int
  res_withheld_principals :: int
  res_excluded :: "host_id list"
  res_unreachable :: "host_id list"
  res_unaddressable :: "host_id list"
  res_incapable :: "host_id list"
  res_refused :: "candidate_refusal list"
  res_failed :: "host_id list"
  res_replacements :: int

definition zero_result :: result where
  "zero_result = \<lparr>res_decision = plain_decision OutcomeUndecided, res_deferred = False,
     res_claim_expires = 0, res_desired_writes = 0, res_intent = None,
     res_attached = zero_observation, res_bound = False, res_delivered = 0,
     res_delivery_failures = 0, res_withheld_gates = 0, res_withheld_principals = 0,
     res_excluded = [], res_unreachable = [], res_unaddressable = [], res_incapable = [],
     res_refused = [], res_failed = [], res_replacements = 0\<rparr>"

text \<open>A reconciliation returns its result and an error, or nil.\<close>

type_synonym 'w placing = "('w, result \<times> perr option) state"

section \<open>Bounds and backoff\<close>

definition millisecond :: int where "millisecond = 1000000"
definition second :: int where "second = 1000 * millisecond"

definition default_replace_attempts :: int where "default_replace_attempts = 3"
definition default_replace_backoff :: int where "default_replace_backoff = 200 * millisecond"
definition max_replace_attempts :: int where "max_replace_attempts = 10"
definition max_replace_backoff :: int where "max_replace_backoff = 5 * second"

definition attach_config_error :: "'w place_config \<Rightarrow> perr option" where
  "attach_config_error cfg =
     (if pc_links cfg = None then None
      else if pc_actor cfg = [] then Some (Wrapped [Sentinel PErrInvalidConfig])
      else if pc_replace_attempts cfg < 0 \<or> pc_replace_attempts cfg > max_replace_attempts
           then Some (Wrapped [Sentinel PErrInvalidConfig])
      else if pc_replace_backoff cfg < 0 \<or> pc_replace_backoff cfg > max_replace_backoff
           then Some (Wrapped [Sentinel PErrInvalidConfig])
      else None)"

definition replace_attempts :: "'w place_config \<Rightarrow> int" where
  "replace_attempts cfg =
     (if pc_replace_attempts cfg = 0 then default_replace_attempts else pc_replace_attempts cfg)"

text \<open>A \<open>time.Duration\<close> is a signed 64-bit integer, so doubling may wrap.\<close>

definition wrap64 :: "int \<Rightarrow> int" where
  "wrap64 x = (x + 2 ^ 63) mod 2 ^ 64 - 2 ^ 63"

fun double_until :: "nat \<Rightarrow> int \<Rightarrow> int" where
  "double_until 0 d = d"
| "double_until (Suc k) d =
     (if d < max_replace_backoff then double_until k (wrap64 (d * 2)) else d)"

definition backoff :: "'w place_config \<Rightarrow> nat \<Rightarrow> int" where
  "backoff cfg n =
     (let d = (if pc_replace_backoff cfg = 0 then default_replace_backoff else pc_replace_backoff cfg)
      in min (double_until (n - 1) d) max_replace_backoff)"

definition jittered :: "'w place_config \<Rightarrow> int \<Rightarrow> ('w, int) state" where
  "jittered cfg d =
     (let half = d div 2
      in if half \<le> 0 then ret d
         else do { r \<leftarrow> pc_rand cfg (d - half + 1); ret (half + r) })"

definition draw_or_default :: "'w place_config \<Rightarrow> int \<Rightarrow> ('w, int) state" where
  "draw_or_default cfg = (case pc_draw cfg of Some draw \<Rightarrow> draw | None \<Rightarrow> jittered cfg)"

definition wait_for :: "'w place_config \<Rightarrow> int \<Rightarrow> ('w, perr option) state" where
  "wait_for cfg d =
     (case pc_wait cfg of
        Some w \<Rightarrow> w d
      | None \<Rightarrow> do { t \<leftarrow> draw_or_default cfg d; pc_timer cfg t })"

section \<open>Classification of answers\<close>

datatype capability = CapReference | CapGate | CapPrincipal

datatype gate_capability =
  GateCapable | GateIncapable | GateUnaddressable | GateUnreachable | GateAbort

definition classify_gate_capability :: "perr + bool \<Rightarrow> gate_capability \<times> perr option" where
  "classify_gate_capability r =
     (case r of
        Inr True \<Rightarrow> (GateCapable, None)
      | Inr False \<Rightarrow> (GateIncapable, None)
      | Inl err \<Rightarrow>
          if errors_is ErrTenantUnaddressable err then (GateUnaddressable, Some err)
          else if errors_is ErrHostUnreachable err then (GateUnreachable, Some err)
          else (GateAbort, Some err))"

datatype answer =
    AnswerAbort | AnswerAccepted | AnswerStale | AnswerRefused | AnswerUnsupported
  | AnswerUnreachable | AnswerFailed | AnswerUnaddressable

definition attach_refusal_of :: "place_error \<Rightarrow> hostlink_code option" where
  "attach_refusal_of e = (case e of AttachRefusal c \<Rightarrow> Some c | _ \<Rightarrow> None)"

definition attach_answer :: "perr option \<Rightarrow> answer \<times> hostlink_code" where
  \<comment> \<open>The empty code is \<open>OtherHostLink []\<close>.\<close>
  "attach_answer e =
     (case e of
        None \<Rightarrow> (AnswerAccepted, OtherHostLink [])
      | Some err \<Rightarrow>
          (case errors_as attach_refusal_of err of
             Some code \<Rightarrow>
               if code = EpochMismatch then (AnswerStale, code) else (AnswerRefused, code)
           | None \<Rightarrow>
               if errors_is ErrAttachUnsupported err then (AnswerUnsupported, OtherHostLink [])
               else if errors_is ErrTenantUnaddressable err then (AnswerUnaddressable, OtherHostLink [])
               else if errors_is ErrHostUnreachable err then (AnswerUnreachable, OtherHostLink [])
               else if errors_is ErrAttachFailed err then (AnswerFailed, OtherHostLink [])
               else (AnswerAbort, OtherHostLink [])))"

section \<open>Requests and keys\<close>

definition framed :: "string list \<Rightarrow> bytes" where
  "framed fs = concat (map frame fs)"

definition framed_key :: "'w place_config \<Rightarrow> string \<Rightarrow> string list \<Rightarrow> string" where
  "framed_key cfg domain fs = pc_sha cfg (framed (domain # fs))"

definition attach_mode :: "catalog_record \<Rightarrow> attach_mode_t" where
  "attach_mode rec =
     (if cat_last_seq rec = 0 \<and> cat_checkpoint_seq rec = 0 then AttachCreate else AttachRestore)"

definition attach_fields :: "'w place_config \<Rightarrow> catalog_record \<Rightarrow> attach_mode_t \<Rightarrow> string list" where
  "attach_fields cfg rec mode =
     [cat_tenant rec, cat_session rec, cat_agent rec, cat_runtime rec, pc_mode_text cfg mode,
      decimal (unat (cat_generation rec))]"

definition attach_key :: "'w place_config \<Rightarrow> catalog_record \<Rightarrow> attach_mode_t \<Rightarrow> string" where
  "attach_key cfg rec mode = framed_key cfg ''placement-attach/v1'' (attach_fields cfg rec mode)"

definition attach_request ::
  "'w place_config \<Rightarrow> catalog_record \<Rightarrow> host_id \<Rightarrow> u64 \<Rightarrow> attach_mode_t \<Rightarrow> attach_req" where
  \<comment> \<open>The Host fence is the identifier and generation of the candidate.\<close>
  "attach_request cfg rec host generation mode =
     \<lparr>at_tenant = cat_tenant rec, at_session = cat_session rec, at_host = host,
      at_generation = generation, at_agent = cat_agent rec, at_runtime = cat_runtime rec,
      at_mode = mode, at_actor = pc_actor cfg, at_idempotency = attach_key cfg rec mode\<rparr>"

definition bind_request_for :: "'w place_config \<Rightarrow> registry_observation \<Rightarrow> bind_request" where
  "bind_request_for cfg obs =
     \<lparr>br_tenant = obs_tenant obs, br_session = obs_session obs, br_host = obs_host obs,
      br_generation = obs_generation obs, br_epoch = obs_epoch obs, br_runtime = obs_runtime obs,
      br_idempotency = framed_key cfg ''placement-bind/v1''
        [obs_tenant obs, obs_session obs, obs_host obs, decimal (unat (obs_generation obs)),
         decimal (unat (obs_epoch obs))]\<rparr>"

definition unbind_request_for :: "bind_request \<Rightarrow> unbind_request" where
  "unbind_request_for b =
     \<lparr>ub_tenant = br_tenant b, ub_session = br_session b, ub_host = br_host b,
      ub_generation = br_generation b, ub_epoch = br_epoch b, ub_idempotency = br_idempotency b\<rparr>"

definition target_key_of :: "catalog_record \<Rightarrow> target_key" where
  "target_key_of rec =
     \<lparr>tk_agent = cat_agent rec, tk_runtime = cat_runtime rec, tk_placement = cat_placement rec\<rparr>"

section \<open>Binding and delivering\<close>

text \<open>
  Three capabilities are asked for by the same code: of body references, of gate responses and
  of attributed commands. Each has its commands in the request and its question of the seam.
\<close>

definition needs :: "place_request \<Rightarrow> capability \<Rightarrow> command_id list" where
  "needs req cap =
     (case cap of CapReference \<Rightarrow> rq_references req | CapGate \<Rightarrow> rq_gates req | CapPrincipal \<Rightarrow> rq_principals req)"

definition accepts ::
  "'w host_links \<Rightarrow> capability \<Rightarrow> registry_observation \<Rightarrow> ('w, perr + bool) state" where
  "accepts lk cap =
     (case cap of CapReference \<Rightarrow> lk_references lk | CapGate \<Rightarrow> lk_gates lk | CapPrincipal \<Rightarrow> lk_principal lk)"

text \<open>The answers of one delivery; \<open>None\<close> while a question was not asked.\<close>

type_synonym asked = "capability \<Rightarrow> (perr + bool) option"

definition command_set :: "command_id list \<Rightarrow> command_id set" where
  "command_set ids = set ids"

definition ask_once :: "(perr + bool) option \<Rightarrow> ('w, perr + bool) state \<Rightarrow> ('w, perr + bool) state" where
  "ask_once known ask = (case known of Some r \<Rightarrow> ret r | None \<Rightarrow> ask)"

definition withhold :: "capability \<Rightarrow> result \<Rightarrow> result" where
  "withhold cap res =
     (case cap of
        CapReference \<Rightarrow> res
      | CapGate \<Rightarrow> res\<lparr>res_withheld_gates := res_withheld_gates res + 1\<rparr>
      | CapPrincipal \<Rightarrow> res\<lparr>res_withheld_principals := res_withheld_principals res + 1\<rparr>)"

definition deliver_one ::
  "'w host_links \<Rightarrow> place_request \<Rightarrow> command_id \<Rightarrow> result \<Rightarrow> ('w, result) state" where
  "deliver_one lk req cmd res = do {
     e \<leftarrow> lk_deliver lk (rq_tenant req) (rq_session req) cmd;
     ret (case e of
            Some err \<Rightarrow> res\<lparr>res_delivery_failures := res_delivery_failures res + 1\<rparr>
          | None \<Rightarrow> res\<lparr>res_delivered := res_delivered res + 1\<rparr>)
   }"

definition wake_check ::
  "'w host_links \<Rightarrow> place_request \<Rightarrow> registry_observation \<Rightarrow> command_id \<Rightarrow> result \<Rightarrow> capability \<Rightarrow>
   asked \<Rightarrow> (asked \<Rightarrow> ('w, asked \<times> result) state) \<Rightarrow> ('w, asked \<times> result) state" where
  "wake_check lk req obs cmd res cap asks k =
     (if cmd \<in> command_set (needs req cap) then do {
        r \<leftarrow> ask_once (asks cap) (accepts lk cap obs);
        let asks1 = asks(cap := Some r);
        if r \<noteq> Inr True then ret (asks1, withhold cap res) else k asks1
      }
      else k asks)"

definition wake_command ::
  "'w host_links \<Rightarrow> place_request \<Rightarrow> registry_observation \<Rightarrow> command_id \<Rightarrow> asked \<Rightarrow> result \<Rightarrow>
   ('w, asked \<times> result) state" where
  "wake_command lk req obs cmd asks res =
     wake_check lk req obs cmd res CapReference asks (\<lambda>asks1.
     wake_check lk req obs cmd res CapGate asks1 (\<lambda>asks2.
     wake_check lk req obs cmd res CapPrincipal asks2 (\<lambda>asks3. do {
       res1 \<leftarrow> deliver_one lk req cmd res;
       ret (asks3, res1)
     })))"

fun wake_loop ::
  "'w host_links \<Rightarrow> place_request \<Rightarrow> registry_observation \<Rightarrow> command_id list \<Rightarrow> asked \<Rightarrow> result \<Rightarrow>
   ('w, result) state" where
  "wake_loop lk req obs [] asks res = ret res"
| "wake_loop lk req obs (cmd # cmds) asks res = do {
     x \<leftarrow> wake_command lk req obs cmd asks res;
     wake_loop lk req obs cmds (fst x) (snd x)
   }"

definition bind_and_deliver ::
  "'w place_config \<Rightarrow> 'w host_links \<Rightarrow> place_request \<Rightarrow> registry_observation \<Rightarrow> result \<Rightarrow> bool \<Rightarrow> 'w placing" where
  "bind_and_deliver cfg lk req obs res attached = do {
     let breq = bind_request_for cfg obs;
     routed \<leftarrow> lk_route_for lk (rq_tenant req) (rq_session req);
     e \<leftarrow> lk_bind lk (obs_endpoint obs) breq;
     case e of
       Some err \<Rightarrow>
         if attached then ret (res, Some (Wrapped [Sentinel ErrBindAfterAttach, err]))
         else ret (res, Some err)
     | None \<Rightarrow> do {
         res1 \<leftarrow> wake_loop lk req obs (rq_wake req) Map.empty (res\<lparr>res_bound := True\<rparr>);
         if routed = None then do {
           u \<leftarrow> lk_unbind lk (unbind_request_for breq);
           ret (res1, None)
         } else ret (res1, None)
       }
   }"

definition bind_attached ::
  "'w place_config \<Rightarrow> 'w host_links \<Rightarrow> place_request \<Rightarrow> registry_observation \<Rightarrow> result \<Rightarrow> 'w placing" where
  "bind_attached cfg lk req obs res = bind_and_deliver cfg lk req obs res True"

definition wake :: "'w place_config \<Rightarrow> place_request \<Rightarrow> registry_observation \<Rightarrow> result \<Rightarrow> 'w placing" where
  "wake cfg req owner res =
     (case pc_links cfg of
        None \<Rightarrow> ret (res, None)
      | Some lk \<Rightarrow>
          if rq_wake req = [] then ret (res, None)
          else bind_and_deliver cfg lk req owner res False)"

section \<open>Incapable candidates\<close>

definition incapable_report_interval :: int where
  "incapable_report_interval = 5 * 60 * second"

definition max_incapable_reports :: nat where
  "max_incapable_reports = 4096"

text \<open>
  The suppression table has each key once. The lines written to the log are kept with it: the
  session, the skipped Hosts with their reasons, and whether the session still waits.
\<close>

datatype incapable_message = PendingGate | PendingBody | PendingPrincipal

record incapable_line =
  il_message :: incapable_message
  il_key :: session_key
  il_gates :: nat
  il_references :: nat
  il_principals :: nat
  il_hosts :: "string list"
  il_waiting :: bool
  il_at :: time \<comment> \<open>the clock reading the suppression is decided by\<close>

record reports =
  rp_table :: "(session_key \<times> time) list"
  rp_written :: "incapable_line list"

definition incapable_line_of ::
  "place_request \<Rightarrow> result \<Rightarrow> (host_id \<Rightarrow> string) \<Rightarrow> time \<Rightarrow> incapable_line" where
  "incapable_line_of req res reasons now =
     \<lparr>il_message =
        (if rq_principals req \<noteq> [] \<and> rq_references req = [] then PendingPrincipal
         else if rq_references req \<noteq> [] then PendingBody else PendingGate),
      il_key = rq_key req, il_gates = length (rq_gates req),
      il_references = length (rq_references req), il_principals = length (rq_principals req),
      il_hosts = map (\<lambda>h. if reasons h \<noteq> [] then h @ '' ('' @ reasons h @ '')'' else h) (res_incapable res),
      il_waiting = (dec_outcome (res_decision res) \<noteq> OutcomeAttachPooled), il_at = now\<rparr>"

definition prune_reports :: "time \<Rightarrow> (session_key \<times> time) list \<Rightarrow> (session_key \<times> time) list" where
  "prune_reports now t =
     (if length t \<ge> max_incapable_reports
      then filter (\<lambda>(k, at). \<not> now - at \<ge> incapable_report_interval) t else t)"

definition report_at ::
  "place_request \<Rightarrow> result \<Rightarrow> (host_id \<Rightarrow> string) \<Rightarrow> time \<Rightarrow> reports \<Rightarrow> reports" where
  "report_at req res reasons now rp =
     (if (case map_of (rp_table rp) (rq_key req) of
            Some written \<Rightarrow> now - written < incapable_report_interval
          | None \<Rightarrow> False)
      then rp
      else let t = prune_reports now (rp_table rp);
               t1 = (if length t < max_incapable_reports then AList.update (rq_key req) now t else t)
           in \<lparr>rp_table = t1, rp_written = rp_written rp @ [incapable_line_of req res reasons now]\<rparr>)"

definition report_incapable ::
  "'w place_config \<Rightarrow> place_request \<Rightarrow> result \<Rightarrow> (host_id \<Rightarrow> string) \<Rightarrow> reports \<Rightarrow> ('w, reports) state" where
  "report_incapable cfg req res reasons rp =
     (if res_incapable res = [] then ret rp
      else do { now \<leftarrow> pc_now cfg; ret (report_at req res reasons now rp) })"

section \<open>Pooled placement\<close>

definition candidate_observation :: "place_request \<Rightarrow> host_id \<Rightarrow> u64 \<Rightarrow> string \<Rightarrow> registry_observation" where
  "candidate_observation req host generation endpoint =
     zero_observation\<lparr>obs_tenant := rq_tenant req, obs_session := rq_session req, obs_host := host,
       obs_generation := generation, obs_endpoint := endpoint\<rparr>"

definition capacity_observation :: "place_request \<Rightarrow> capacity_report \<Rightarrow> registry_observation" where
  "capacity_observation req c = candidate_observation req (cap_host c) (cap_generation c) (cap_endpoint c)"

definition applies ::
  "'w host_links \<Rightarrow> capability \<Rightarrow> place_request \<Rightarrow> capacity_report \<Rightarrow> ('w, gate_capability \<times> perr option) state" where
  "applies lk cap req c = do {
     r \<leftarrow> accepts lk cap (capacity_observation req c);
     ret (classify_gate_capability r)
   }"

text \<open>What a pass carries through its candidates: the result so far and why a Host was incapable.\<close>

type_synonym why = "host_id \<Rightarrow> string"
type_synonym pass = "result \<times> why"

datatype filtered = Passed | Skipped pass | Stopped "perr option"

definition skip_unaddressable :: "host_id \<Rightarrow> pass \<Rightarrow> pass" where
  "skip_unaddressable h = apfst (\<lambda>res. res\<lparr>res_unaddressable := res_unaddressable res @ [h]\<rparr>)"

definition skip_unreachable :: "host_id \<Rightarrow> pass \<Rightarrow> pass" where
  "skip_unreachable h = apfst (\<lambda>res. res\<lparr>res_unreachable := res_unreachable res @ [h]\<rparr>)"

definition skip_incapable :: "host_id \<Rightarrow> string option \<Rightarrow> pass \<Rightarrow> pass" where
  "skip_incapable h reason =
     map_prod (\<lambda>res. res\<lparr>res_incapable := res_incapable res @ [h]\<rparr>)
              (\<lambda>why. case reason of Some t \<Rightarrow> why(h := t) | None \<Rightarrow> why)"

text \<open>One capability filter: what each verdict does to the pass.\<close>

definition apply_verdict ::
  "host_id \<Rightarrow> (perr option \<Rightarrow> string option) \<Rightarrow> pass \<Rightarrow> gate_capability \<times> perr option \<Rightarrow> filtered" where
  "apply_verdict h reason p v =
     (case v of
        (GateUnaddressable, err) \<Rightarrow> Skipped (skip_unaddressable h p)
      | (GateIncapable, err) \<Rightarrow> Skipped (skip_incapable h (reason err) p)
      | (GateUnreachable, err) \<Rightarrow> Skipped (skip_unreachable h p)
      | (GateAbort, err) \<Rightarrow> Stopped err
      | (GateCapable, err) \<Rightarrow> Passed)"

definition incapable_reason :: "'w place_config \<Rightarrow> capability \<Rightarrow> perr option \<Rightarrow> string option" where
  "incapable_reason cfg cap err =
     (case cap of
        CapGate \<Rightarrow> map_option (pc_error_text cfg) err
      | CapReference \<Rightarrow> Some (''does not advertise '' @ pc_reference_name cfg)
      | CapPrincipal \<Rightarrow> Some (''does not advertise '' @ pc_principal_name cfg))"

fun filter_candidate ::
  "'w place_config \<Rightarrow> 'w host_links \<Rightarrow> place_request \<Rightarrow> capacity_report \<Rightarrow> pass \<Rightarrow> capability list \<Rightarrow>
   ('w, filtered) state" where
  "filter_candidate cfg lk req c p [] = ret Passed"
| "filter_candidate cfg lk req c p (cap # caps) =
     (if needs req cap = [] then filter_candidate cfg lk req c p caps
      else do {
        v \<leftarrow> applies lk cap req c;
        case apply_verdict (cap_host c) (incapable_reason cfg cap) p v of
          Passed \<Rightarrow> filter_candidate cfg lk req c p caps
        | stop \<Rightarrow> ret stop
      })"

text \<open>
  What a candidate, or the loop over a page, comes to: the operation returns, the registry was
  stale, or the pass goes on.
\<close>

datatype scanned = Returned "result \<times> perr option" why | Stale pass | Continued pass

definition refuse :: "host_id \<Rightarrow> u64 \<Rightarrow> hostlink_code \<Rightarrow> result \<Rightarrow> result" where
  "refuse h g code res =
     res\<lparr>res_refused := res_refused res @ [\<lparr>cr_host = h, cr_generation = g, cr_code = code\<rparr>]\<rparr>"

text \<open>The switch on a failed attach: the pass goes on, but for a stale registry and an unknown effect.\<close>

definition attach_failed :: "capacity_report \<Rightarrow> pass \<Rightarrow> perr \<Rightarrow> scanned" where
  "attach_failed c p err =
     (case attach_answer (Some err) of
        (AnswerStale, code) \<Rightarrow> Stale (apfst (refuse (cap_host c) (cap_generation c) code) p)
      | (AnswerRefused, code) \<Rightarrow> Continued (apfst (refuse (cap_host c) (cap_generation c) code) p)
      | (AnswerUnsupported, code) \<Rightarrow>
          Continued (apfst (\<lambda>res. res\<lparr>res_excluded := res_excluded res @ [cap_host c]\<rparr>) p)
      | (AnswerUnreachable, code) \<Rightarrow> Continued (skip_unreachable (cap_host c) p)
      | (AnswerUnaddressable, code) \<Rightarrow> Continued (skip_unaddressable (cap_host c) p)
      | (AnswerFailed, code) \<Rightarrow>
          Continued (apfst (\<lambda>res. res\<lparr>res_failed := res_failed res @ [cap_host c]\<rparr>) p)
      | (_, code) \<Rightarrow> Returned (fst p, Some (Wrapped [err])) (snd p))"

definition attach_candidate ::
  "'w place_config \<Rightarrow> 'w host_links \<Rightarrow> place_request \<Rightarrow> catalog_record \<Rightarrow> capacity_report \<Rightarrow> pass \<Rightarrow>
   ('w, scanned) state" where
  "attach_candidate cfg lk req rec c p = do {
     r \<leftarrow> lk_attach lk (cap_endpoint c)
           (attach_request cfg rec (cap_host c) (cap_generation c) (attach_mode rec));
     case r of
       Inr obs \<Rightarrow> do {
         x \<leftarrow> bind_attached cfg lk req obs
               ((fst p)\<lparr>res_decision := attach_decision c, res_attached := obs\<rparr>);
         ret (Returned x (snd p))
       }
     | Inl err \<Rightarrow> ret (attach_failed c p err)
   }"

fun scan_candidates ::
  "'w place_config \<Rightarrow> 'w host_links \<Rightarrow> place_request \<Rightarrow> catalog_record \<Rightarrow> capacity_report list \<Rightarrow> pass \<Rightarrow>
   ('w, scanned) state" where
  "scan_candidates cfg lk req rec [] p = ret (Continued p)"
| "scan_candidates cfg lk req rec (c # cs) p =
     (if \<not> admissible c rec then scan_candidates cfg lk req rec cs p
      else do {
        f \<leftarrow> filter_candidate cfg lk req c p [CapGate, CapReference, CapPrincipal];
        case f of
          Skipped q \<Rightarrow> scan_candidates cfg lk req rec cs q
        | Stopped err \<Rightarrow> ret (Returned (fst p, err) (snd p))
        | Passed \<Rightarrow> do {
            s \<leftarrow> attach_candidate cfg lk req rec c p;
            case s of
              Continued q \<Rightarrow> scan_candidates cfg lk req rec cs q
            | Stale q \<Rightarrow> ret (Stale q)
            | Returned x why \<Rightarrow> ret (Returned x why)
          }
      })"

text \<open>One attempt after the wait: the owner read, the page and the scan.\<close>

definition place_attempt ::
  "'w place_config \<Rightarrow> 'w host_links \<Rightarrow> place_request \<Rightarrow> catalog_record \<Rightarrow> pass \<Rightarrow> ('w, scanned) state" where
  "place_attempt cfg lk req rec p = do {
     o1 \<leftarrow> pc_owner cfg (rq_tenant req) (rq_session req);
     case o1 of
       Inl err \<Rightarrow> ret (Returned (fst p, Some err) (snd p))
     | Inr observed \<Rightarrow> do {
         now \<leftarrow> pc_now cfg;
         let page = do {
           g \<leftarrow> pc_candidates cfg (target_key_of rec) (pc_candidate_limit cfg);
           case g of
             Inl err \<Rightarrow> ret (Returned (fst p, Some err) (snd p))
           | Inr hosts \<Rightarrow> scan_candidates cfg lk req rec hosts p
         };
         case observed of
           Some obs \<Rightarrow>
             if reusable_owner obs rec now then do {
               x \<leftarrow> wake cfg req obs ((fst p)\<lparr>res_decision := reuse_decision obs\<rparr>);
               ret (Returned x (snd p))
             } else page
         | None \<Rightarrow> page
       }
   }"

function place_rounds ::
  "'w place_config \<Rightarrow> 'w host_links \<Rightarrow> place_request \<Rightarrow> catalog_record \<Rightarrow> nat \<Rightarrow> pass \<Rightarrow>
   ('w, (result \<times> perr option) \<times> why) state" where
  "place_rounds cfg lk req rec attempt p = do {
     let p1 = (if attempt > 0 then apfst (\<lambda>res. res\<lparr>res_replacements := res_replacements res + 1\<rparr>) p else p);
     waited \<leftarrow> (if attempt > 0 then wait_for cfg (backoff cfg attempt) else ret None);
     case waited of
       Some err \<Rightarrow> ret ((fst p1, Some err), snd p1)
     | None \<Rightarrow> do {
         s \<leftarrow> place_attempt cfg lk req rec p1;
         case s of
           Returned x why \<Rightarrow> ret (x, why)
         | Continued q \<Rightarrow>
             ret (((fst q)\<lparr>res_decision := plain_decision OutcomeNoCapacity\<rparr>, None), snd q)
         | Stale q \<Rightarrow>
             if int attempt + 1 \<ge> replace_attempts cfg
             then ret (((fst q)\<lparr>res_decision := plain_decision OutcomeNoCapacity\<rparr>,
                        Some (Sentinel ErrRegistryStale)), snd q)
             else place_rounds cfg lk req rec (Suc attempt) q
       }
   }"
  by pat_completeness auto
termination
  by (relation "measure (\<lambda>(cfg, lk, req, rec, attempt, p). nat (replace_attempts cfg - int attempt))") auto

declare place_rounds.simps [simp del]

definition place_pooled_body ::
  "'w place_config \<Rightarrow> 'w host_links \<Rightarrow> place_request \<Rightarrow> int \<Rightarrow> ('w, (result \<times> perr option) \<times> why) state" where
  "place_pooled_body cfg lk req writes = do {
     let res = zero_result\<lparr>res_desired_writes := writes\<rparr>;
     let why = (\<lambda>_. []);
     e \<leftarrow> pc_get cfg (rq_key req);
     case e of
       Inl err \<Rightarrow> ret ((res, Some err), why)
     | Inr entry \<Rightarrow>
         if cat_placement (ce_record entry) \<noteq> Pooled
         then ret ((res\<lparr>res_decision := plain_decision OutcomeUndecided\<rparr>, None), why)
         else place_rounds cfg lk req (ce_record entry) 0 (res, why)
   }"

text \<open>
  The deferred report runs on every return. It reads the incapable Hosts and the outcome, which
  binding and delivering leave as they are, so the returned result has them.
\<close>

definition place_pooled ::
  "'w place_config \<Rightarrow> 'w host_links \<Rightarrow> place_request \<Rightarrow> int \<Rightarrow> reports \<Rightarrow>
   ('w, (result \<times> perr option) \<times> reports) state" where
  "place_pooled cfg lk req writes rp = do {
     x \<leftarrow> place_pooled_body cfg lk req writes;
     rp1 \<leftarrow> report_incapable cfg req (fst (fst x)) (snd x) rp;
     ret (fst x, rp1)
   }"

section \<open>Dedicated placement\<close>

text \<open>
  The catalog is read again and placement goes on only when the record still desires this
  generation of a dedicated workload. The rest of the function is the continuation.
\<close>

definition dedicated_reread ::
  "'w place_config \<Rightarrow> place_request \<Rightarrow> intent \<Rightarrow> result \<Rightarrow> (catalog_record \<Rightarrow> 'w placing) \<Rightarrow> 'w placing" where
  "dedicated_reread cfg req intent res k = do {
     e \<leftarrow> pc_get cfg (rq_key req);
     case e of
       Inl err \<Rightarrow> ret (res, Some err)
     | Inr entry \<Rightarrow>
         if cat_placement (ce_record entry) \<noteq> Dedicated \<or>
            cat_generation (ce_record entry) \<noteq> in_generation intent
         then ret (res\<lparr>res_decision := plain_decision OutcomeUndecided\<rparr>, None)
         else k (ce_record entry)
   }"

text \<open>One capability question of the dedicated path, followed by another read of the catalog.\<close>

definition dedicated_filter ::
  "'w place_config \<Rightarrow> 'w host_links \<Rightarrow> place_request \<Rightarrow> intent \<Rightarrow> dedicated_endpoint \<Rightarrow> result \<Rightarrow> capability \<Rightarrow>
   catalog_record \<Rightarrow> (catalog_record \<Rightarrow> 'w placing) \<Rightarrow> 'w placing" where
  "dedicated_filter cfg lk req intent ep res cap rec k =
     (if needs req cap = [] then k rec
      else do {
        r \<leftarrow> accepts lk cap (candidate_observation req (de_host ep) (de_generation ep) (de_endpoint ep));
        case classify_gate_capability r of
          (GateUnaddressable, err) \<Rightarrow>
            ret (res\<lparr>res_unaddressable := res_unaddressable res @ [de_host ep]\<rparr>, None)
        | (GateUnreachable, err) \<Rightarrow>
            ret (res\<lparr>res_unreachable := res_unreachable res @ [de_host ep]\<rparr>, None)
        | (GateAbort, err) \<Rightarrow> ret (res, err)
        | (GateIncapable, err) \<Rightarrow>
            ret (res\<lparr>res_incapable := res_incapable res @ [de_host ep]\<rparr>, None)
        | (GateCapable, err) \<Rightarrow> dedicated_reread cfg req intent res k
      })"

text \<open>The owner of the session is this workload's: reusable and of the intent's generation.\<close>

definition dedicated_owner :: "registry_observation \<Rightarrow> catalog_record \<Rightarrow> intent \<Rightarrow> time \<Rightarrow> bool" where
  "dedicated_owner obs rec intent now \<longleftrightarrow>
     reusable_owner obs rec now \<and> obs_generation obs = in_generation intent"

text \<open>A valid observation that passes a check against the clock; the clock is read only for a valid one.\<close>

definition valid_now :: "'w place_config \<Rightarrow> registry_observation \<Rightarrow> (time \<Rightarrow> bool) \<Rightarrow> ('w, bool) state" where
  "valid_now cfg obs check =
     (if pc_obs_valid cfg obs then do { now \<leftarrow> pc_now cfg; ret (check now) } else ret False)"

definition dedicated_attach ::
  "'w place_config \<Rightarrow> 'w host_links \<Rightarrow> place_request \<Rightarrow> intent \<Rightarrow> dedicated_endpoint \<Rightarrow> result \<Rightarrow>
   catalog_record \<Rightarrow> 'w placing" where
  "dedicated_attach cfg lk req intent ep res rec = do {
     r \<leftarrow> lk_attach lk (de_endpoint ep)
           (attach_request cfg rec (de_host ep) (de_generation ep) (attach_mode rec));
     case r of
       Inr obs \<Rightarrow> do {
         fits \<leftarrow> valid_now cfg obs (reusable_owner obs rec);
         if \<not> fits \<or> obs_host obs \<noteq> de_host ep \<or> obs_generation obs \<noteq> de_generation ep \<or>
            obs_endpoint obs \<noteq> de_endpoint ep
         then ret (res, Some (Wrapped [Sentinel ErrDedicatedObservationInvalid]))
         else bind_attached cfg lk req obs (res\<lparr>res_attached := obs\<rparr>)
       }
     | Inl err \<Rightarrow>
         (case attach_answer (Some err) of
            (AnswerStale, code) \<Rightarrow> do {
              let res1 = refuse (de_host ep) (de_generation ep) code res;
              o1 \<leftarrow> pc_owner cfg (rq_tenant req) (rq_session req);
              case o1 of
                Inl err \<Rightarrow> ret (res1, Some err)
              | Inr None \<Rightarrow> ret (res1, Some (Sentinel ErrRegistryStale))
              | Inr (Some current) \<Rightarrow> do {
                  now \<leftarrow> pc_now cfg;
                  if dedicated_owner current rec intent now
                  then wake cfg req current (res1\<lparr>res_decision := reuse_decision current\<rparr>)
                  else ret (res1, Some (Sentinel ErrRegistryStale))
                }
            }
          | (AnswerRefused, code) \<Rightarrow> ret (refuse (de_host ep) (de_generation ep) code res, None)
          | (AnswerUnsupported, code) \<Rightarrow>
              ret (res\<lparr>res_excluded := res_excluded res @ [de_host ep]\<rparr>, Some (Sentinel ErrAttachUnsupported))
          | (AnswerUnreachable, code) \<Rightarrow>
              ret (res\<lparr>res_unreachable := res_unreachable res @ [de_host ep]\<rparr>, None)
          | (AnswerUnaddressable, code) \<Rightarrow>
              ret (res\<lparr>res_unaddressable := res_unaddressable res @ [de_host ep]\<rparr>, None)
          | (AnswerFailed, code) \<Rightarrow> ret (res\<lparr>res_failed := res_failed res @ [de_host ep]\<rparr>, None)
          | (_, code) \<Rightarrow> ret (res, Some err))
   }"

definition dedicated_discover ::
  "'w place_config \<Rightarrow> 'w workload_controller \<Rightarrow> place_request \<Rightarrow> intent \<Rightarrow> result \<Rightarrow> 'w placing" where
  "dedicated_discover cfg wl req intent res =
     (case pc_links cfg of
        None \<Rightarrow> ret (res, None)
      | Some lk \<Rightarrow>
          (case wl_endpoint wl of
             None \<Rightarrow> ret (res, Some (Sentinel ErrWorkloadEndpointUnsupported))
           | Some discover \<Rightarrow> do {
               d \<leftarrow> discover intent;
               case d of
                 Inl err \<Rightarrow> ret (res, Some err)
               | Inr (ep, ready) \<Rightarrow>
                   if \<not> ready then ret (res, None)
                   else if \<not> pc_host_valid cfg (de_host ep) \<or> de_generation ep \<noteq> in_generation intent
                   then ret (res, Some (Wrapped [Sentinel ErrDedicatedEndpointInvalid]))
                   else (case pc_hostlink cfg (de_endpoint ep) (in_tenant intent) of
                           Some err \<Rightarrow> ret (res, Some (Wrapped [Sentinel ErrDedicatedEndpointInvalid, err]))
                         | None \<Rightarrow>
                             dedicated_reread cfg req intent res (\<lambda>rec1.
                             dedicated_filter cfg lk req intent ep res CapGate rec1 (\<lambda>rec2.
                             dedicated_filter cfg lk req intent ep res CapReference rec2 (\<lambda>rec3.
                             dedicated_filter cfg lk req intent ep res CapPrincipal rec3 (\<lambda>rec4.
                             dedicated_attach cfg lk req intent ep res rec4)))))
             }))"

text \<open>What is known of the residency: the owner of the registry first, then the controller's observation.\<close>

definition dedicated_known ::
  "'w place_config \<Rightarrow> 'w workload_controller \<Rightarrow> place_request \<Rightarrow> intent \<Rightarrow> result \<Rightarrow> registry_observation option \<Rightarrow>
   catalog_record \<Rightarrow> registry_observation option \<Rightarrow> 'w placing" where
  "dedicated_known cfg wl req intent res observed rec owner = do {
     reuse \<leftarrow> (case owner of
                Some obs \<Rightarrow> do { now \<leftarrow> pc_now cfg; ret (dedicated_owner obs rec intent now) }
              | None \<Rightarrow> ret False);
     if reuse
     then wake cfg req (the owner) (res\<lparr>res_decision := reuse_decision (the owner)\<rparr>)
     else (case observed of
             Some obs \<Rightarrow> do {
               fits \<leftarrow> valid_now cfg obs (dedicated_owner obs rec intent);
               if \<not> fits then ret (res, Some (Wrapped [Sentinel ErrDedicatedObservationInvalid]))
               else wake cfg req obs (res\<lparr>res_decision := reuse_decision obs\<rparr>)
             }
           | None \<Rightarrow> dedicated_discover cfg wl req intent res)
   }"

definition place_dedicated ::
  "'w place_config \<Rightarrow> 'w workload_controller \<Rightarrow> place_request \<Rightarrow> intent \<Rightarrow> result \<Rightarrow> 'w placing" where
  \<comment> \<open>The intent is the one the result carries.\<close>
  "place_dedicated cfg wl req intent res = do {
     ob \<leftarrow> wl_observe wl intent;
     case ob of
       Inl err \<Rightarrow> ret (res, Some err)
     | Inr observed \<Rightarrow>
         dedicated_reread cfg req intent res (\<lambda>rec. do {
           o1 \<leftarrow> pc_owner cfg (rq_tenant req) (rq_session req);
           case o1 of
             Inl err \<Rightarrow> ret (res, Some err)
           | Inr owner \<Rightarrow> dedicated_known cfg wl req intent res observed rec owner
         })
   }"

section \<open>The calls of a placement\<close>

text \<open>A configuration whose seams are logged: each call with the reply it got, in order.\<close>

datatype place_event =
    EvGet session_key "perr + catalog_entry"
  | EvUpdate desired_update "perr + catalog_entry"
  | EvOwner "perr + registry_observation option"
  | EvCandidates target_key int "perr + capacity_report list"
  | EvAcquire claim_request "perr option"
  | EvRelease session_key string
  | EvNow time
  | EvWait int "perr option"
  | EvDraw int
  | EvEnsure intent "perr option"
  | EvObserve intent "perr + registry_observation option"
  | EvEndpoint intent "perr + (dedicated_endpoint \<times> bool)"
  | EvAttach string attach_req "perr + registry_observation"
  | EvBind string bind_request "perr option"
  | EvUnbind unbind_request
  | EvDeliver command_id "perr option"
  | EvRoute "host_id option"
  | EvAsk capability registry_observation "perr + bool"

definition logged_links :: "'w host_links \<Rightarrow> ('w \<times> place_event list) host_links" where
  "logged_links lk =
     \<lparr>lk_attach = \<lambda>ep q. logged (EvAttach ep q) (lk_attach lk ep q),
      lk_bind = \<lambda>ep q. logged (EvBind ep q) (lk_bind lk ep q),
      lk_unbind = \<lambda>q. logged (\<lambda>_. EvUnbind q) (lk_unbind lk q),
      lk_deliver = \<lambda>t s cmd. logged (EvDeliver cmd) (lk_deliver lk t s cmd),
      lk_route_for = \<lambda>t s. logged EvRoute (lk_route_for lk t s),
      lk_gates = \<lambda>obs. logged (EvAsk CapGate obs) (lk_gates lk obs),
      lk_references = \<lambda>obs. logged (EvAsk CapReference obs) (lk_references lk obs),
      lk_principal = \<lambda>obs. logged (EvAsk CapPrincipal obs) (lk_principal lk obs)\<rparr>"

definition logged_workloads :: "'w workload_controller \<Rightarrow> ('w \<times> place_event list) workload_controller" where
  "logged_workloads wl =
     \<lparr>wl_ensure = \<lambda>i. logged (EvEnsure i) (wl_ensure wl i),
      wl_observe = \<lambda>i. logged (EvObserve i) (wl_observe wl i),
      wl_endpoint = map_option (\<lambda>f i. logged (EvEndpoint i) (f i)) (wl_endpoint wl)\<rparr>"

definition logged_config :: "'w place_config \<Rightarrow> ('w \<times> place_event list) place_config" where
  "logged_config cfg =
     \<lparr>pc_owner = \<lambda>t s. logged EvOwner (pc_owner cfg t s),
      pc_candidates = \<lambda>k n. logged (EvCandidates k n) (pc_candidates cfg k n),
      pc_get = \<lambda>k. logged (EvGet k) (pc_get cfg k),
      pc_update = \<lambda>u. logged (EvUpdate u) (pc_update cfg u),
      pc_acquire = \<lambda>q. logged (EvAcquire q) (pc_acquire cfg q),
      pc_release = \<lambda>k h. logged (\<lambda>_. EvRelease k h) (pc_release cfg k h),
      pc_workloads = map_option logged_workloads (pc_workloads cfg),
      pc_now = logged EvNow (pc_now cfg),
      pc_holder = pc_holder cfg, pc_claim_ttl = pc_claim_ttl cfg,
      pc_candidate_limit = pc_candidate_limit cfg,
      pc_links = map_option logged_links (pc_links cfg),
      pc_actor = pc_actor cfg, pc_replace_attempts = pc_replace_attempts cfg,
      pc_replace_backoff = pc_replace_backoff cfg,
      pc_wait = map_option (\<lambda>f d. logged (EvWait d) (f d)) (pc_wait cfg),
      pc_draw = map_option (\<lambda>f d. logged (\<lambda>_. EvDraw d) (f d)) (pc_draw cfg),
      pc_rand = \<lambda>d. logged (\<lambda>_. EvDraw d) (pc_rand cfg d),
      pc_timer = \<lambda>d. logged (EvWait d) (pc_timer cfg d),
      pc_obs_valid = pc_obs_valid cfg, pc_host_valid = pc_host_valid cfg,
      pc_hostlink = pc_hostlink cfg, pc_intent = pc_intent cfg, pc_sha = pc_sha cfg,
      pc_placement_text = pc_placement_text cfg, pc_mode_text = pc_mode_text cfg,
      pc_error_text = pc_error_text cfg, pc_reference_name = pc_reference_name cfg,
      pc_principal_name = pc_principal_name cfg\<rparr>"

lemma logged_links_simps [simp]:
  "lk_attach (logged_links lk) ep q = logged (EvAttach ep q) (lk_attach lk ep q)"
  "lk_bind (logged_links lk) ep b = logged (EvBind ep b) (lk_bind lk ep b)"
  "lk_unbind (logged_links lk) u = logged (\<lambda>_. EvUnbind u) (lk_unbind lk u)"
  "lk_deliver (logged_links lk) t s cmd = logged (EvDeliver cmd) (lk_deliver lk t s cmd)"
  "lk_route_for (logged_links lk) t s = logged EvRoute (lk_route_for lk t s)"
  "lk_gates (logged_links lk) obs = logged (EvAsk CapGate obs) (lk_gates lk obs)"
  "lk_references (logged_links lk) obs = logged (EvAsk CapReference obs) (lk_references lk obs)"
  "lk_principal (logged_links lk) obs = logged (EvAsk CapPrincipal obs) (lk_principal lk obs)"
  by (simp_all add: logged_links_def)

lemma logged_accepts [simp]: "accepts (logged_links lk) cap obs = logged (EvAsk cap obs) (accepts lk cap obs)"
  by (cases cap) (simp_all add: accepts_def)

lemma logged_workloads_simps [simp]:
  "wl_ensure (logged_workloads wl) i = logged (EvEnsure i) (wl_ensure wl i)"
  "wl_observe (logged_workloads wl) i = logged (EvObserve i) (wl_observe wl i)"
  "wl_endpoint (logged_workloads wl) = map_option (\<lambda>f i. logged (EvEndpoint i) (f i)) (wl_endpoint wl)"
  by (simp_all add: logged_workloads_def)

lemma logged_config_simps [simp]:
  "pc_owner (logged_config cfg) t s = logged EvOwner (pc_owner cfg t s)"
  "pc_candidates (logged_config cfg) k n = logged (EvCandidates k n) (pc_candidates cfg k n)"
  "pc_get (logged_config cfg) sk = logged (EvGet sk) (pc_get cfg sk)"
  "pc_update (logged_config cfg) u = logged (EvUpdate u) (pc_update cfg u)"
  "pc_acquire (logged_config cfg) q = logged (EvAcquire q) (pc_acquire cfg q)"
  "pc_release (logged_config cfg) sk h = logged (\<lambda>_. EvRelease sk h) (pc_release cfg sk h)"
  "pc_workloads (logged_config cfg) = map_option logged_workloads (pc_workloads cfg)"
  "pc_now (logged_config cfg) = logged EvNow (pc_now cfg)"
  "pc_holder (logged_config cfg) = pc_holder cfg"
  "pc_claim_ttl (logged_config cfg) = pc_claim_ttl cfg"
  "pc_candidate_limit (logged_config cfg) = pc_candidate_limit cfg"
  "pc_links (logged_config cfg) = map_option logged_links (pc_links cfg)"
  "pc_actor (logged_config cfg) = pc_actor cfg"
  "pc_replace_attempts (logged_config cfg) = pc_replace_attempts cfg"
  "pc_replace_backoff (logged_config cfg) = pc_replace_backoff cfg"
  "pc_wait (logged_config cfg) = map_option (\<lambda>f d. logged (EvWait d) (f d)) (pc_wait cfg)"
  "pc_draw (logged_config cfg) = map_option (\<lambda>f d. logged (\<lambda>_. EvDraw d) (f d)) (pc_draw cfg)"
  "pc_rand (logged_config cfg) d = logged (\<lambda>_. EvDraw d) (pc_rand cfg d)"
  "pc_timer (logged_config cfg) d = logged (EvWait d) (pc_timer cfg d)"
  "pc_obs_valid (logged_config cfg) = pc_obs_valid cfg"
  "pc_host_valid (logged_config cfg) = pc_host_valid cfg"
  "pc_hostlink (logged_config cfg) = pc_hostlink cfg"
  "pc_intent (logged_config cfg) = pc_intent cfg"
  "pc_sha (logged_config cfg) = pc_sha cfg"
  "pc_placement_text (logged_config cfg) = pc_placement_text cfg"
  "pc_mode_text (logged_config cfg) = pc_mode_text cfg"
  by (simp_all add: logged_config_def)

text \<open>What is computed from a configuration alone is the same for the logged one.\<close>

lemma logged_pure [simp]:
  "replace_attempts (logged_config cfg) = replace_attempts cfg"
  "backoff (logged_config cfg) = backoff cfg"
  "attach_key (logged_config cfg) = attach_key cfg"
  "attach_request (logged_config cfg) = attach_request cfg"
  "bind_request_for (logged_config cfg) = bind_request_for cfg"
  by (simp_all add: fun_eq_iff replace_attempts_def backoff_def attach_key_def attach_fields_def framed_key_def
      attach_request_def bind_request_for_def)

section \<open>A sample deployment\<close>

text \<open>One Host; the world counts the attaches asked for, and the first is answered with a stale lease.\<close>

definition sample_residency :: "placement \<Rightarrow> registry_observation" where
  "sample_residency pl = sample_owner\<lparr>obs_placement := pl\<rparr>"

definition sample_links :: "placement \<Rightarrow> nat host_links" where
  "sample_links pl =
     \<lparr>lk_attach = \<lambda>ep q. State (\<lambda>n. (if n = 0 then Inl (Sentinel (AttachRefusal EpochMismatch))
                                    else Inr (sample_residency pl), Suc n)),
      lk_bind = \<lambda>ep q. ret None, lk_unbind = \<lambda>q. ret None, lk_deliver = \<lambda>t s cmd. ret None,
      lk_route_for = \<lambda>t s. ret None, lk_gates = \<lambda>obs. ret (Inr True), lk_references = \<lambda>obs. ret (Inr True),
      lk_principal = \<lambda>obs. ret (Inr False)\<rparr>"

definition sample_intent :: intent where
  "sample_intent = \<lparr>in_tenant = ''t'', in_session = ''s'', in_agent = ''a'', in_runtime = ''r'', in_generation = 1,
     in_workload = \<lparr>dw_version = [], dw_payload = []\<rparr>\<rparr>"

definition sample_workloads :: "nat workload_controller" where
  "sample_workloads =
     \<lparr>wl_ensure = \<lambda>i. ret None, wl_observe = \<lambda>i. ret (Inr None),
      wl_endpoint = Some (\<lambda>i. ret (Inr (\<lparr>de_host = ''h'', de_generation = 1, de_endpoint = ''ep''\<rparr>, True)))\<rparr>"

definition sample_config :: "placement \<Rightarrow> nat place_config" where
  "sample_config pl =
     \<lparr>pc_owner = \<lambda>t s. ret (Inr None),
      pc_candidates = \<lambda>k n. ret (Inr [sample_report CrossTenantIsolated 2]),
      pc_get = \<lambda>k. ret (Inr \<lparr>ce_record = sample_record\<lparr>cat_placement := pl\<rparr>, ce_revision = 1\<rparr>),
      pc_update = \<lambda>u. ret (Inl (Sentinel (PlaceStore (CatalogError CatalogConflict [])))),
      pc_acquire = \<lambda>q. ret None, pc_release = \<lambda>k h. ret None, pc_workloads = Some sample_workloads,
      pc_now = ret 5, pc_holder = ''me'', pc_claim_ttl = 30, pc_candidate_limit = 4,
      pc_links = Some (sample_links pl), pc_actor = ''factory'', pc_replace_attempts = 0, pc_replace_backoff = 0,
      pc_wait = Some (\<lambda>d. ret None), pc_draw = None, pc_rand = \<lambda>d. ret 0, pc_timer = \<lambda>d. ret None,
      pc_obs_valid = \<lambda>obs. True, pc_host_valid = \<lambda>h. True, pc_hostlink = \<lambda>b t. None,
      pc_intent = \<lambda>rec. Inr sample_intent, pc_sha = (\<lambda>bs. bs),
      pc_placement_text = (\<lambda>p. case p of Pooled \<Rightarrow> ''pooled'' | Dedicated \<Rightarrow> ''dedicated'' | OtherPlacement t \<Rightarrow> t),
      pc_mode_text = (\<lambda>m. case m of AttachCreate \<Rightarrow> ''create'' | AttachRestore \<Rightarrow> ''restore''),
      pc_error_text = \<lambda>e. [], pc_reference_name = ''ref'', pc_principal_name = ''principal''\<rparr>"

definition sample_request :: place_request where
  "sample_request = \<lparr>rq_tenant = ''t'', rq_session = ''s'', rq_desired = None, rq_wake = [''c1'', ''c2''],
     rq_gates = [''c1''], rq_references = [], rq_principals = [], rq_restore = False\<rparr>"

section \<open>Binding and delivering\<close>

definition delivered_commands :: "place_event list \<Rightarrow> command_id list" where
  "delivered_commands cs = concat (map (\<lambda>e. case e of EvDeliver cmd r \<Rightarrow> [cmd] | _ \<Rightarrow> []) cs)"

definition failed_deliveries :: "place_event list \<Rightarrow> nat" where
  "failed_deliveries cs = length (filter (\<lambda>e. case e of EvDeliver cmd (Some err) \<Rightarrow> True | _ \<Rightarrow> False) cs)"

definition answers_to :: "capability \<Rightarrow> place_event list \<Rightarrow> (perr + bool) list" where
  "answers_to cap cs = concat (map (\<lambda>e. case e of EvAsk c obs r \<Rightarrow> if c = cap then [r] else [] | _ \<Rightarrow> []) cs)"

definition link_event :: "registry_observation \<Rightarrow> place_event \<Rightarrow> bool" where
  "link_event obs e \<longleftrightarrow>
     (case e of EvDeliver cmd r \<Rightarrow> True | EvAsk cap x r \<Rightarrow> x = obs | _ \<Rightarrow> False)"

lemma trace_simps [simp]:
  "delivered_commands [] = []" "failed_deliveries [] = 0" "answers_to cap [] = []"
  "delivered_commands (e # cs) = (case e of EvDeliver cmd r \<Rightarrow> [cmd] | _ \<Rightarrow> []) @ delivered_commands cs"
  "failed_deliveries (e # cs) = (case e of EvDeliver cmd (Some err) \<Rightarrow> 1 | _ \<Rightarrow> 0) + failed_deliveries cs"
  "answers_to cap (e # cs) = (case e of EvAsk c obs r \<Rightarrow> if c = cap then [r] else [] | _ \<Rightarrow> []) @ answers_to cap cs"
  "delivered_commands (cs @ ds) = delivered_commands cs @ delivered_commands ds"
  "failed_deliveries (cs @ ds) = failed_deliveries cs + failed_deliveries ds"
  "answers_to cap (cs @ ds) = answers_to cap cs @ answers_to cap ds"
  by (auto simp: delivered_commands_def failed_deliveries_def answers_to_def split: place_event.splits option.splits)

text \<open>
  What the answers known so far say of a command: which capabilities let it pass, whether it is
  decided, and where it is held back.
\<close>

definition permits :: "place_request \<Rightarrow> asked \<Rightarrow> capability \<Rightarrow> command_id \<Rightarrow> bool" where
  "permits req asks cap cmd \<longleftrightarrow> cmd \<in> set (needs req cap) \<longrightarrow> asks cap = Some (Inr True)"

definition deliverable :: "place_request \<Rightarrow> asked \<Rightarrow> command_id \<Rightarrow> bool" where
  "deliverable req asks cmd \<longleftrightarrow>
     permits req asks CapReference cmd \<and> permits req asks CapGate cmd \<and> permits req asks CapPrincipal cmd"

definition held_gate :: "place_request \<Rightarrow> asked \<Rightarrow> command_id \<Rightarrow> bool" where
  "held_gate req asks cmd \<longleftrightarrow> permits req asks CapReference cmd \<and> \<not> permits req asks CapGate cmd"

definition held_principal :: "place_request \<Rightarrow> asked \<Rightarrow> command_id \<Rightarrow> bool" where
  "held_principal req asks cmd \<longleftrightarrow>
     permits req asks CapReference cmd \<and> permits req asks CapGate cmd \<and> \<not> permits req asks CapPrincipal cmd"

definition decided :: "place_request \<Rightarrow> asked \<Rightarrow> command_id \<Rightarrow> bool" where
  "decided req asks cmd \<longleftrightarrow>
     (cmd \<in> set (needs req CapReference) \<longrightarrow> asks CapReference \<noteq> None) \<and>
     (permits req asks CapReference cmd \<and> cmd \<in> set (needs req CapGate) \<longrightarrow> asks CapGate \<noteq> None) \<and>
     (permits req asks CapReference cmd \<and> permits req asks CapGate cmd \<and>
        cmd \<in> set (needs req CapPrincipal) \<longrightarrow> asks CapPrincipal \<noteq> None)"

lemma decided_stays:
  assumes "decided req asks cmd" "asks \<subseteq>\<^sub>m asks'"
  shows "deliverable req asks' cmd = deliverable req asks cmd"
    and "held_gate req asks' cmd = held_gate req asks cmd"
    and "held_principal req asks' cmd = held_principal req asks cmd"
proof -
  have keep: "asks' cap = asks cap" if "asks cap \<noteq> None" for cap
    using assms(2) that unfolding map_le_def by (metis domIff)
  have eq: "permits req asks' cap cmd = permits req asks cap cmd"
    if "cmd \<in> set (needs req cap) \<longrightarrow> asks cap \<noteq> None" for cap
    using keep that by (auto simp: permits_def)
  show "deliverable req asks' cmd = deliverable req asks cmd"
    and "held_gate req asks' cmd = held_gate req asks cmd"
    and "held_principal req asks' cmd = held_principal req asks cmd"
    using assms(1) eq unfolding deliverable_def held_gate_def held_principal_def decided_def by blast+
qed

definition tally :: "int \<Rightarrow> int \<Rightarrow> int \<Rightarrow> int \<Rightarrow> result \<Rightarrow> result" where
  "tally d f g h res = res\<lparr>res_delivered := res_delivered res + d,
     res_delivery_failures := res_delivery_failures res + f,
     res_withheld_gates := res_withheld_gates res + g,
     res_withheld_principals := res_withheld_principals res + h\<rparr>"

lemma tally_tally: "tally d f g h (tally d' f' g' h' res) = tally (d' + d) (f' + f) (g' + g) (h' + h) res"
  by (simp add: tally_def algebra_simps)

lemma tally_zero [simp]: "tally 0 0 0 0 res = res"
  by (simp add: tally_def)

text \<open>The answers that are known after and were not before.\<close>

definition new_answers :: "asked \<Rightarrow> asked \<Rightarrow> capability \<Rightarrow> (perr + bool) list" where
  "new_answers asks asks' cap =
     (if asks cap = None then case asks' cap of None \<Rightarrow> [] | Some r \<Rightarrow> [r] else [])"

lemma new_answers_refl [simp]: "new_answers asks asks cap = []"
  by (simp add: new_answers_def)

lemma new_answers_trans:
  assumes "asks \<subseteq>\<^sub>m asks1" "asks1 \<subseteq>\<^sub>m asks2"
  shows "new_answers asks asks1 cap @ new_answers asks1 asks2 cap = new_answers asks asks2 cap"
proof -
  have "asks1 cap = asks cap" if "asks cap \<noteq> None"
    using assms(1) that unfolding map_le_def by (metis domIff)
  moreover have "asks2 cap = asks1 cap" if "asks1 cap \<noteq> None"
    using assms(2) that unfolding map_le_def by (metis domIff)
  ultimately show ?thesis
    by (cases "asks cap"; cases "asks1 cap") (simp_all add: new_answers_def)
qed

text \<open>The calls of a delivery over some commands, between the answers before and after.\<close>

definition woke ::
  "place_request \<Rightarrow> registry_observation \<Rightarrow> command_id list \<Rightarrow> asked \<Rightarrow> asked \<Rightarrow> result \<Rightarrow> result \<Rightarrow>
   place_event list \<Rightarrow> bool" where
  "woke req obs cmds asks asks' res res' cs \<longleftrightarrow>
     asks \<subseteq>\<^sub>m asks' \<and>
     (\<forall>cap. answers_to cap cs = new_answers asks asks' cap) \<and>
     delivered_commands cs = filter (deliverable req asks') cmds \<and>
     (\<forall>e \<in> set cs. link_event obs e) \<and>
     res' = tally (int (length (filter (deliverable req asks') cmds)) - int (failed_deliveries cs))
                  (int (failed_deliveries cs)) (int (length (filter (held_gate req asks') cmds)))
                  (int (length (filter (held_principal req asks') cmds))) res"

lemma woke_append:
  assumes "woke req obs [cmd] asks asks1 res res1 cs" "decided req asks1 cmd"
    "woke req obs cmds asks1 asks' res1 res' ds"
  shows "woke req obs (cmd # cmds) asks asks' res res' (cs @ ds)"
proof -
  have le: "asks \<subseteq>\<^sub>m asks1" "asks1 \<subseteq>\<^sub>m asks'"
    using assms by (simp_all add: woke_def)
  show ?thesis
    using assms(1,3) map_le_trans [OF le] new_answers_trans [OF le] decided_stays [OF assms(2) le(2)]
    unfolding woke_def by (auto simp: tally_tally algebra_simps)
qed

text \<open>Questions asked on the way, with nothing delivered.\<close>

definition consulted :: "registry_observation \<Rightarrow> asked \<Rightarrow> asked \<Rightarrow> place_event list \<Rightarrow> bool" where
  "consulted obs asks asks' cs \<longleftrightarrow>
     asks \<subseteq>\<^sub>m asks' \<and>
     (\<forall>cap. answers_to cap cs = new_answers asks asks' cap) \<and>
     delivered_commands cs = [] \<and> failed_deliveries cs = 0 \<and> (\<forall>e \<in> set cs. link_event obs e)"

lemma consulted_refl [simp]: "consulted obs asks asks []"
  by (auto simp: consulted_def split: option.split)

lemma consulted_trans:
  assumes "consulted obs asks asks1 cs" "consulted obs asks1 asks2 ds"
  shows "consulted obs asks asks2 (cs @ ds)"
proof -
  have le: "asks \<subseteq>\<^sub>m asks1" "asks1 \<subseteq>\<^sub>m asks2"
    using assms by (simp_all add: consulted_def)
  show ?thesis
    using assms map_le_trans [OF le] new_answers_trans [OF le] unfolding consulted_def by auto
qed

lemma consulted_ask: "asks cap = None \<Longrightarrow> consulted obs asks (asks(cap \<mapsto> r)) [EvAsk cap obs r]"
  by (auto simp: consulted_def map_le_def link_event_def new_answers_def split: option.split)

lemma permits_mono: "permits req asks cap cmd \<Longrightarrow> asks \<subseteq>\<^sub>m asks' \<Longrightarrow> permits req asks' cap cmd"
  by (auto simp: permits_def map_le_def dom_def)

lemma wake_check_emits:
  assumes pass: "\<And>asks1 pre. consulted obs asks asks1 pre \<Longrightarrow> permits req asks1 cap cmd \<Longrightarrow>
      (cmd \<in> set (needs req cap) \<longrightarrow> asks1 cap \<noteq> None) \<Longrightarrow> emits (k asks1) (\<lambda>x ds. Q x (pre @ ds))"
    and hold: "\<And>asks1 pre. consulted obs asks asks1 pre \<Longrightarrow> \<not> permits req asks1 cap cmd \<Longrightarrow>
      cmd \<in> set (needs req cap) \<Longrightarrow> asks1 cap \<noteq> None \<Longrightarrow> Q (asks1, withhold cap res) pre"
  shows "emits (wake_check (logged_links lk) req obs cmd res cap asks k) Q"
proof (cases "cmd \<in> set (needs req cap)")
  case False
  with pass [of asks "[]"] show ?thesis
    by (simp add: wake_check_def command_set_def permits_def)
next
  case need: True
  have go: "emits (if r \<noteq> Inr True then ret (asks1, withhold cap res) else k asks1) (\<lambda>x ds. Q x (pre @ ds))"
    if "consulted obs asks asks1 pre" "asks1 cap = Some r" for r asks1 pre
    using pass [OF that(1)] hold [OF that(1)] that(2) need
    by (intro emits_if emits_ret) (auto simp: permits_def)
  show ?thesis
  proof (cases "asks cap")
    case (Some r)
    then have upd: "asks(cap := Some r) = asks" by auto
    have "wake_check (logged_links lk) req obs cmd res cap asks k =
        (if r \<noteq> Inr True then ret (asks, withhold cap res) else k asks)"
      unfolding wake_check_def command_set_def ask_once_def Let_def Some option.case bind_left_identity upd
      using need by (simp only: if_True)
    with go [of asks "[]" r] Some show ?thesis by simp
  next
    case None
    show ?thesis
      using go [OF consulted_ask [of asks cap, OF None]] need None
      by (auto simp: wake_check_def command_set_def ask_once_def Let_def intro!: emits_call)
  qed
qed

lemma wake_command_emits:
  "emits (wake_command (logged_links lk) req obs cmd asks res)
     (\<lambda>x cs. woke req obs [cmd] asks (fst x) res (snd x) cs \<and> decided req (fst x) cmd)"
  unfolding wake_command_def
proof (rule wake_check_emits, rule wake_check_emits, rule wake_check_emits)
  fix a1 c1 a2 c2 a3 c3
  assume c: "consulted obs asks a1 c1" "consulted obs a1 a2 c2" "consulted obs a2 a3 c3"
    and p: "permits req a1 CapReference cmd" "permits req a2 CapGate cmd" "permits req a3 CapPrincipal cmd"
  have "deliverable req a3 cmd"
    using c p permits_mono unfolding deliverable_def consulted_def by (meson map_le_trans)
  then have "woke req obs [cmd] asks a3 res
        (case e of Some err \<Rightarrow> res\<lparr>res_delivery_failures := res_delivery_failures res + 1\<rparr>
         | None \<Rightarrow> res\<lparr>res_delivered := res_delivered res + 1\<rparr>)
      (c1 @ c2 @ c3 @ [EvDeliver cmd e]) \<and> decided req a3 cmd" for e
    using consulted_trans [OF consulted_trans [OF c(1,2)] c(3)]
    by (cases e) (auto simp: tally_def woke_def consulted_def link_event_def decided_def deliverable_def held_gate_def
        held_principal_def permits_def)
  then show "emits (State_Monad.bind (deliver_one (logged_links lk) req cmd res) (\<lambda>res1. ret (a3, res1)))
      (\<lambda>x ds. woke req obs [cmd] asks (fst x) res (snd x) (c1 @ c2 @ c3 @ ds) \<and> decided req (fst x) cmd)"
    unfolding deliver_one_def
    by (simp add: emits_call emits_ret)
next
  fix a1 c1 a2 c2 a3 c3
  assume c: "consulted obs asks a1 c1" "consulted obs a1 a2 c2" "consulted obs a2 a3 c3"
    and p: "permits req a1 CapReference cmd" "permits req a2 CapGate cmd" "\<not> permits req a3 CapPrincipal cmd"
    and n: "a3 CapPrincipal \<noteq> None"
  have "permits req a3 CapReference cmd" "permits req a3 CapGate cmd"
    using c p permits_mono unfolding consulted_def by (meson map_le_trans)+
  with p(3) n show "woke req obs [cmd] asks (fst (a3, withhold CapPrincipal res)) res
      (snd (a3, withhold CapPrincipal res)) (c1 @ c2 @ c3) \<and> decided req (fst (a3, withhold CapPrincipal res)) cmd"
    using consulted_trans [OF consulted_trans [OF c(1,2)] c(3)]
    by (auto simp: woke_def consulted_def decided_def deliverable_def held_gate_def
        held_principal_def withhold_def tally_def permits_def)
next
  fix a1 c1 a2 c2
  assume c: "consulted obs asks a1 c1" "consulted obs a1 a2 c2"
    and p: "permits req a1 CapReference cmd" "\<not> permits req a2 CapGate cmd"
    and n: "a2 CapGate \<noteq> None"
  have "permits req a2 CapReference cmd"
    using c p permits_mono unfolding consulted_def by (meson map_le_trans)
  with p(2) n show "woke req obs [cmd] asks (fst (a2, withhold CapGate res)) res
      (snd (a2, withhold CapGate res)) (c1 @ c2) \<and> decided req (fst (a2, withhold CapGate res)) cmd"
    using consulted_trans [OF c(1,2)]
    by (auto simp: woke_def consulted_def decided_def deliverable_def held_gate_def
        held_principal_def withhold_def tally_def permits_def)
next
  fix a1 c1
  assume c: "consulted obs asks a1 c1" and p: "\<not> permits req a1 CapReference cmd" "a1 CapReference \<noteq> None"
  then show "woke req obs [cmd] asks (fst (a1, withhold CapReference res)) res
      (snd (a1, withhold CapReference res)) c1 \<and> decided req (fst (a1, withhold CapReference res)) cmd"
    by (auto simp: woke_def consulted_def decided_def deliverable_def held_gate_def
        held_principal_def withhold_def tally_def)
qed

lemma wake_loop_emits:
  "emits (wake_loop (logged_links lk) req obs cmds asks res)
     (\<lambda>res' cs. \<exists>asks'. woke req obs cmds asks asks' res res' cs)"
proof (induction cmds arbitrary: asks res)
  case Nil
  have "woke req obs [] asks asks res res []"
    by (auto simp: woke_def split: option.split)
  then show ?case by (auto intro!: emits_ret)
next
  case (Cons cmd cmds)
  show ?case
    unfolding wake_loop.simps
    by (rule emits_sub [OF wake_command_emits], rule emits_weaken [OF Cons.IH]) (blast intro: woke_append)
qed

text \<open>The calls of \<open>bindAndDeliver\<close>, exactly.\<close>

definition bound_trace ::
  "'w place_config \<Rightarrow> place_request \<Rightarrow> registry_observation \<Rightarrow> result \<Rightarrow> bool \<Rightarrow> result \<times> perr option \<Rightarrow> place_event list \<Rightarrow> bool" where
  "bound_trace cfg req obs res attached x cs \<longleftrightarrow>
     (\<exists>r err. cs = [EvRoute r, EvBind (obs_endpoint obs) (bind_request_for cfg obs) (Some err)] \<and>
        x = (res, Some (if attached then Wrapped [Sentinel ErrBindAfterAttach, err] else err))) \<or>
     (\<exists>r asks mid res'. cs = EvRoute r # EvBind (obs_endpoint obs) (bind_request_for cfg obs) None # mid @
          (if r = None then [EvUnbind (unbind_request_for (bind_request_for cfg obs))] else []) \<and>
        x = (res', None) \<and> woke req obs (rq_wake req) Map.empty asks (res\<lparr>res_bound := True\<rparr>) res' mid)"

lemma bind_and_deliver_emits:
  "emits (bind_and_deliver (logged_config cfg) (logged_links lk) req obs res attached) (bound_trace cfg req obs res attached)"
proof -
  have unbind: "emits (State_Monad.bind (wake_loop (logged_links lk) req obs (rq_wake req) Map.empty res1) (\<lambda>res2.
      if r = None then State_Monad.bind (logged (\<lambda>_. EvUnbind u) m) (\<lambda>_. ret (res2, None)) else ret (res2, None)))
      (\<lambda>x cs. \<exists>mid asks. cs = mid @ (if r = None then [EvUnbind u] else []) \<and>
         snd x = None \<and> woke req obs (rq_wake req) Map.empty asks res1 (fst x) mid)" for r :: "host_id option" and u m res1
    by (rule emits_sub [OF wake_loop_emits]) (auto intro!: emits_intro)
  show ?thesis
    unfolding bind_and_deliver_def Let_def logged_links_simps logged_pure
    by (intro emits_call emits_case_option emits_weaken [OF unbind] emits_if emits_ret)
      (auto simp: bound_trace_def)
qed

text \<open>Everything but the owner reads and the waits, which make up the rounds of a placement.\<close>

definition round_event :: "place_event \<Rightarrow> bool" where
  "round_event e = (case e of EvOwner _ \<Rightarrow> True | EvWait _ _ \<Rightarrow> True | _ \<Rightarrow> False)"

definition within_round :: "result \<Rightarrow> result \<Rightarrow> place_event list \<Rightarrow> bool" where
  "within_round res res' cs \<longleftrightarrow> res_replacements res' = res_replacements res \<and> (\<forall>e \<in> set cs. \<not> round_event e)"

lemma tally_simps [simp]:
  "res_replacements (tally d f g h res) = res_replacements res"
  "res_bound (tally d f g h res) = res_bound res"
  "res_incapable (tally d f g h res) = res_incapable res"
  "res_decision (tally d f g h res) = res_decision res"
  "res_delivered (tally d f g h res) = res_delivered res + d"
  "res_delivery_failures (tally d f g h res) = res_delivery_failures res + f"
  "res_withheld_gates (tally d f g h res) = res_withheld_gates res + g"
  "res_withheld_principals (tally d f g h res) = res_withheld_principals res + h"
  by (simp_all add: tally_def)

lemma link_event_round: "link_event obs e \<Longrightarrow> \<not> round_event e"
  by (auto simp: link_event_def round_event_def split: place_event.splits)

lemma bind_and_deliver_within:
  "emits (bind_and_deliver (logged_config cfg) (logged_links lk) req obs res attached) (\<lambda>x cs. within_round res (fst x) cs)"
  by (rule emits_weaken [OF bind_and_deliver_emits])
    (auto simp: bound_trace_def within_round_def woke_def round_event_def [of "EvRoute _"] round_event_def [of "EvBind _ _ _"]
      round_event_def [of "EvUnbind _"] split: if_splits dest: link_event_round)

lemma within_refl [simp]: "within_round res res []"
  by (simp add: within_round_def)

lemma within_trans: "within_round a b cs \<Longrightarrow> within_round b c ds \<Longrightarrow> within_round a c (cs @ ds)"
  by (auto simp: within_round_def)

lemma wake_within: "emits (wake (logged_config cfg) req obs res) (\<lambda>x cs. within_round res (fst x) cs)"
  unfolding wake_def
  by (auto intro!: emits_intro bind_and_deliver_within split: option.split)

fun scanned_result :: "scanned \<Rightarrow> result" where
  "scanned_result (Returned x why) = fst x"
| "scanned_result (Stale q) = fst q"
| "scanned_result (Continued q) = fst q"

lemma pass_replacements [simp]:
  "res_replacements (fst (skip_unaddressable h p)) = res_replacements (fst p)"
  "res_replacements (fst (skip_unreachable h p)) = res_replacements (fst p)"
  "res_replacements (fst (skip_incapable h t p)) = res_replacements (fst p)"
  "res_replacements (refuse h g code res) = res_replacements res"
  by (simp_all add: skip_unaddressable_def skip_unreachable_def skip_incapable_def refuse_def)

lemma filter_candidate_within:
  "emits (filter_candidate cfg' (logged_links lk) req c p caps)
     (\<lambda>x cs. (\<forall>e \<in> set cs. \<not> round_event e) \<and> (\<forall>q. x = Skipped q \<longrightarrow> res_replacements (fst q) = res_replacements (fst p)))"
proof (induction caps)
  case Nil
  then show ?case by (simp add: emits_ret)
next
  case (Cons cap caps)
  have ask: "\<not> round_event (EvAsk cap obs r)" for obs r by (simp add: round_event_def)
  have v: "apply_verdict h t p v = Skipped q \<Longrightarrow> res_replacements (fst q) = res_replacements (fst p)" for h t v q
    by (auto simp: apply_verdict_def split: prod.splits gate_capability.splits)
  show ?case
    unfolding filter_candidate.simps applies_def
    by (auto intro!: emits_intro emits_weaken [OF Cons] simp: ask dest!: v split: filtered.split)
qed

lemma attach_failed_replacements: "res_replacements (scanned_result (attach_failed c p err)) = res_replacements (fst p)"
  by (auto simp: attach_failed_def split: prod.splits answer.splits)

lemma attach_candidate_within:
  "emits (attach_candidate (logged_config cfg) (logged_links lk) req rec c p)
     (\<lambda>x cs. within_round (fst p) (scanned_result x) cs)"
proof -
  have call: "\<not> round_event (EvAttach ep q r)" for ep q r by (simp add: round_event_def)
  show ?thesis
    unfolding attach_candidate_def logged_links_simps bind_attached_def
    by (intro emits_call emits_case_sum emits_ret emits_sub [OF bind_and_deliver_within])
      (auto simp: within_round_def call attach_failed_replacements)
qed

lemma scan_candidates_within:
  "emits (scan_candidates (logged_config cfg) (logged_links lk) req rec cs p)
     (\<lambda>x es. within_round (fst p) (scanned_result x) es)"
proof (induction cs arbitrary: p)
  case Nil
  then show ?case by (simp add: emits_ret)
next
  case (Cons c cs)
  have tail: "emits (State_Monad.bind (attach_candidate (logged_config cfg) (logged_links lk) req rec c p)
      (\<lambda>s. case s of Continued q \<Rightarrow> scan_candidates (logged_config cfg) (logged_links lk) req rec cs q
        | Stale q \<Rightarrow> ret (Stale q) | Returned x why \<Rightarrow> ret (Returned x why)))
      (\<lambda>x es. within_round (fst p) (scanned_result x) es)"
    by (rule emits_sub [OF attach_candidate_within])
      (auto intro!: emits_ret emits_weaken [OF Cons.IH] intro: within_trans split: scanned.split)
  show ?case
    unfolding scan_candidates.simps
    by (intro emits_if Cons.IH emits_sub [OF filter_candidate_within])
      (auto intro!: emits_ret emits_weaken [OF Cons.IH] emits_weaken [OF tail] simp: within_round_def split: filtered.split)
qed

definition owner_reads :: "place_event list \<Rightarrow> nat" where
  "owner_reads cs = length (filter (\<lambda>e. case e of EvOwner _ \<Rightarrow> True | _ \<Rightarrow> False) cs)"

definition waits :: "place_event list \<Rightarrow> int list" where
  "waits cs = concat (map (\<lambda>e. case e of EvWait d _ \<Rightarrow> [d] | _ \<Rightarrow> []) cs)"

lemma rounds_simps [simp]:
  "owner_reads [] = 0" "waits [] = []"
  "owner_reads (e # cs) = (case e of EvOwner _ \<Rightarrow> 1 | _ \<Rightarrow> 0) + owner_reads cs"
  "waits (e # cs) = (case e of EvWait d _ \<Rightarrow> [d] | _ \<Rightarrow> []) @ waits cs"
  "owner_reads (cs @ ds) = owner_reads cs + owner_reads ds" "waits (cs @ ds) = waits cs @ waits ds"
  by (auto simp: owner_reads_def waits_def split: place_event.splits)

lemma within_rounds: "within_round res res' cs \<Longrightarrow> owner_reads cs = 0 \<and> waits cs = []"
  by (auto simp: within_round_def owner_reads_def waits_def round_event_def filter_empty_conv split: place_event.splits)

lemma round_counts:
  "owner_reads cs = owner_reads (filter round_event cs)" "waits cs = waits (filter round_event cs)"
  by (induction cs) (auto simp: round_event_def split: place_event.splits)

lemma round_event_simps [simp]: "round_event (EvOwner r)" "round_event (EvWait d e)"
  by (simp_all add: round_event_def)

text \<open>One attempt reads the owner once and waits for nothing.\<close>

definition one_attempt :: "result \<Rightarrow> result \<Rightarrow> place_event list \<Rightarrow> bool" where
  "one_attempt res res' cs \<longleftrightarrow>
     (\<exists>r. filter round_event cs = [EvOwner r]) \<and> res_replacements res' = res_replacements res"

lemma one_attempt_counts: "one_attempt res res' cs \<Longrightarrow> owner_reads cs = 1 \<and> waits cs = []"
  by (auto simp: one_attempt_def round_counts [of cs])

lemma one_attempt_cons:
  "within_round res res' cs \<Longrightarrow> res_replacements res = res_replacements res0 \<Longrightarrow> \<not> round_event e \<Longrightarrow>
     one_attempt res0 res' (EvOwner r # e # cs)"
  "within_round res res' cs \<Longrightarrow> res_replacements res = res_replacements res0 \<Longrightarrow> \<not> round_event e \<Longrightarrow> \<not> round_event e' \<Longrightarrow>
     one_attempt res0 res' (EvOwner r # e # e' # cs)"
  by (auto simp: one_attempt_def within_round_def filter_empty_conv)

lemma place_attempt_emits:
  "emits (place_attempt (logged_config cfg) (logged_links lk) req rec p)
     (\<lambda>x cs. one_attempt (fst p) (scanned_result x) cs)"
proof -
  have nr: "\<not> round_event (EvNow t)" "\<not> round_event (EvCandidates k n g)" for t k n g
    by (simp_all add: round_event_def)
  have page: "emits (State_Monad.bind (logged (EvCandidates k n) m) (\<lambda>g. case g of
      Inl err \<Rightarrow> ret (Returned (fst p, Some err) (snd p))
    | Inr hosts \<Rightarrow> scan_candidates (logged_config cfg) (logged_links lk) req rec hosts p))
    (\<lambda>x ds. one_attempt (fst p) (scanned_result x) (EvOwner r # EvNow t # ds))" for k n m r t
    by (intro emits_call emits_case_sum emits_ret emits_weaken [OF scan_candidates_within])
      (auto intro!: one_attempt_cons(2) simp: nr)
  have reuse: "emits (State_Monad.bind (wake (logged_config cfg) req obs res) (\<lambda>x. ret (Returned x (snd p))))
    (\<lambda>x ds. one_attempt (fst p) (scanned_result x) (EvOwner r # EvNow t # ds))"
    if "res_replacements res = res_replacements (fst p)" for obs res r t
    by (rule emits_sub [OF wake_within], rule emits_ret)
      (auto intro!: one_attempt_cons(1) simp: nr that)
  show ?thesis
    unfolding place_attempt_def Let_def logged_config_simps
    by (intro emits_call emits_case_sum emits_case_option emits_if emits_ret page reuse)
      (simp_all add: one_attempt_def)
qed

text \<open>
  What a wait for a nominal duration asks for: that duration through the wait seam, and without
  the seam a value the jitter drew from it.
\<close>

definition paused :: "'w place_config \<Rightarrow> int \<Rightarrow> int \<Rightarrow> bool" where
  "paused cfg d t \<longleftrightarrow>
     (if pc_wait cfg \<noteq> None then t = d else \<exists>w. t = fst (run_state (draw_or_default cfg d) w))"

text \<open>
  The owner reads and waits from an attempt on, its own wait aside: the attempt reads the owner,
  and a wait for the backoff of the next attempt leads to that attempt, unless the wait failed.
\<close>

fun attempts_from :: "'w place_config \<Rightarrow> nat \<Rightarrow> place_event list \<Rightarrow> bool" where
  "attempts_from cfg n [EvOwner r] = True"
| "attempts_from cfg n (EvOwner r # EvWait t e # es) =
     (paused cfg (backoff cfg (Suc n)) t \<and> (if e = None then attempts_from cfg (Suc n) es else es = []))"
| "attempts_from cfg n es = False"

fun waits_from :: "'w place_config \<Rightarrow> nat \<Rightarrow> place_event list \<Rightarrow> bool" where
  "waits_from cfg 0 es = attempts_from cfg 0 es"
| "waits_from cfg (Suc n) (EvWait t e # es) =
     (paused cfg (backoff cfg (Suc n)) t \<and> (if e = None then attempts_from cfg (Suc n) es else es = []))"
| "waits_from cfg (Suc n) es = False"

lemma attempts_from_Cons: "attempts_from cfg n (EvOwner r # es) \<longleftrightarrow> es = [] \<or> waits_from cfg (Suc n) es"
  by (cases es rule: list.exhaust; cases "hd es") auto

lemma attempts_from_last: "attempts_from cfg n es \<Longrightarrow> waits es = [] \<Longrightarrow> \<exists>r. es = [EvOwner r]"
  by (cases "(cfg, n, es)" rule: attempts_from.cases) auto

lemma draw_emits:
  "emits (draw_or_default (logged_config cfg) d)
     (\<lambda>t cs. filter round_event cs = [] \<and> (\<exists>w. t = fst (run_state (draw_or_default cfg d) w)))"
  unfolding emits_def
proof (intro allI, goal_cases)
  case (1 w l)
  have quiet: "\<not> round_event (EvDraw k)" for k by (simp add: round_event_def)
  show ?case
    by (auto simp: draw_or_default_def jittered_def Let_def logged_def quiet intro!: exI [of _ w] split: option.split prod.split)
qed

lemma wait_for_emits:
  "emits (wait_for (logged_config cfg) d) (\<lambda>e cs. \<exists>t. filter round_event cs = [EvWait t e] \<and> paused cfg d t)"
proof (cases "pc_wait cfg")
  case None
  then show ?thesis
    unfolding wait_for_def
    by (auto intro!: emits_sub [OF draw_emits] emits_logged simp: paused_def) blast
next
  case (Some f)
  then show ?thesis
    unfolding wait_for_def
    by (auto intro!: emits_logged simp: paused_def)
qed

text \<open>The rounds from one attempt on: \<open>m\<close> is the last attempt made.\<close>

definition rounds_from :: "'w place_config \<Rightarrow> nat \<Rightarrow> result \<Rightarrow> result \<Rightarrow> place_event list \<Rightarrow> bool" where
  "rounds_from cfg attempt res res' cs \<longleftrightarrow>
     waits_from cfg attempt (filter round_event cs) \<and>
     (\<exists>m \<ge> attempt. (m = attempt \<or> int m < replace_attempts cfg) \<and>
        length (waits cs) = Suc m - max 1 attempt \<and>
        (pc_wait cfg \<noteq> None \<longrightarrow> waits cs = map (backoff cfg) [max 1 attempt..<Suc m]) \<and>
        owner_reads cs \<le> Suc m - attempt \<and>
        res_replacements res' = res_replacements res + int (length (waits cs)))"

definition round_waited :: "'w place_config \<Rightarrow> nat \<Rightarrow> perr option \<Rightarrow> place_event list \<Rightarrow> bool" where
  "round_waited cfg attempt e cs \<longleftrightarrow>
     (if attempt > 0 then \<exists>t. filter round_event cs = [EvWait t e] \<and> paused cfg (backoff cfg attempt) t
      else filter round_event cs = [] \<and> e = None)"

lemma round_waited_counts:
  "round_waited cfg attempt e cs \<Longrightarrow>
     length (waits cs) = (if attempt > 0 then 1 else 0) \<and> owner_reads cs = 0 \<and>
     (attempt > 0 \<and> pc_wait cfg \<noteq> None \<longrightarrow> waits cs = [backoff cfg attempt])"
  by (auto simp: round_waited_def round_counts [of cs] paused_def split: if_splits)

lemma rounds_stop:
  assumes "round_waited cfg attempt e cs" "if e = None then \<exists>r. filter round_event ds = [EvOwner r] else ds = []"
    "res_replacements res' = res_replacements res + (if attempt > 0 then 1 else 0)"
  shows "rounds_from cfg attempt res res' (cs @ ds)"
proof -
  have "waits_from cfg attempt (filter round_event (cs @ ds))"
    using assms(1,2) by (cases attempt) (auto simp: round_waited_def split: if_splits)
  moreover have "waits ds = [] \<and> owner_reads ds \<le> 1"
    using assms(2) by (auto simp: round_counts [of ds] split: if_splits)
  ultimately show ?thesis
    unfolding rounds_from_def
    by (intro conjI exI [of _ attempt]) (use round_waited_counts [OF assms(1)] assms(3) in auto)
qed

lemma rounds_again:
  assumes "round_waited cfg attempt None cs" "one_attempt res1 res2 ds" "rounds_from cfg (Suc attempt) res2 res' es"
    "res_replacements res1 = res_replacements res + (if attempt > 0 then 1 else 0)" "int attempt + 1 < replace_attempts cfg"
  shows "rounds_from cfg attempt res res' (cs @ ds @ es)"
proof -
  obtain m where m: "Suc attempt \<le> m" "m = Suc attempt \<or> int m < replace_attempts cfg"
      "length (waits es) = Suc m - max 1 (Suc attempt)"
      "pc_wait cfg \<noteq> None \<longrightarrow> waits es = map (backoff cfg) [max 1 (Suc attempt)..<Suc m]"
      "owner_reads es \<le> Suc m - Suc attempt" "res_replacements res' = res_replacements res2 + int (length (waits es))"
    and follow: "waits_from cfg (Suc attempt) (filter round_event es)"
    using assms(3) unfolding rounds_from_def by blast
  have upt: "[max 1 attempt..<Suc m] = (if attempt > 0 then [attempt] else []) @ [max 1 (Suc attempt)..<Suc m]"
    using m(1) by (cases attempt) (auto simp: upt_conv_Cons max_def)
  have "waits_from cfg attempt (filter round_event (cs @ ds @ es))"
    using assms(1,2) follow by (cases attempt) (auto simp: round_waited_def one_attempt_def attempts_from_Cons)
  moreover note w = round_waited_counts [OF assms(1)] and a = one_attempt_counts [OF assms(2)]
  have "length (waits (cs @ ds @ es)) = Suc m - max 1 attempt"
    using w a m(1,3) by (cases attempt) auto
  moreover have "pc_wait cfg \<noteq> None \<longrightarrow> waits (cs @ ds @ es) = map (backoff cfg) [max 1 attempt..<Suc m]"
    using w a m(4) unfolding upt by (cases attempt) auto
  moreover have "owner_reads (cs @ ds @ es) \<le> Suc m - attempt"
    using w a m(1,5) by simp
  moreover have "res_replacements res' = res_replacements res + int (length (waits (cs @ ds @ es)))"
    using w a m(6) assms(2,4) by (simp add: one_attempt_def)
  moreover have "attempt \<le> m" "m = attempt \<or> int m < replace_attempts cfg"
    using m(1,2) assms(5) by auto
  ultimately show ?thesis
    unfolding rounds_from_def by blast
qed

lemma place_rounds_emits:
  "emits (place_rounds (logged_config cfg) (logged_links lk) req rec attempt p)
     (\<lambda>x cs. rounds_from cfg attempt (fst p) (fst (fst x)) cs)"
proof (induction "nat (replace_attempts cfg - int attempt)" arbitrary: attempt p rule: less_induct)
  case less
  let ?p1 = "if 0 < attempt then apfst (\<lambda>res. res\<lparr>res_replacements := res_replacements res + 1\<rparr>) p else p"
  have p1: "res_replacements (fst ?p1) = res_replacements (fst p) + (if attempt > 0 then 1 else 0)" by simp
  have waited: "emits (if 0 < attempt then wait_for (logged_config cfg) (backoff cfg attempt) else ret None)
      (\<lambda>e cs. round_waited cfg attempt e cs)"
    by (auto intro!: emits_ret emits_weaken [OF wait_for_emits] simp: round_waited_def)
  have attempted: "emits (case x of
        Returned y why \<Rightarrow> ret (y, why)
      | Continued q \<Rightarrow> ret (((fst q)\<lparr>res_decision := plain_decision OutcomeNoCapacity\<rparr>, None), snd q)
      | Stale q \<Rightarrow>
          if int attempt + 1 \<ge> replace_attempts cfg
          then ret (((fst q)\<lparr>res_decision := plain_decision OutcomeNoCapacity\<rparr>, Some (Sentinel ErrRegistryStale)), snd q)
          else place_rounds (logged_config cfg) (logged_links lk) req rec (Suc attempt) q)
      (\<lambda>y es. rounds_from cfg attempt (fst p) (fst (fst y)) (cs @ ds @ es))"
    if w: "round_waited cfg attempt None cs" and a: "one_attempt (fst ?p1) (scanned_result x) ds" for x cs ds
  proof -
    have stop: "rounds_from cfg attempt (fst p) res' (cs @ ds)" if "res_replacements res' = res_replacements (scanned_result x)" for res'
      using a p1 that by (intro rounds_stop [OF w]) (simp_all add: one_attempt_def)
    have again: "emits (place_rounds (logged_config cfg) (logged_links lk) req rec (Suc attempt) q)
        (\<lambda>y es. rounds_from cfg attempt (fst p) (fst (fst y)) (cs @ ds @ es))"
      if "x = Stale q" "int attempt + 1 < replace_attempts cfg" for q
      by (rule emits_weaken [OF less.hyps [of "Suc attempt" q]])
        (use that w a p1 in \<open>auto intro: rounds_again\<close>)
    show ?thesis
      by (cases x) (auto intro!: emits_ret stop again)
  qed
  show ?case
    unfolding place_rounds.simps [of _ _ _ _ attempt] Let_def logged_pure
  proof (rule emits_sub [OF waited], rule emits_case_option, goal_cases)
    case (1 x cs)
    then show ?case
      by (intro emits_sub [OF place_attempt_emits]) (simp only: append_assoc attempted)
  next
    case (2 x cs err)
    then show ?case
      using rounds_stop [OF 2(1), of "[]"] p1 by (intro emits_ret) simp
  qed
qed

text \<open>
  A call begins with the catalog read. It makes no round when the read failed or the record
  is not a pooled one, and otherwise its rounds start at attempt zero.
\<close>

definition rounds_begin :: "('e + catalog_entry) \<Rightarrow> bool" where
  "rounds_begin e \<longleftrightarrow> (case e of Inl _ \<Rightarrow> False | Inr entry \<Rightarrow> cat_placement (ce_record entry) = Pooled)"

definition no_rounds :: "result \<Rightarrow> result \<Rightarrow> place_event list \<Rightarrow> bool" where
  "no_rounds res res' cs \<longleftrightarrow> filter round_event cs = [] \<and> res_replacements res' = res_replacements res"

lemma place_pooled_emits:
  "emits (place_pooled (logged_config cfg) (logged_links lk) req writes rp)
     (\<lambda>x cs. \<exists>e ds. cs = EvGet (rq_key req) e # ds \<and>
        (if rounds_begin e then rounds_from cfg 0 zero_result (fst (fst x)) ds else no_rounds zero_result (fst (fst x)) ds))"
proof -
  let ?res = "zero_result\<lparr>res_desired_writes := writes\<rparr>"
  have silent: "rounds_from cfg 0 zero_result res' (cs @ ds)"
    if "rounds_from cfg 0 ?res res' cs" "filter round_event ds = []" for res' cs ds
    using that round_counts [of ds] unfolding rounds_from_def by simp
  have report: "emits (report_incapable (logged_config cfg) req res why rp) (\<lambda>x ds. filter round_event ds = [])" for res why
    unfolding report_incapable_def by (auto intro!: emits_intro simp: round_event_def)
  have body: "emits (place_pooled_body (logged_config cfg) (logged_links lk) req writes)
      (\<lambda>x cs. \<exists>e ds. cs = EvGet (rq_key req) e # ds \<and>
         (if rounds_begin e then rounds_from cfg 0 ?res (fst (fst x)) ds else no_rounds ?res (fst (fst x)) ds))"
    unfolding place_pooled_body_def Let_def logged_config_simps
    by (intro emits_call emits_case_sum emits_if emits_ret emits_weaken [OF place_rounds_emits])
      (auto simp: rounds_begin_def no_rounds_def)
  show ?thesis
    unfolding place_pooled_def
  proof (rule emits_sub [OF body], rule emits_sub [OF report], rule emits_ret, goal_cases)
    case (1 x cs rp1 ds)
    then obtain e es where "cs = EvGet (rq_key req) e # es"
        "if rounds_begin e then rounds_from cfg 0 ?res (fst (fst x)) es else no_rounds ?res (fst (fst x)) es" by blast
    with 1(2) show ?case
      by (intro exI [of _ e] exI [of _ "es @ ds"]) (auto intro: silent simp: no_rounds_def)
  qed
qed

section \<open>The backoff\<close>

lemma wrap64_id: "- (2 ^ 63) \<le> x \<Longrightarrow> x < 2 ^ 63 \<Longrightarrow> wrap64 x = x"
  by (simp add: wrap64_def)

lemma max_backoff_value: "max_replace_backoff = 5000000000"
  by (simp add: max_replace_backoff_def second_def millisecond_def)

lemma double_until_min:
  "0 < d \<Longrightarrow> d < 2 ^ 62 \<Longrightarrow> min (double_until k d) max_replace_backoff = min (d * 2 ^ k) max_replace_backoff"
proof (induction k arbitrary: d)
  case 0
  then show ?case by simp
next
  case (Suc k)
  show ?case
  proof (cases "d < max_replace_backoff")
    case True
    then have "d * 2 < 2 ^ 62" by (simp add: max_backoff_value)
    with Suc True wrap64_id [of "d * 2"] show ?thesis by (simp add: mult.assoc)
  next
    case False
    have "d * 1 \<le> d * 2 ^ Suc k" using Suc.prems(1) by (intro mult_left_mono) (simp_all add: one_le_power del: power_Suc)
    with False have "max_replace_backoff \<le> d * 2 ^ Suc k" by linarith
    with False show ?thesis by (simp add: min_absorb2 del: power_Suc)
  qed
qed

definition backoff_base :: "'w place_config \<Rightarrow> int" where
  "backoff_base cfg = (if pc_replace_backoff cfg = 0 then default_replace_backoff else pc_replace_backoff cfg)"

lemma attach_config_bounds:
  assumes "attach_config_error cfg = None" "pc_links cfg \<noteq> None"
  shows "0 < replace_attempts cfg" "replace_attempts cfg \<le> max_replace_attempts"
    "0 < backoff_base cfg" "backoff_base cfg \<le> max_replace_backoff"
  using assms
  by (auto simp: attach_config_error_def replace_attempts_def backoff_base_def default_replace_attempts_def
      max_replace_attempts_def default_replace_backoff_def max_replace_backoff_def second_def millisecond_def split: if_splits)

section \<open>Reports of incapable candidates\<close>

text \<open>A run of reports: the request, the result and the reasons with the clock reading of each.\<close>

type_synonym report_call = "place_request \<times> result \<times> (host_id \<Rightarrow> string) \<times> time"

definition reports_step :: "reports \<Rightarrow> report_call \<Rightarrow> reports" where
  "reports_step rp = (\<lambda>(req, res, reasons, now). report_at req res reasons now rp)"

definition no_reports :: reports where
  "no_reports = \<lparr>rp_table = [], rp_written = []\<rparr>"

definition call_key :: "report_call \<Rightarrow> session_key" where
  "call_key = (\<lambda>(req, res, reasons, now). rq_key req)"

definition call_time :: "report_call \<Rightarrow> time" where
  "call_time = (\<lambda>(req, res, reasons, now). now)"

text \<open>The table has each session once and stays within its bound.\<close>

definition table_ok :: "reports \<Rightarrow> bool" where
  "table_ok rp \<longleftrightarrow> distinct (map fst (rp_table rp)) \<and> length (rp_table rp) \<le> max_incapable_reports"

lemma prune_keys: "set (map fst (prune_reports now t)) \<subseteq> set (map fst t)"
  by (auto simp: prune_reports_def)

lemma prune_ok: "distinct (map fst t) \<Longrightarrow> length t \<le> n \<Longrightarrow> distinct (map fst (prune_reports now t)) \<and> length (prune_reports now t) \<le> n"
  by (auto simp: prune_reports_def distinct_map_filter intro: order.trans [OF length_filter_le])

lemma update_length:
  "length (AList.update k v t) = (if k \<in> fst ` set t then length t else Suc (length t))"
  by (induction t) auto

lemma report_at_table_ok: "table_ok rp \<Longrightarrow> table_ok (report_at req res reasons now rp)"
  using prune_ok [of "rp_table rp" max_incapable_reports now]
  by (auto simp: table_ok_def report_at_def Let_def update_length AList.distinct_update split: option.splits)

text \<open>What was written is in the table with that time or a later one, unless it has expired.\<close>

definition remembered :: "time \<Rightarrow> reports \<Rightarrow> bool" where
  "remembered now rp \<longleftrightarrow>
     (\<forall>line \<in> set (rp_written rp).
        il_at line + incapable_report_interval \<le> now \<or>
        (\<exists>t. map_of (rp_table rp) (il_key line) = Some t \<and> il_at line \<le> t)) \<and>
     (\<forall>k t. map_of (rp_table rp) k = Some t \<longrightarrow> t \<le> now)"

lemma map_of_prune:
  "distinct (map fst t) \<Longrightarrow> map_of (prune_reports now t) k =
     (case map_of t k of None \<Rightarrow> None
      | Some at \<Rightarrow> if length t \<ge> max_incapable_reports \<and> now - at \<ge> incapable_report_interval then None else Some at)"
proof -
  assume d: "distinct (map fst t)"
  have "map_of (filter (\<lambda>(k, at). \<not> now - at \<ge> incapable_report_interval) t) k =
     (case map_of t k of None \<Rightarrow> None | Some at \<Rightarrow> if now - at \<ge> incapable_report_interval then None else Some at)"
    using d by (induction t) (auto split: option.splits dest!: map_of_SomeD intro: rev_image_eqI)
  then show ?thesis by (auto simp: prune_reports_def split: option.split)
qed

text \<open>A session that is not suppressed has no unexpired line, and there is room to remember the new one.\<close>

definition spaced :: "incapable_line list \<Rightarrow> bool" where
  "spaced = sorted_wrt (\<lambda>a b. il_key a = il_key b \<longrightarrow> il_at a + incapable_report_interval \<le> il_at b)"

definition reports_inv :: "session_key set \<Rightarrow> time \<Rightarrow> reports \<Rightarrow> bool" where
  "reports_inv K now rp \<longleftrightarrow>
     table_ok rp \<and> remembered now rp \<and> spaced (rp_written rp) \<and> fst ` set (rp_table rp) \<subseteq> K"

lemma room:
  assumes "distinct (map fst t)" "fst ` set t \<subseteq> K" "finite K" "card K \<le> max_incapable_reports" "k \<in> K" "k \<notin> fst ` set t"
  shows "length t < max_incapable_reports"
proof -
  have "insert k (fst ` set t) \<subseteq> K" using assms(2,5) by simp
  then have "card (insert k (fst ` set t)) \<le> card K" by (rule card_mono [OF assms(3)])
  moreover have "card (insert k (fst ` set t)) = Suc (length t)"
    using assms(1,6) distinct_card [OF assms(1)] by simp
  ultimately show ?thesis using assms(4) by simp
qed

lemma remembered_later: "remembered now rp \<Longrightarrow> now \<le> now' \<Longrightarrow> remembered now' rp"
  unfolding remembered_def by fastforce

lemma report_at_inv:
  assumes inv: "reports_inv K now rp" and "now \<le> now'" "finite K" "card K \<le> max_incapable_reports" "rq_key req \<in> K"
  shows "reports_inv K now' (report_at req res reasons now' rp)"
proof -
  let ?k = "rq_key req" and ?t = "rp_table rp" and ?p = "prune_reports now' (rp_table rp)"
  from inv remembered_later [OF _ assms(2)] have r: "remembered now' rp" and ok: "table_ok rp"
    and sp: "spaced (rp_written rp)" and keys: "fst ` set ?t \<subseteq> K"
    by (auto simp: reports_inv_def)
  have ok': "table_ok (report_at req res reasons now' rp)" by (rule report_at_table_ok [OF ok])
  show ?thesis
  proof (cases "case map_of ?t ?k of Some written \<Rightarrow> now' - written < incapable_report_interval | None \<Rightarrow> False")
    case True
    then have "report_at req res reasons now' rp = rp" by (simp add: report_at_def)
    with r ok sp keys show ?thesis by (simp add: reports_inv_def)
  next
    case free: False
    have d: "distinct (map fst ?t)" "length ?t \<le> max_incapable_reports" using ok by (simp_all add: table_ok_def)
    have old: "il_at line + incapable_report_interval \<le> now'" if "line \<in> set (rp_written rp)" "il_key line = ?k" for line
    proof -
      from r that have "il_at line + incapable_report_interval \<le> now' \<or> (\<exists>t. map_of ?t ?k = Some t \<and> il_at line \<le> t)"
        unfolding remembered_def by metis
      with free show ?thesis by auto
    qed
    have fits: "length ?p < max_incapable_reports"
    proof (cases "length ?t < max_incapable_reports")
      case False
      with free have "map_of ?p ?k = None" by (auto simp: map_of_prune [OF d(1)] split: option.splits)
      then show ?thesis
        using room [of ?p K ?k] prune_ok [OF d, of now'] prune_keys [of now' ?t] keys assms(3-5)
        by (auto simp: map_of_eq_None_iff)
    qed (simp add: prune_reports_def)
    have eq: "report_at req res reasons now' rp =
        \<lparr>rp_table = AList.update ?k now' ?p, rp_written = rp_written rp @ [incapable_line_of req res reasons now']\<rparr>"
      using free fits by (simp add: report_at_def Let_def)
    have m: "map_of (AList.update ?k now' ?p) = (map_of ?p)(?k \<mapsto> now')" by (rule AList.update_conv')
    have "il_at line + incapable_report_interval \<le> now' \<or>
        (\<exists>t. ((map_of ?p)(?k \<mapsto> now')) (il_key line) = Some t \<and> il_at line \<le> t)" if "line \<in> set (rp_written rp)" for line
    proof (cases "il_key line = ?k")
      case True
      with old [OF that] show ?thesis by simp
    next
      case False
      from r that have "il_at line + incapable_report_interval \<le> now' \<or> (\<exists>t. map_of ?t (il_key line) = Some t \<and> il_at line \<le> t)"
        unfolding remembered_def by blast
      with False show ?thesis by (auto simp: map_of_prune [OF d(1)])
    qed
    then have "remembered now' (report_at req res reasons now' rp)"
      using r unfolding remembered_def eq
      by (auto simp: m map_of_prune [OF d(1)] incapable_line_of_def split: option.splits if_splits)
    moreover have "spaced (rp_written (report_at req res reasons now' rp))"
      using sp old by (auto simp: eq spaced_def sorted_wrt_append incapable_line_of_def)
    moreover have "fst ` set (rp_table (report_at req res reasons now' rp)) \<subseteq> K"
      using keys prune_keys [of now' ?t] assms(5) by (auto simp: eq AList.dom_update)
    ultimately show ?thesis using ok' by (simp add: reports_inv_def)
  qed
qed

lemma reports_run_inv:
  assumes "sorted (map call_time calls)" "set (map call_key calls) \<subseteq> K" "finite K" "card K \<le> max_incapable_reports"
    "reports_inv K now rp" "\<forall>c \<in> set calls. now \<le> call_time c"
  shows "\<exists>now'. reports_inv K now' (foldl reports_step rp calls)"
  using assms(1,2,5,6)
proof (induction calls arbitrary: rp now)
  case Nil
  then show ?case by auto
next
  case (Cons c calls)
  obtain req res reasons t where c: "c = (req, res, reasons, t)" by (rule prod_cases4)
  have "reports_inv K t (reports_step rp c)"
    using Cons.prems assms(3,4) unfolding reports_step_def c
    by (auto intro!: report_at_inv simp: call_key_def call_time_def)
  then have "\<exists>now'. reports_inv K now' (foldl reports_step (reports_step rp c) calls)"
    by (rule Cons.IH [rotated 2]) (use Cons.prems c in \<open>auto simp: call_time_def\<close>)
  then show ?case by simp
qed

section \<open>Properties\<close>

text \<open>
  C25. Pooled placement is bounded. Under a configuration the constructor accepts, one call reads
  the catalog first. When the read fails or the record is not a pooled one, it reads no owner
  and waits for nothing. Otherwise its owner reads and waits alternate: every attempt reads the
  owner exactly once, a retry first waits for the backoff of its attempt (the nominal backoff
  through the wait seam, a value drawn from it without the seam), and a wait that fails ends the
  call. The call makes at most the configured attempts, never more than ten, and counts each
  wait as a replacement; it always returns, because the loop over the attempts is a total
  function.
\<close>

theorem pooled_rounds_bounded:
  assumes "run_state (place_pooled (logged_config cfg) (logged_links lk) req writes rp) (w, []) = (((res, err), rp'), (w', cs))"
    "attach_config_error cfg = None" "pc_links cfg \<noteq> None"
  shows "\<exists>e ds. cs = EvGet (rq_key req) e # ds \<and>
    (if case e of Inl _ \<Rightarrow> False | Inr entry \<Rightarrow> cat_placement (ce_record entry) = Pooled
     then attempts_from cfg 0 (filter round_event ds) else filter round_event ds = []) \<and>
    int (owner_reads cs) \<le> replace_attempts cfg \<and> int (length (waits cs)) < replace_attempts cfg \<and>
    replace_attempts cfg \<le> 10 \<and> res_replacements res = int (length (waits cs)) \<and>
    (pc_wait cfg \<noteq> None \<longrightarrow> waits cs = map (backoff cfg) [1..<Suc (length (waits cs))])"
proof -
  obtain e ds where ds: "cs = EvGet (rq_key req) e # ds"
      "if rounds_begin e then rounds_from cfg 0 zero_result res ds else no_rounds zero_result res ds"
    using emits_run_Nil [OF place_pooled_emits assms(1)] by (simp only: fst_conv) blast
  have bounds: "0 < replace_attempts cfg" "replace_attempts cfg \<le> 10"
    using attach_config_bounds [OF assms(2,3)] by (simp_all add: max_replace_attempts_def)
  show ?thesis
  proof (cases "rounds_begin e")
    case True
    then obtain m where "m = 0 \<or> int m < replace_attempts cfg" "length (waits ds) = m"
        "pc_wait cfg \<noteq> None \<longrightarrow> waits ds = map (backoff cfg) [1..<Suc m]" "owner_reads ds \<le> Suc m"
        "res_replacements res = int (length (waits ds))" "attempts_from cfg 0 (filter round_event ds)"
      using ds(2) unfolding rounds_from_def by (auto simp: zero_result_def)
    with True ds(1) bounds show ?thesis
      unfolding rounds_begin_def by auto
  next
    case False
    with ds bounds show ?thesis
      unfolding rounds_begin_def by (auto simp: no_rounds_def zero_result_def round_counts [of ds])
  qed
qed

text \<open>
  The backoff is the configured base doubled per attempt and capped at five seconds: no
  doubling of the signed 64-bit duration wraps, so it is always positive. When the random source
  returns a value below its bound, the wait actually slept is between half the nominal backoff
  and the nominal backoff.
\<close>

theorem backoff_doubles_to_cap:
  assumes "attach_config_error cfg = None" "pc_links cfg \<noteq> None" "1 \<le> n"
    and rand: "\<forall>k v. 0 < k \<longrightarrow> 0 \<le> fst (run_state (pc_rand cfg k) v) \<and> fst (run_state (pc_rand cfg k) v) < k"
  shows "backoff cfg n = min (backoff_base cfg * 2 ^ (n - 1)) (5 * second) \<and> 0 < backoff cfg n \<and>
    fst (run_state (jittered cfg (backoff cfg n)) w) \<in> {backoff cfg n div 2..backoff cfg n}"
proof -
  note b = attach_config_bounds(3,4) [OF assms(1,2)]
  then have "backoff_base cfg < 2 ^ 62" by (simp add: max_backoff_value)
  with b double_until_min [of "backoff_base cfg" "n - 1"]
  have eq: "backoff cfg n = min (backoff_base cfg * 2 ^ (n - 1)) max_replace_backoff"
    by (simp add: backoff_def backoff_base_def Let_def)
  with b have pos: "0 < backoff cfg n" by (simp add: max_backoff_value)
  have jit: "fst (run_state (jittered cfg d) w) \<in> {d div 2..d}" if "0 < d" for d
  proof -
    have "0 < d - d div 2 + 1" using that by presburger
    with rand have "0 \<le> fst (run_state (pc_rand cfg (d - d div 2 + 1)) w) \<and>
        fst (run_state (pc_rand cfg (d - d div 2 + 1)) w) < d - d div 2 + 1" by blast
    with that show ?thesis by (auto simp: jittered_def Let_def split_beta)
  qed
  show ?thesis using jit [OF pos] eq pos unfolding max_replace_backoff_def by blast
qed

text \<open>
  The report of waiting sessions is rate limited and its table is bounded. Over any run of
  reports with a clock that does not go back, for at most 4096 sessions, the table has each
  session at most once and never more than 4096 entries, and two lines for one session are
  written at least five minutes apart.
\<close>

theorem incapable_reports_rate_limited:
  assumes "sorted (map call_time calls)" "card (set (map call_key calls)) \<le> 4096"
  shows "length (rp_table (foldl reports_step no_reports calls)) \<le> 4096 \<and>
    distinct (map fst (rp_table (foldl reports_step no_reports calls))) \<and>
    sorted_wrt (\<lambda>a b. il_key a = il_key b \<longrightarrow> il_at a + 5 * 60 * second \<le> il_at b)
      (rp_written (foldl reports_step no_reports calls))"
proof -
  let ?K = "set (map call_key calls)"
  have "\<exists>now'. reports_inv ?K now' (foldl reports_step no_reports calls)"
  proof (rule reports_run_inv [OF assms(1)])
    show "reports_inv ?K (Min (insert 0 (call_time ` set calls))) no_reports"
      by (simp add: reports_inv_def table_ok_def remembered_def spaced_def no_reports_def)
  qed (use assms(2) in \<open>auto simp: max_incapable_reports_def\<close>)
  then show ?thesis
    by (auto simp: reports_inv_def table_ok_def spaced_def max_incapable_reports_def incapable_report_interval_def)
qed

definition sample_report_call :: "time \<Rightarrow> report_call" where
  "sample_report_call t = (\<lparr>rq_tenant = ''t'', rq_session = ''s'', rq_desired = None, rq_wake = [], rq_gates = [''c''],
     rq_references = [], rq_principals = [], rq_restore = False\<rparr>, zero_result\<lparr>res_incapable := [''h'']\<rparr>, \<lambda>h. [], t)"

theorem incapable_reports_rate_limited_witness:
  "map il_at (rp_written (foldl reports_step no_reports (map sample_report_call [0, second, 300 * second]))) = [0, 300 * second] \<and>
   length (rp_table (foldl reports_step no_reports (map sample_report_call [0, second, 300 * second]))) \<le> 4096"
proof -
  have "sorted (map call_time (map sample_report_call [0, second, 300 * second]))"
    "card (set (map call_key (map sample_report_call [0, second, 300 * second]))) \<le> 4096"
    by (simp_all add: call_time_def call_key_def sample_report_call_def second_def millisecond_def)
  from incapable_reports_rate_limited [OF this] show ?thesis
    by (simp add: reports_step_def sample_report_call_def report_at_def no_reports_def second_def millisecond_def
        incapable_report_interval_def prune_reports_def max_incapable_reports_def rq_key_def incapable_line_of_def)
qed

lemma all_capability:
  "(\<forall>cap. P cap) \<longleftrightarrow> P CapReference \<and> P CapGate \<and> P CapPrincipal"
  by (metis capability.exhaust)

lemma deliverable_all:
  "deliverable req asks cmd \<longleftrightarrow> (\<forall>cap. cmd \<in> set (needs req cap) \<longrightarrow> asks cap = Some (Inr True))"
  unfolding deliverable_def permits_def all_capability by blast

lemma answers_link [simp]:
  "answers_to cap [EvUnbind u] = []" "delivered_commands [EvUnbind u] = []"
  by simp_all

text \<open>
  C24. A wake is delivered only where it can be applied. After a refused bind nothing is asked and
  nothing delivered, and the error says so. After a bind each capability is asked of the bound
  Host at most once, and exactly those commands are delivered, in the order of the wake, whose
  every needed capability that Host affirmed; the result counts the deliveries and what was
  withheld; and the route is given back exactly when there was none before.
\<close>

theorem wake_respects_capabilities:
  assumes "run_state (bind_and_deliver (logged_config cfg) (logged_links lk) req obs res attached) (w, []) =
    ((res', err), (w', cs))"
  shows "\<exists>r e. take 2 cs = [EvRoute r, EvBind (obs_endpoint obs) (bind_request_for cfg obs) e] \<and>
    (case e of
       Some berr \<Rightarrow> length cs = 2 \<and> res' = res \<and>
         err = Some (if attached then Wrapped [Sentinel ErrBindAfterAttach, berr] else berr)
     | None \<Rightarrow> err = None \<and> res_bound res' \<and>
         (r = None \<longleftrightarrow> EvUnbind (unbind_request_for (bind_request_for cfg obs)) \<in> set cs) \<and>
         (\<forall>cap x r. EvAsk cap x r \<in> set cs \<longrightarrow> x = obs) \<and>
         (\<exists>answers. (\<forall>cap. answers_to cap cs = (case answers cap of None \<Rightarrow> [] | Some x \<Rightarrow> [x])) \<and>
            delivered_commands cs =
              filter (\<lambda>cmd. \<forall>cap. cmd \<in> set (needs req cap) \<longrightarrow> answers cap = Some (Inr True)) (rq_wake req) \<and>
            res_delivered res' + res_delivery_failures res' =
              res_delivered res + res_delivery_failures res + int (length (delivered_commands cs)) \<and>
            res_withheld_gates res' = res_withheld_gates res + int (length (filter (held_gate req answers) (rq_wake req))) \<and>
            res_withheld_principals res' =
              res_withheld_principals res + int (length (filter (held_principal req answers) (rq_wake req)))))"
proof -
  have "bound_trace cfg req obs res attached (res', err) cs"
    by (rule emits_run_Nil [OF bind_and_deliver_emits assms])
  then consider (refused) r berr where
      "cs = [EvRoute r, EvBind (obs_endpoint obs) (bind_request_for cfg obs) (Some berr)]"
      "res' = res" "err = Some (if attached then Wrapped [Sentinel ErrBindAfterAttach, berr] else berr)"
    | (bound) r asks mid where
      "cs = EvRoute r # EvBind (obs_endpoint obs) (bind_request_for cfg obs) None # mid @
          (if r = None then [EvUnbind (unbind_request_for (bind_request_for cfg obs))] else [])"
      "err = None" "woke req obs (rq_wake req) Map.empty asks (res\<lparr>res_bound := True\<rparr>) res' mid"
    unfolding bound_trace_def by blast
  then show ?thesis
  proof cases
    case refused
    then show ?thesis by (intro exI [of _ r] exI [of _ "Some berr"]) simp
  next
    case bound
    let ?unbind = "if r = None then [EvUnbind (unbind_request_for (bind_request_for cfg obs))] else []"
    have link: "\<forall>e \<in> set mid. link_event obs e" using bound(3) by (simp add: woke_def)
    have mid: "EvUnbind u \<notin> set mid" "EvAsk cap x a \<in> set mid \<Longrightarrow> x = obs" for u cap x a
      using link by (auto simp: link_event_def)
    have un: "answers_to cap ?unbind = []" "delivered_commands ?unbind = []" for cap by simp_all
    have "(\<forall>cap. answers_to cap cs = (case asks cap of None \<Rightarrow> [] | Some x \<Rightarrow> [x])) \<and>
        delivered_commands cs = filter (deliverable req asks) (rq_wake req)"
      using bound un by (simp add: woke_def new_answers_def)
    moreover have "res_delivered res' + res_delivery_failures res' =
          res_delivered res + res_delivery_failures res + int (length (filter (deliverable req asks) (rq_wake req)))"
        "res_withheld_gates res' = res_withheld_gates res + int (length (filter (held_gate req asks) (rq_wake req)))"
        "res_withheld_principals res' = res_withheld_principals res + int (length (filter (held_principal req asks) (rq_wake req)))"
      using bound(3) by (simp_all add: woke_def)
    ultimately have counts: "\<exists>answers. (\<forall>cap. answers_to cap cs = (case answers cap of None \<Rightarrow> [] | Some x \<Rightarrow> [x])) \<and>
            delivered_commands cs = filter (\<lambda>cmd. \<forall>cap. cmd \<in> set (needs req cap) \<longrightarrow> answers cap = Some (Inr True)) (rq_wake req) \<and>
            res_delivered res' + res_delivery_failures res' =
              res_delivered res + res_delivery_failures res + int (length (delivered_commands cs)) \<and>
            res_withheld_gates res' = res_withheld_gates res + int (length (filter (held_gate req answers) (rq_wake req))) \<and>
            res_withheld_principals res' =
              res_withheld_principals res + int (length (filter (held_principal req answers) (rq_wake req)))"
      unfolding deliverable_all [abs_def] by (intro exI [of _ asks]) simp_all
    have calls: "res_bound res'" "r = None \<longleftrightarrow> EvUnbind (unbind_request_for (bind_request_for cfg obs)) \<in> set cs"
        "\<forall>cap x a. EvAsk cap x a \<in> set cs \<longrightarrow> x = obs"
      using bound mid by (auto simp: woke_def)
    have t2: "take 2 cs = [EvRoute r, EvBind (obs_endpoint obs) (bind_request_for cfg obs) None]"
      using bound(1) by simp
    show ?thesis
      by (rule exI [of _ r], rule exI [of _ None]) (use t2 bound(2) counts calls in simp)
  qed
qed

theorem wake_respects_capabilities_witness:
  "\<exists>res' w' cs. run_state (bind_and_deliver (logged_config (sample_config Pooled)) (logged_links (sample_links Pooled))
       (sample_request\<lparr>rq_principals := [''c2'']\<rparr>) sample_owner zero_result False) (0, []) = ((res', None), (w', cs)) \<and>
     delivered_commands cs = [''c1''] \<and> res_withheld_principals res' = 1 \<and>
     EvUnbind (unbind_request_for (bind_request_for (sample_config Pooled) sample_owner)) \<in> set cs"
proof -
  let ?run = "run_state (bind_and_deliver (logged_config (sample_config Pooled)) (logged_links (sample_links Pooled))
       (sample_request\<lparr>rq_principals := [''c2'']\<rparr>) sample_owner zero_result False) (0, [])"
  obtain res' err w' cs where run: "?run = ((res', err), (w', cs))" by (metis prod.exhaust)
  have "hd (snd (snd ?run)) = EvRoute None" "delivered_commands (snd (snd ?run)) = [''c1'']"
      "snd (fst ?run) = None" "res_withheld_principals (fst (fst ?run)) = 1"
    by code_simp+
  with run have facts: "hd cs = EvRoute None" "delivered_commands cs = [''c1'']" "err = None" "res_withheld_principals res' = 1"
    by simp_all
  obtain r e where re: "take 2 cs = [EvRoute r, EvBind (obs_endpoint sample_owner) (bind_request_for (sample_config Pooled) sample_owner) e]"
      "e = None \<longrightarrow> r = None \<longrightarrow> EvUnbind (unbind_request_for (bind_request_for (sample_config Pooled) sample_owner)) \<in> set cs"
      "e \<noteq> None \<longrightarrow> err \<noteq> None"
    using wake_respects_capabilities [OF run] by (auto split: option.splits)
  from re(1) facts(1) have "r = None" by (cases cs) auto
  with re(2,3) facts run show ?thesis by auto
qed

theorem pooled_rounds_bounded_witness:
  "\<exists>res rp' w' e ds r1 r2. run_state (place_pooled (logged_config (sample_config Pooled)) (logged_links (sample_links Pooled))
       sample_request 0 no_reports) (0, []) = (((res, None), rp'), (w', EvGet (rq_key sample_request) e # ds)) \<and>
     res_replacements res = 1 \<and> filter round_event ds = [EvOwner r1, EvWait (200 * millisecond) None, EvOwner r2]"
proof -
  let ?run = "run_state (place_pooled (logged_config (sample_config Pooled)) (logged_links (sample_links Pooled))
       sample_request 0 no_reports) (0, [])"
  obtain res err rp' w' cs where run: "?run = (((res, err), rp'), (w', cs))" by (metis prod.exhaust)
  have owners: "owner_reads (snd (snd ?run)) = 2" "length (waits (snd (snd ?run))) = 1" "snd (fst (fst ?run)) = None"
      "attach_config_error (sample_config Pooled) = None"
    by code_simp+
  have nominal: "backoff (sample_config Pooled) 1 = 200 * millisecond" by code_simp
  have links: "pc_links (sample_config Pooled) \<noteq> None" "pc_wait (sample_config Pooled) \<noteq> None"
    by (simp_all add: sample_config_def)
  from pooled_rounds_bounded [OF run owners(4) links(1)] obtain e ds where ds: "cs = EvGet (rq_key sample_request) e # ds"
      "attempts_from (sample_config Pooled) 0 (filter round_event ds) \<or> filter round_event ds = []"
      "res_replacements res = int (length (waits cs))"
    by (metis (full_types))
  have counts: "owner_reads (filter round_event ds) = 2" "length (waits (filter round_event ds)) = 1"
    using owners(1,2) run ds(1) round_counts [of ds] by simp_all
  have "\<exists>r1 r2. filter round_event ds = [EvOwner r1, EvWait (200 * millisecond) None, EvOwner r2]"
    using ds(2) counts nominal links(2)
    by (cases "(sample_config Pooled, 0::nat, filter round_event ds)" rule: attempts_from.cases)
      (auto simp: paused_def dest: attempts_from_last split: if_splits)
  with run ds owners(2,3) show ?thesis by auto
qed

theorem backoff_doubles_to_cap_witness:
  "backoff (sample_config Pooled) 3 = 800 * millisecond \<and>
   fst (run_state (jittered (sample_config Pooled) (800 * millisecond)) 0) \<in> {400 * millisecond..800 * millisecond}"
proof -
  have ok: "attach_config_error (sample_config Pooled) = None" "backoff_base (sample_config Pooled) = 200 * millisecond"
    by code_simp+
  have links: "pc_links (sample_config Pooled) \<noteq> None" and draw: "pc_rand (sample_config Pooled) = (\<lambda>d. ret 0)"
    by (simp_all add: sample_config_def)
  have bk: "backoff (sample_config Pooled) 3 = 800 * millisecond" by code_simp
  have half: "800 * millisecond div 2 = 400 * millisecond" by (simp add: millisecond_def)
  show ?thesis
    using backoff_doubles_to_cap [of "sample_config Pooled" 3 0] ok links draw unfolding bk half by simp
qed

end
