(* ===== verification/Go_Strings.thy ===== *)
theory Go_Strings
  imports Wire "HOL-Library.Sublist"
begin

text \<open>
  What the source uses of Go's standard library on strings and byte slices: the functions of
  \<open>strings\<close> on ASCII separators and case, the UTF-8 check of \<open>unicode/utf8\<close>, lower-case hex, the
  unpadded URL alphabet of \<open>encoding/base64\<close>, and the integer encodings of \<open>encoding/binary\<close>.
  A Go string is its bytes, each a character of HOL. Each encoding comes with the law that
  decoding undoes it, and each parser with what it does on the text its printer writes.
\<close>

named_theorems go_strings \<open>evaluation of the string functions\<close>

section \<open>Case\<close>

definition lower_byte :: "char \<Rightarrow> char" where
  "lower_byte c = (let n = of_char c :: nat in if 65 \<le> n \<and> n \<le> 90 then char_of (n + 32) else c)"

text \<open>\<open>strings.ToLower\<close> on ASCII text, and \<open>strings.EqualFold\<close> when both sides are ASCII.\<close>

definition to_lower :: "string \<Rightarrow> string" where
  "to_lower s = map lower_byte s"

definition equal_fold :: "string \<Rightarrow> string \<Rightarrow> bool" where
  "equal_fold s t \<longleftrightarrow> to_lower s = to_lower t"

definition is_ascii :: "string \<Rightarrow> bool" where
  "is_ascii s \<longleftrightarrow> (\<forall>c \<in> set s. (of_char c :: nat) < 128)"

lemma lower_byte_idem [simp]: "lower_byte (lower_byte c) = lower_byte c"
proof -
  have "\<not> (65 \<le> n + 32 \<and> n + 32 \<le> 90)" if "65 \<le> n" for n :: nat using that by linarith
  then show ?thesis by (simp add: lower_byte_def Let_def)
qed

lemma to_lower_idem [simp]: "to_lower (to_lower s) = to_lower s"
  by (simp add: to_lower_def)

lemma to_lower_append [simp]: "to_lower (s @ t) = to_lower s @ to_lower t"
  by (simp add: to_lower_def)

lemma length_to_lower [simp]: "length (to_lower s) = length s"
  by (simp add: to_lower_def)

lemma to_lower_Nil [simp]: "to_lower s = [] \<longleftrightarrow> s = []" "to_lower [] = []"
  by (simp_all add: to_lower_def)

section \<open>Separators\<close>

text \<open>\<open>strings.Cut\<close> at a one-byte separator: before, after, found.\<close>

definition cut :: "char \<Rightarrow> string \<Rightarrow> string \<times> string \<times> bool" where
  "cut c s = (takeWhile (\<lambda>x. x \<noteq> c) s, drop 1 (dropWhile (\<lambda>x. x \<noteq> c) s), c \<in> set s)"

text \<open>\<open>strings.Split\<close> at a one-byte separator.\<close>

fun split_on :: "char \<Rightarrow> string \<Rightarrow> string list" where
  "split_on c [] = [[]]"
| "split_on c (x # s) = (if x = c then [] # split_on c s else (case split_on c s of [] \<Rightarrow> [[x]] | f # fs \<Rightarrow> (x # f) # fs))"

fun join_with :: "char \<Rightarrow> string list \<Rightarrow> string" where
  "join_with c [] = []"
| "join_with c [f] = f"
| "join_with c (f # g # fs) = f @ c # join_with c (g # fs)"

lemma split_on_not_Nil [simp]: "split_on c s \<noteq> []"
  by (cases s) (auto split: list.split)

lemma split_on_plain: "c \<notin> set f \<Longrightarrow> split_on c f = [f]"
  by (induction f) auto

lemma split_on_Cons: "c \<notin> set f \<Longrightarrow> split_on c (f @ c # s) = f # split_on c s"
  by (induction f) auto

lemma split_join:
  assumes "fs \<noteq> []" "\<forall>f \<in> set fs. c \<notin> set f"
  shows "split_on c (join_with c fs) = fs"
  using assms by (induction c fs rule: join_with.induct) (auto simp: split_on_plain split_on_Cons)

lemma join_split: "join_with c (split_on c s) = s"
proof (induction s)
  case (Cons x s)
  obtain f fs where s: "split_on c s = f # fs" by (cases "split_on c s") auto
  with Cons show ?case by (cases fs) auto
qed simp

lemma split_fields_plain: "f \<in> set (split_on c s) \<Longrightarrow> c \<notin> set f"
  by (induction s arbitrary: f) (auto split: if_splits list.splits)

text \<open>\<open>strings.TrimLeft\<close> and \<open>strings.Trim\<close> of one byte.\<close>

definition trim_left :: "char \<Rightarrow> string \<Rightarrow> string" where
  "trim_left c s = dropWhile (\<lambda>x. x = c) s"

definition trim_byte :: "char \<Rightarrow> string \<Rightarrow> string" where
  "trim_byte c s = rev (dropWhile (\<lambda>x. x = c) (rev (dropWhile (\<lambda>x. x = c) s)))"

section \<open>Replacement\<close>

text \<open>\<open>strings.ReplaceAll\<close> for a non-empty old string.\<close>

function replace_all :: "string \<Rightarrow> string \<Rightarrow> string \<Rightarrow> string" where
  "replace_all old new [] = []"
| "replace_all old new (c # s) =
     (if old \<noteq> [] \<and> prefix old (c # s) then new @ replace_all old new (drop (length old) (c # s))
      else c # replace_all old new s)"
  by pat_completeness auto
termination
  by (relation "measure (\<lambda>(old, new, s). length s)") (auto simp: neq_Nil_conv)

section \<open>UTF-8\<close>

text \<open>The classes of \<open>unicode/utf8\<close>: continuation bytes of a lead byte and the range of the second byte.\<close>

definition utf8_class :: "nat \<Rightarrow> (nat \<times> nat \<times> nat) option" where
  "utf8_class n =
     (if 194 \<le> n \<and> n \<le> 223 then Some (1, 128, 191)
      else if n = 224 then Some (2, 160, 191)
      else if n = 237 then Some (2, 128, 159)
      else if 225 \<le> n \<and> n \<le> 239 then Some (2, 128, 191)
      else if n = 240 then Some (3, 144, 191)
      else if 241 \<le> n \<and> n \<le> 243 then Some (3, 128, 191)
      else if n = 244 then Some (3, 128, 143)
      else None)"

function utf8_valid :: "string \<Rightarrow> bool" where
  "utf8_valid [] = True"
| "utf8_valid (a # s) =
     (if (of_char a :: nat) < 128 then utf8_valid s
      else case utf8_class (of_char a) of
        None \<Rightarrow> False
      | Some (k, lo, hi) \<Rightarrow>
          k \<le> length s \<and> s \<noteq> [] \<and> lo \<le> of_char (hd s) \<and> of_char (hd s) \<le> hi \<and>
          (\<forall>c \<in> set (take k s). 128 \<le> (of_char c :: nat) \<and> (of_char c :: nat) \<le> 191) \<and> utf8_valid (drop k s))"
  by pat_completeness auto
termination
  by (relation "measure length") auto

lemma ascii_utf8_valid: "is_ascii s \<Longrightarrow> utf8_valid s"
  by (induction s) (auto simp: is_ascii_def)

section \<open>Hexadecimal\<close>

definition hex_digits :: string where
  "hex_digits = ''0123456789abcdef''"

definition hex_byte :: "char \<Rightarrow> string" where
  "hex_byte c = [hex_digits ! (of_char c div 16), hex_digits ! (of_char c mod 16)]"

definition hex_encode :: "bytes \<Rightarrow> string" where
  "hex_encode bs = concat (map hex_byte bs)"

definition is_lower_hex :: "string \<Rightarrow> bool" where
  "is_lower_hex s \<longleftrightarrow> list_all (\<lambda>c. let b = (of_char c :: nat) in (48 \<le> b \<and> b \<le> 57) \<or> (97 \<le> b \<and> b \<le> 102)) s"

lemma of_char_bound [simp]: "(of_char c :: nat) < 256"
proof -
  have "(of_char c :: nat) mod 256 = of_char c" by simp
  then show ?thesis by (metis mod_less_divisor zero_less_numeral)
qed

lemma length_hex_encode [simp]: "length (hex_encode bs) = 2 * length bs"
  by (induction bs) (simp_all add: hex_encode_def hex_byte_def)

lemma hex_digits_hex: "c \<in> set hex_digits \<Longrightarrow> is_lower_hex [c]"
  by (auto simp: hex_digits_def is_lower_hex_def)

lemma hex_digit_nth: "n < 16 \<Longrightarrow> hex_digits ! n \<in> set hex_digits"
  by (rule nth_mem) (simp add: hex_digits_def)

lemma hex_byte_hex: "is_lower_hex (hex_byte c)"
proof -
  have "(of_char c :: nat) div 16 < 16" using of_char_bound [of c] by linarith
  then have "set (hex_byte c) \<subseteq> set hex_digits" by (simp add: hex_byte_def hex_digit_nth)
  then show ?thesis using hex_digits_hex unfolding is_lower_hex_def list_all_iff by auto
qed

lemma hex_encode_hex: "is_lower_hex (hex_encode bs)"
  using hex_byte_hex by (induction bs) (simp_all add: hex_encode_def is_lower_hex_def)

section \<open>Base64\<close>

text \<open>
  \<open>base64.RawURLEncoding\<close>. The decoder skips line ends anywhere, refuses every other byte outside
  the alphabet and a lone last character, and ignores the unused bits of the last one.
\<close>

definition b64_alphabet :: string where
  "b64_alphabet = ''ABCDEFGHIJKLMNOPQRSTUVWXYZabcdefghijklmnopqrstuvwxyz0123456789-_''"

definition b64_char :: "nat \<Rightarrow> char" where
  "b64_char n = b64_alphabet ! n"

definition b64_val :: "char \<Rightarrow> nat option" where
  "b64_val c = first_index (\<lambda>x. x = c) b64_alphabet"

fun b64_groups :: "nat list \<Rightarrow> nat list" where
  "b64_groups [] = []"
| "b64_groups [a] = [a div 4, a mod 4 * 16]"
| "b64_groups [a, b] = [a div 4, a mod 4 * 16 + b div 16, b mod 16 * 4]"
| "b64_groups (a # b # c # bs) =
     [a div 4, a mod 4 * 16 + b div 16, b mod 16 * 4 + c div 64, c mod 64] @ b64_groups bs"

fun b64_bytes :: "nat list \<Rightarrow> nat list option" where
  "b64_bytes [] = Some []"
| "b64_bytes [p] = None"
| "b64_bytes [p, q] = Some [p * 4 + q div 16]"
| "b64_bytes [p, q, r] = Some [p * 4 + q div 16, q mod 16 * 16 + r div 4]"
| "b64_bytes (p # q # r # s # vs) =
     map_option (\<lambda>bs. [p * 4 + q div 16, q mod 16 * 16 + r div 4, r mod 4 * 64 + s] @ bs) (b64_bytes vs)"

fun all_some :: "'a option list \<Rightarrow> 'a list option" where
  "all_some [] = Some []"
| "all_some (None # xs) = None"
| "all_some (Some x # xs) = map_option ((#) x) (all_some xs)"

definition b64_encode :: "bytes \<Rightarrow> string" where
  "b64_encode bs = map b64_char (b64_groups (map of_char bs))"

definition is_line_end :: "char \<Rightarrow> bool" where
  "is_line_end c \<longleftrightarrow> c = CHR 0x0A \<or> c = CHR 0x0D"

definition b64_decode :: "string \<Rightarrow> bytes option" where
  "b64_decode s =
     (case all_some (map b64_val (filter (\<lambda>c. \<not> is_line_end c) s)) of
        None \<Rightarrow> None
      | Some vs \<Rightarrow> map_option (map char_of) (b64_bytes vs))"

lemma first_index_nth: "distinct xs \<Longrightarrow> n < length xs \<Longrightarrow> first_index (\<lambda>x. x = xs ! n) xs = Some n"
proof (induction xs arbitrary: n)
  case (Cons x xs)
  show ?case
  proof (cases n)
    case (Suc m)
    with Cons have "x \<noteq> xs ! m" using nth_mem [of m xs] by auto
    with Suc Cons show ?thesis by simp
  qed simp
qed simp

lemma b64_alphabet_facts: "distinct b64_alphabet" "length b64_alphabet = 64" "\<forall>c \<in> set b64_alphabet. \<not> is_line_end c \<and> c \<noteq> CHR ''.''"
  by (simp_all add: b64_alphabet_def is_line_end_def)

lemma b64_val_char: "n < 64 \<Longrightarrow> b64_val (b64_char n) = Some n"
  unfolding b64_val_def b64_char_def by (rule first_index_nth) (simp_all add: b64_alphabet_facts)

lemma b64_char_mem: "n < 64 \<Longrightarrow> b64_char n \<in> set b64_alphabet"
  unfolding b64_char_def by (rule nth_mem) (simp add: b64_alphabet_facts)

lemma b64_groups_bound: "\<forall>b \<in> set bs. b < 256 \<Longrightarrow> \<forall>v \<in> set (b64_groups bs). v < 64"
proof (induction bs rule: b64_groups.induct)
  case (4 a b c bs)
  then have "a < 256" "b < 256" "c < 256" by simp_all
  then have "a div 4 < 64" "a mod 4 * 16 + b div 16 < 64" "b mod 16 * 4 + c div 64 < 64"
    using mod_less_divisor [of 4 a] mod_less_divisor [of 16 b] by linarith+
  with 4 show ?case by simp
next
  case (3 a b)
  then show ?case using mod_less_divisor [of 4 a] mod_less_divisor [of 16 b] by auto
next
  case (2 a)
  then show ?case using mod_less_divisor [of 4 a] by auto
qed simp

lemma b64_regroup:
  fixes a b c :: nat
  assumes "b < 256" "c < 256"
  shows "a div 4 * 4 + (a mod 4 * 16 + b div 16) div 16 = a"
    "(a mod 4 * 16 + b div 16) mod 16 * 16 + (b mod 16 * 4 + c div 64) div 4 = b"
    "(b mod 16 * 4 + c div 64) mod 4 * 64 + c mod 64 = c"
proof -
  have "b div 16 < 16" "c div 64 < 4" using assms by linarith+
  then have "(a mod 4 * 16 + b div 16) div 16 = a mod 4" "(a mod 4 * 16 + b div 16) mod 16 = b div 16"
    "(b mod 16 * 4 + c div 64) div 4 = b mod 16" "(b mod 16 * 4 + c div 64) mod 4 = c div 64" by simp_all
  then show "a div 4 * 4 + (a mod 4 * 16 + b div 16) div 16 = a"
    "(a mod 4 * 16 + b div 16) mod 16 * 16 + (b mod 16 * 4 + c div 64) div 4 = b"
    "(b mod 16 * 4 + c div 64) mod 4 * 64 + c mod 64 = c" by simp_all
qed

lemma b64_bytes_groups: "\<forall>b \<in> set bs. b < 256 \<Longrightarrow> b64_bytes (b64_groups bs) = Some bs"
proof (induction bs rule: b64_groups.induct)
  case (4 a b c bs)
  then show ?case using b64_regroup(1,2) [of b c a] b64_regroup(3) [of b c] by simp
next
  case (3 a b)
  then show ?case using b64_regroup(1,2) [of b 0 a] by simp
next
  case (2 a)
  then show ?case by simp
qed simp

lemma all_some_map: "(\<And>x. x \<in> set xs \<Longrightarrow> f x = Some (g x)) \<Longrightarrow> all_some (map f xs) = Some (map g xs)"
  by (induction xs) simp_all

lemma b64_encode_chars: "set (b64_encode bs) \<subseteq> set b64_alphabet"
proof -
  have "\<forall>v \<in> set (b64_groups (map of_char bs)). v < 64" by (rule b64_groups_bound) simp
  then show ?thesis unfolding b64_encode_def using b64_char_mem by auto
qed

lemma b64_decode_encode [simp]: "b64_decode (b64_encode bs) = Some bs"
proof -
  let ?gs = "b64_groups (map of_char bs)"
  have bound: "\<forall>v \<in> set ?gs. v < 64" by (rule b64_groups_bound) simp
  have "filter (\<lambda>c. \<not> is_line_end c) (b64_encode bs) = b64_encode bs"
    using b64_encode_chars b64_alphabet_facts(3) by (auto simp: filter_id_conv)
  moreover have "all_some (map b64_val (b64_encode bs)) = Some ?gs"
    using all_some_map [of ?gs "b64_val \<circ> b64_char" id] b64_val_char bound by (simp add: b64_encode_def)
  moreover have "b64_bytes ?gs = Some (map of_char bs)" by (rule b64_bytes_groups) simp
  ultimately show ?thesis by (simp add: b64_decode_def comp_def)
qed

lemma b64_encode_Nil: "b64_encode bs = [] \<longleftrightarrow> bs = []"
  by (cases "map of_char bs :: nat list" rule: b64_groups.cases) (auto simp: b64_encode_def)

section \<open>Integers as bytes\<close>

text \<open>\<open>binary.BigEndian.PutUint64\<close>: the eight bytes of a word, the most significant first.\<close>

definition put_uint64 :: "u64 \<Rightarrow> bytes" where
  "put_uint64 w = map (\<lambda>i. char_of (unat (drop_bit (8 * i) w) mod 256)) (rev [0..<8])"

fun get_bytes :: "bytes \<Rightarrow> nat \<Rightarrow> nat" where
  "get_bytes [] acc = acc"
| "get_bytes (c # cs) acc = get_bytes cs (acc * 256 + of_char c)"

lemma length_put [simp]: "length (put_uint64 w) = 8"
  by (simp add: put_uint64_def)

lemma get_bytes_digits:
  assumes "\<And>k. a (Suc k) * 256 + m k = a k" "\<And>k. m k < 256"
  shows "get_bytes (map (\<lambda>i. char_of (m i)) (rev [0..<k])) (a k) = a 0"
  by (induction k) (simp_all add: assms)

lemma get_put: "get_bytes (put_uint64 w) 0 = unat w"
proof -
  define a where "a k = unat w div 256 ^ k" for k
  have step: "a (Suc k) * 256 + a k mod 256 = a k" for k :: nat
    unfolding a_def power_Suc2 div_mult2_eq by (rule div_mult_mod_eq)
  have d: "unat (drop_bit (8 * i) w) = a i" for i
    by (simp only: unat_drop_bit_eq) (simp add: a_def drop_bit_eq_div power_mult)
  have "a 8 = 0" using unsigned_less [of w, where ?'a = nat] by (simp add: a_def)
  with get_bytes_digits [of a "\<lambda>k. a k mod 256" 8, OF step] show ?thesis
    by (simp add: put_uint64_def d a_def [of 0])
qed

lemma put_uint64_inject: "put_uint64 v = put_uint64 w \<longleftrightarrow> v = w"
  using get_put [of v] get_put [of w] by (metis word_unat_eq_iff)

text \<open>\<open>binary.AppendUvarint\<close>: seven bits to a byte, the least significant first.\<close>

fun uvarint :: "nat \<Rightarrow> bytes" where
  "uvarint n = (if n < 128 then [char_of n] else char_of (n mod 128 + 128) # uvarint (n div 128))"

declare uvarint.simps [simp del]

fun read_uvarint :: "bytes \<Rightarrow> (nat \<times> bytes) option" where
  "read_uvarint [] = None"
| "read_uvarint (c # cs) =
     (if (of_char c :: nat) < 128 then Some (of_char c, cs)
      else map_option (\<lambda>(n, rest). (of_char c - 128 + 128 * n, rest)) (read_uvarint cs))"

lemma read_uvarint_append [simp]: "read_uvarint (uvarint n @ rest) = Some (n, rest)"
proof (induction n rule: uvarint.induct)
  case (1 n)
  show ?case
  proof (cases "n < 128")
    case True
    then show ?thesis by (subst uvarint.simps) simp
  next
    case False
    then have "read_uvarint (uvarint (n div 128) @ rest) = Some (n div 128, rest)" by (rule 1)
    with False show ?thesis by (subst uvarint.simps) simp
  qed
qed

definition length_prefixed :: "bytes \<Rightarrow> bytes" where
  "length_prefixed v = uvarint (length v) @ v"

lemma length_prefixed_append_inject: "length_prefixed a @ x = length_prefixed b @ y \<longleftrightarrow> a = b \<and> x = y"
proof
  assume eq: "length_prefixed a @ x = length_prefixed b @ y"
  then have "read_uvarint (uvarint (length a) @ a @ x) = read_uvarint (uvarint (length b) @ b @ y)"
    by (simp add: length_prefixed_def)
  then have "length a = length b" "a @ x = b @ y" by simp_all
  then show "a = b \<and> x = y" by simp
qed simp

end
