(* ===== verification/Reconciler.thy ===== *)
theory Reconciler
  imports Attach Go_Strings
begin

text \<open>
  One reconciliation, \<open>internal/placement/reconciler.go\<close>: the owned fast path, the claim, the
  desired-state writes with their derived keys, the revival of a released dedicated session,
  and the two arms of \<open>Attach\<close>. The identity of a dedicated workload, of \<open>workload.go\<close>, is at the
  end of the definitions.
\<close>

section \<open>Keys\<close>

definition framed_digest :: "'w place_config \<Rightarrow> bytes list \<Rightarrow> string" where
  "framed_digest cfg fs = pc_sha cfg (framed fs)"

definition desired_fields :: "'w place_config \<Rightarrow> place_request \<Rightarrow> desired \<Rightarrow> bytes list" where
  "desired_fields cfg req d =
     [rq_tenant req, rq_session req, pc_placement_text cfg (dd_placement d), dd_runtime d,
      dw_version (dd_workload d), dw_payload (dd_workload d)]"

definition desired_key :: "'w place_config \<Rightarrow> place_request \<Rightarrow> desired \<Rightarrow> string" where
  "desired_key cfg req d = ''placement-'' @ framed_digest cfg (desired_fields cfg req d)"

definition revive_key :: "'w place_config \<Rightarrow> place_request \<Rightarrow> desired \<Rightarrow> u64 \<Rightarrow> string" where
  "revive_key cfg req d generation =
     ''revive-'' @ framed_digest cfg (desired_fields cfg req d @ [decimal (unat generation)])"

section \<open>Desired state\<close>

definition stored_desired :: "catalog_record \<Rightarrow> desired \<Rightarrow> bool" where
  "stored_desired rec d \<longleftrightarrow>
     cat_placement rec = dd_placement d \<and> cat_runtime rec = dd_runtime d \<and>
     dw_version (cat_workload rec) = dw_version (dd_workload d) \<and>
     dw_payload (cat_workload rec) = dw_payload (dd_workload d)"

definition first_desired_generation :: u64 where
  "first_desired_generation = 1"

definition released :: "catalog_record \<Rightarrow> bool" where
  "released rec \<longleftrightarrow>
     cat_placement rec = Dedicated \<and> cat_generation rec > first_desired_generation \<and>
     dw_version (cat_workload rec) = [] \<and> dw_payload (cat_workload rec) = []"

definition launch_template :: "catalog_record \<Rightarrow> desired_workload option" where
  "launch_template rec =
     (case cat_initial_workload rec of
        None \<Rightarrow> None
      | Some wl \<Rightarrow> if dw_version wl = [] \<or> dw_payload wl = [] then None else Some wl)"

definition catalog_error_of :: "place_error \<Rightarrow> catalog_code option" where
  "catalog_error_of e = (case e of PlaceStore (CatalogError c _) \<Rightarrow> Some c | _ \<Rightarrow> None)"

definition desired_update_for ::
  "place_request \<Rightarrow> catalog_entry \<Rightarrow> string \<Rightarrow> desired \<Rightarrow> desired_update" where
  "desired_update_for req entry key d =
     \<lparr>du_key = rq_key req, du_revision = ce_revision entry, du_idempotency = key,
      du_placement = dd_placement d, du_runtime = dd_runtime d, du_workload = dd_workload d\<rparr>"

text \<open>
  A write loop runs at most two attempts: \<open>left\<close> counts those after the current one. The reply is
  the entry or the error, with the writes made; \<open>ensureDesired\<close> reports none beside an error.
\<close>

fun ensure_desired_loop ::
  "'w place_config \<Rightarrow> place_request \<Rightarrow> desired \<Rightarrow> nat \<Rightarrow> catalog_entry \<Rightarrow> int \<Rightarrow>
   ('w, (perr + catalog_entry) \<times> int) state" where
  "ensure_desired_loop cfg req d 0 entry writes = ret (Inr entry, writes)"
| "ensure_desired_loop cfg req d (Suc left) entry writes =
     (if stored_desired (ce_record entry) d then ret (Inr entry, writes)
      else do {
        u \<leftarrow> pc_update cfg (desired_update_for req entry (desired_key cfg req d) d);
        case u of
          Inr updated \<Rightarrow> ret (Inr updated, writes + 1)
        | Inl err \<Rightarrow>
            if errors_as catalog_error_of err \<noteq> Some CatalogConflict \<or> left = 0
            then ret (Inl err, 0)
            else do {
              g \<leftarrow> pc_get cfg (rq_key req);
              case g of
                Inl err \<Rightarrow> ret (Inl err, 0)
              | Inr entry1 \<Rightarrow> ensure_desired_loop cfg req d left entry1 (writes + 1)
            }
      })"

definition ensure_desired ::
  "'w place_config \<Rightarrow> place_request \<Rightarrow> catalog_entry \<Rightarrow> desired \<Rightarrow> ('w, (perr + catalog_entry) \<times> int) state" where
  "ensure_desired cfg req entry d = ensure_desired_loop cfg req d 2 entry 0"

fun revive_loop ::
  "'w place_config \<Rightarrow> place_request \<Rightarrow> nat \<Rightarrow> catalog_entry \<Rightarrow> int \<Rightarrow>
   ('w, (perr + catalog_entry) \<times> int) state" where
  "revive_loop cfg req 0 entry writes = ret (Inr entry, writes)"
| "revive_loop cfg req (Suc left) entry writes =
     (if \<not> released (ce_record entry) then ret (Inr entry, writes)
      else case launch_template (ce_record entry) of
        None \<Rightarrow> ret (Inl (Wrapped [Sentinel ErrNoLaunchTemplate]), writes)
      | Some template \<Rightarrow> do {
          let d = \<lparr>dd_placement = cat_placement (ce_record entry), dd_runtime = cat_runtime (ce_record entry),
                   dd_workload = template\<rparr>;
          u \<leftarrow> pc_update cfg (desired_update_for req entry
                (revive_key cfg req d (cat_generation (ce_record entry))) d);
          case u of
            Inr updated \<Rightarrow> ret (Inr updated, writes + 1)
          | Inl err \<Rightarrow>
              if errors_as catalog_error_of err \<noteq> Some CatalogConflict \<or> left = 0
              then ret (Inl err, writes + 1)
              else do {
                g \<leftarrow> pc_get cfg (rq_key req);
                case g of
                  Inl err \<Rightarrow> ret (Inl err, writes + 1)
                | Inr entry1 \<Rightarrow> revive_loop cfg req left entry1 (writes + 1)
              }
        })"

definition revive_released ::
  "'w place_config \<Rightarrow> place_request \<Rightarrow> catalog_entry \<Rightarrow> ('w, (perr + catalog_entry) \<times> int) state" where
  "revive_released cfg req entry = revive_loop cfg req 2 entry 0"

section \<open>The claim\<close>

datatype claimed = Claimed | HeldUntil time | ClaimFailed perr

definition claim :: "'w place_config \<Rightarrow> place_request \<Rightarrow> time \<Rightarrow> ('w, claimed) state" where
  "claim cfg req now = do {
     e \<leftarrow> pc_acquire cfg \<lparr>cl_key = rq_key req, cl_holder = pc_holder cfg, cl_expires = now + pc_claim_ttl cfg\<rparr>;
     case e of
       None \<Rightarrow> ret Claimed
     | Some err \<Rightarrow>
         (case errors_as reconcile_error_of err of
            Some (ReconcileHeld, expires) \<Rightarrow> ret (HeldUntil expires)
          | _ \<Rightarrow> ret (ClaimFailed err))
   }"

text \<open>The decision of the two unclaimed reads: an owner the record's own desire still names.\<close>

definition owner_or_zero :: "registry_observation option \<Rightarrow> registry_observation" where
  "owner_or_zero obs = (case obs of Some x \<Rightarrow> x | None \<Rightarrow> zero_observation)"

definition owned :: "catalog_record \<Rightarrow> registry_observation option \<Rightarrow> time \<Rightarrow> bool" where
  "owned rec obs now \<longleftrightarrow>
     dec_outcome (decide rec (owner_or_zero obs) (obs \<noteq> None) [] now) = OutcomeReuseOwner \<and>
     (cat_placement rec \<noteq> Dedicated \<or> obs_generation (owner_or_zero obs) = cat_generation rec)"

definition defer_to_holder :: "'w place_config \<Rightarrow> place_request \<Rightarrow> time \<Rightarrow> 'w placing" where
  "defer_to_holder cfg req expires = do {
     e \<leftarrow> pc_get cfg (rq_key req);
     case e of
       Inl err \<Rightarrow> ret (zero_result, Some err)
     | Inr entry \<Rightarrow> do {
         o1 \<leftarrow> pc_owner cfg (rq_tenant req) (rq_session req);
         case o1 of
           Inl err \<Rightarrow> ret (zero_result, Some err)
         | Inr obs \<Rightarrow> do {
             now \<leftarrow> pc_now cfg;
             if owned (ce_record entry) obs now
             then ret (zero_result\<lparr>res_decision :=
                    decide (ce_record entry) (owner_or_zero obs) (obs \<noteq> None) [] now\<rparr>, None)
             else ret (zero_result\<lparr>res_deferred := True, res_claim_expires := expires\<rparr>, None)
           }
       }
   }"

section \<open>Reconcile\<close>

definition new_reconciler ::
  "int \<Rightarrow> int \<Rightarrow> bool \<Rightarrow> bool \<Rightarrow> bool \<Rightarrow> bool \<Rightarrow> 'w place_config \<Rightarrow> perr + ('w place_config \<times> reports)" where
  \<comment> \<open>The two bounds are constants of the session-store and storage modules; the four flags say
     which required seams were supplied.\<close>
  "new_reconciler max_ttl max_page directory catalog claims clock cfg =
     (if \<not> directory then Inl (Wrapped [Sentinel PErrInvalidConfig])
      else if \<not> catalog then Inl (Wrapped [Sentinel PErrInvalidConfig])
      else if \<not> claims then Inl (Wrapped [Sentinel PErrInvalidConfig])
      else if \<not> clock then Inl (Wrapped [Sentinel PErrInvalidConfig])
      else if pc_holder cfg = [] then Inl (Wrapped [Sentinel PErrInvalidConfig])
      else if pc_claim_ttl cfg \<le> 0 \<or> pc_claim_ttl cfg > max_ttl then Inl (Wrapped [Sentinel PErrInvalidConfig])
      else if pc_candidate_limit cfg < 1 \<or> pc_candidate_limit cfg > max_page
           then Inl (Wrapped [Sentinel PErrInvalidConfig])
      else case attach_config_error cfg of
             Some err \<Rightarrow> Inl err
           | None \<Rightarrow> Inr (cfg\<lparr>pc_draw := None\<rparr>, \<lparr>rp_table = [], rp_written = []\<rparr>))"

text \<open>The switch on the desired placement, once the record is settled.\<close>

definition place_desired ::
  "'w place_config \<Rightarrow> place_request \<Rightarrow> registry_observation option \<Rightarrow> time \<Rightarrow> catalog_record \<Rightarrow> int \<Rightarrow> reports \<Rightarrow>
   ('w, (result \<times> perr option) \<times> reports) state" where
  "place_desired cfg req obs now rec writes rp =
     (case cat_placement rec of
        Pooled \<Rightarrow>
          (case pc_links cfg of
             Some lk \<Rightarrow> place_pooled cfg lk req writes rp
           | None \<Rightarrow> do {
               g \<leftarrow> pc_candidates cfg (target_key_of rec) (pc_candidate_limit cfg);
               case g of
                 Inl err \<Rightarrow> ret ((zero_result, Some err), rp)
               | Inr hosts \<Rightarrow>
                   ret ((zero_result\<lparr>res_decision := decide rec (owner_or_zero obs) (obs \<noteq> None) hosts now,
                                     res_desired_writes := writes\<rparr>, None), rp)
             })
      | Dedicated \<Rightarrow>
          if released rec
          then ret ((zero_result\<lparr>res_desired_writes := writes\<rparr>, Some (Sentinel ErrSessionReleased)), rp)
          else (case pc_workloads cfg of
             None \<Rightarrow> ret ((zero_result, Some (Sentinel ErrNoWorkloadController)), rp)
           | Some wl \<Rightarrow>
               (case pc_intent cfg rec of
                  Inl err \<Rightarrow> ret ((zero_result, Some err), rp)
                | Inr intent \<Rightarrow> do {
                    e \<leftarrow> wl_ensure wl intent;
                    case e of
                      Some err \<Rightarrow> ret ((zero_result, Some err), rp)
                    | None \<Rightarrow> do {
                        x \<leftarrow> place_dedicated cfg wl req intent
                              (zero_result\<lparr>res_decision := plain_decision OutcomeReconcileDedicated,
                                           res_desired_writes := writes, res_intent := Some intent\<rparr>);
                        ret (x, rp)
                      }
                  }))
      | OtherPlacement _ \<Rightarrow>
          ret ((zero_result\<lparr>res_decision := plain_decision OutcomeUndecided, res_desired_writes := writes\<rparr>, None), rp))"

text \<open>The part of \<open>Reconcile\<close> under the claim, in two halves: the restore, and before it the desire.\<close>

definition reconcile_restored ::
  "'w place_config \<Rightarrow> place_request \<Rightarrow> registry_observation option \<Rightarrow> time \<Rightarrow> reports \<Rightarrow> catalog_entry \<Rightarrow> int \<Rightarrow>
   ('w, (result \<times> perr option) \<times> reports) state" where
  "reconcile_restored cfg req obs now rp entry writes = do {
     rev \<leftarrow> (if rq_restore req then revive_released cfg req entry else ret (Inr entry, 0));
     case rev of
       (Inl err, _) \<Rightarrow> ret ((zero_result, Some err), rp)
     | (Inr entry1, revived) \<Rightarrow> place_desired cfg req obs now (ce_record entry1) (writes + revived) rp
   }"

definition reconcile_claimed ::
  "'w place_config \<Rightarrow> place_request \<Rightarrow> registry_observation option \<Rightarrow> time \<Rightarrow> reports \<Rightarrow>
   ('w, (result \<times> perr option) \<times> reports) state" where
  "reconcile_claimed cfg req obs now rp = do {
     e \<leftarrow> pc_get cfg (rq_key req);
     case e of
       Inl err \<Rightarrow> ret ((zero_result, Some err), rp)
     | Inr entry \<Rightarrow> do {
         ens \<leftarrow> (case rq_desired req of
                  None \<Rightarrow> ret (Inr entry, 0)
                | Some d \<Rightarrow> ensure_desired cfg req entry d);
         case ens of
           (Inl err, _) \<Rightarrow> ret ((zero_result, Some err), rp)
         | (Inr entry1, writes) \<Rightarrow> reconcile_restored cfg req obs now rp entry1 writes
       }
   }"

definition reconcile ::
  "'w place_config \<Rightarrow> place_request \<Rightarrow> reports \<Rightarrow> ('w, (result \<times> perr option) \<times> reports) state" where
  "reconcile cfg req rp = do {
     e \<leftarrow> pc_get cfg (rq_key req);
     case e of
       Inl err \<Rightarrow> ret ((zero_result, Some err), rp)
     | Inr entry \<Rightarrow> do {
         o1 \<leftarrow> pc_owner cfg (rq_tenant req) (rq_session req);
         case o1 of
           Inl err \<Rightarrow> ret ((zero_result, Some err), rp)
         | Inr obs \<Rightarrow> do {
             now \<leftarrow> pc_now cfg;
             if owned (ce_record entry) obs now
             then do {
               x \<leftarrow> wake cfg req (owner_or_zero obs)
                     (zero_result\<lparr>res_decision := decide (ce_record entry) (owner_or_zero obs) (obs \<noteq> None) [] now\<rparr>);
               ret (x, rp)
             } else do {
               c \<leftarrow> claim cfg req now;
               case c of
                 ClaimFailed err \<Rightarrow> ret ((zero_result, Some err), rp)
               | HeldUntil expires \<Rightarrow> do { x \<leftarrow> defer_to_holder cfg req expires; ret (x, rp) }
               | Claimed \<Rightarrow> do {
                   x \<leftarrow> reconcile_claimed cfg req obs now rp;
                   r \<leftarrow> pc_release cfg (rq_key req) (pc_holder cfg);
                   ret x
                 }
             }
           }
       }
   }"

section \<open>Workload identity\<close>

definition write_identity_field :: "bytes \<Rightarrow> bytes" where
  "write_identity_field field = put_uint64 (of_nat (length field)) @ field"

definition identity_preimage :: "intent \<Rightarrow> bytes" where
  "identity_preimage i =
     write_identity_field (in_tenant i) @ write_identity_field (in_session i) @
     write_identity_field (in_agent i) @ write_identity_field (in_runtime i) @
     write_identity_field (put_uint64 (in_generation i))"

record workload_identity =
  wi_name :: string
  wi_tenant :: tenant_id
  wi_session :: session_id
  wi_agent :: string
  wi_runtime :: string
  wi_generation :: u64

definition derive_workload_identity :: "(bytes \<Rightarrow> string) \<Rightarrow> intent \<Rightarrow> workload_identity" where
  \<comment> \<open>The hexadecimal digest has two characters per byte; 28 bytes of it are kept.\<close>
  "derive_workload_identity sha i =
     \<lparr>wi_name = ''lrw-'' @ take 56 (sha (identity_preimage i)),
      wi_tenant = in_tenant i, wi_session = in_session i, wi_agent = in_agent i,
      wi_runtime = in_runtime i, wi_generation = in_generation i\<rparr>"

definition workload_name :: "(bytes \<Rightarrow> string) \<Rightarrow> intent \<Rightarrow> string" where
  "workload_name sha i = wi_name (derive_workload_identity sha i)"

section \<open>Writes of the desired state\<close>

definition updates :: "place_event list \<Rightarrow> place_event list" where
  "updates cs = filter (\<lambda>e. case e of EvUpdate _ _ \<Rightarrow> True | _ \<Rightarrow> False) cs"

lemma logged_keys [simp]:
  "desired_key (logged_config cfg) = desired_key cfg" "revive_key (logged_config cfg) = revive_key cfg"
  by (simp_all add: fun_eq_iff desired_key_def revive_key_def framed_digest_def desired_fields_def)

text \<open>
  Every write follows the read it compares and swaps against: the entry given, or the reply of
  the read directly before it. \<open>P\<close> says of an entry that it is to be replaced, and by which write.
\<close>

definition swaps :: "(catalog_entry \<Rightarrow> desired_update \<Rightarrow> bool) \<Rightarrow> catalog_entry \<Rightarrow> place_event list \<Rightarrow> bool" where
  "swaps P entry cs \<longleftrightarrow>
     (\<forall>pre u r post. cs = pre @ EvUpdate u r # post \<longrightarrow>
        (\<exists>e. (pre = [] \<and> e = entry \<or> (\<exists>pre' k. pre = pre' @ [EvGet k (Inr e)])) \<and> P e u \<and> du_revision u = ce_revision e))"

lemma swapsD:
  "swaps P entry cs \<Longrightarrow> cs = pre @ EvUpdate u r # post \<Longrightarrow>
     \<exists>e. (pre = [] \<and> e = entry \<or> (\<exists>pre' k. pre = pre' @ [EvGet k (Inr e)])) \<and> P e u"
  unfolding swaps_def by blast

text \<open>At most two writes, and a result without an error counts them.\<close>

definition written :: "(perr + catalog_entry) \<times> int \<Rightarrow> place_event list \<Rightarrow> bool" where
  "written x cs \<longleftrightarrow>
     length (updates cs) \<le> 2 \<and>
     (\<forall>e n. x = (Inr e, n) \<longrightarrow> n = int (length (updates cs)))"

definition wants :: "'w place_config \<Rightarrow> place_request \<Rightarrow> desired \<Rightarrow> catalog_entry \<Rightarrow> desired_update \<Rightarrow> bool" where
  "wants cfg req d e u \<longleftrightarrow>
     \<not> stored_desired (ce_record e) d \<and> u = desired_update_for req e (desired_key cfg req d) d"

lemma ensure_desired_emits:
  "emits (ensure_desired (logged_config cfg) req entry d) (\<lambda>x cs.
     swaps (wants cfg req d) entry cs \<and> written x cs \<and> (stored_desired (ce_record entry) d \<longrightarrow> cs = []) \<and>
     (\<forall>e n. x = (Inr e, n) \<longrightarrow> stored_desired (ce_record e) d \<or> (\<exists>u. last cs = EvUpdate u (Inr e) \<and> cs \<noteq> [])))"
  unfolding ensure_desired_def numeral_2_eq_2 ensure_desired_loop.simps logged_config_simps logged_keys
  by (intro emits_call emits_case_sum emits_if emits_ret)
    (auto simp: swaps_def written_def updates_def wants_def desired_update_for_def Cons_eq_append_conv)

definition revived_desire :: "catalog_record \<Rightarrow> desired_workload \<Rightarrow> desired" where
  "revived_desire rec template =
     \<lparr>dd_placement = cat_placement rec, dd_runtime = cat_runtime rec, dd_workload = template\<rparr>"

definition revives :: "'w place_config \<Rightarrow> place_request \<Rightarrow> catalog_entry \<Rightarrow> desired_update \<Rightarrow> bool" where
  "revives cfg req e u \<longleftrightarrow>
     released (ce_record e) \<and> (\<exists>template. launch_template (ce_record e) = Some template \<and>
       u = desired_update_for req e
         (revive_key cfg req (revived_desire (ce_record e) template) (cat_generation (ce_record e)))
         (revived_desire (ce_record e) template))"

lemma revive_released_emits:
  "emits (revive_released (logged_config cfg) req entry) (\<lambda>x cs.
     swaps (revives cfg req) entry cs \<and> written x cs \<and> (\<not> released (ce_record entry) \<longrightarrow> cs = []) \<and>
     (\<forall>e n. x = (Inr e, n) \<longrightarrow> \<not> released (ce_record e) \<or> (\<exists>u. last cs = EvUpdate u (Inr e) \<and> cs \<noteq> [])))"
  unfolding revive_released_def numeral_2_eq_2 revive_loop.simps logged_config_simps logged_keys Let_def
  by (intro emits_call emits_case_sum emits_if emits_case_option emits_ret)
    (auto simp: swaps_def written_def updates_def revives_def revived_desire_def desired_update_for_def Cons_eq_append_conv)

section \<open>Framing\<close>

lemma frame_append_inject: "frame a @ x = frame b @ y \<longleftrightarrow> a = b \<and> x = y"
  using frame_inject [of a x b y] by auto

lemma framed_simps: "framed [] = []" "framed (f # fs) = frame f @ framed fs" "frame f \<noteq> []"
  by (simp_all add: framed_def frame_def)

lemma framed_inject: "framed as = framed bs \<longleftrightarrow> as = bs"
proof (induction as arbitrary: bs)
  case Nil
  then show ?case by (cases bs) (auto simp: framed_simps)
next
  case (Cons a as)
  then show ?case by (cases bs) (auto simp: framed_simps frame_append_inject)
qed

text \<open>
  C34. The derived idempotency keys name exactly one intent. Before hashing, two attach keys agree
  exactly when session, agent, runtime, mode and desired generation do, whichever Host is
  asked; two desire keys agree exactly when session, placement, runtime and workload do; a
  revival key also names the released generation; and a desire key is never a revival key.
\<close>

theorem placement_keys_name_one_intent:
  "at_idempotency (attach_request cfg rec h g m) = at_idempotency (attach_request cfg rec h' g' m) \<and>
   (framed (attach_fields cfg rec m) = framed (attach_fields cfg rec' m') \<longleftrightarrow>
      (cat_tenant rec, cat_session rec, cat_agent rec, cat_runtime rec, pc_mode_text cfg m, cat_generation rec) =
      (cat_tenant rec', cat_session rec', cat_agent rec', cat_runtime rec', pc_mode_text cfg m', cat_generation rec')) \<and>
   (framed (desired_fields cfg req d) = framed (desired_fields cfg req' d') \<longleftrightarrow>
      (rq_tenant req, rq_session req, pc_placement_text cfg (dd_placement d), dd_runtime d, dd_workload d) =
      (rq_tenant req', rq_session req', pc_placement_text cfg (dd_placement d'), dd_runtime d', dd_workload d')) \<and>
   (framed (desired_fields cfg req d @ [decimal (unat gen)]) = framed (desired_fields cfg req' d' @ [decimal (unat gen')]) \<longleftrightarrow>
      desired_fields cfg req d = desired_fields cfg req' d' \<and> gen = gen') \<and>
   desired_key cfg req d \<noteq> revive_key cfg req' d' gen'"
  by (auto simp: attach_request_def framed_inject attach_fields_def desired_fields_def decimal_inject
      word_unat_eq_iff desired_key_def revive_key_def intro!: desired_workload.equality)

section \<open>Workload identity\<close>

text \<open>The decoder: an eight-byte length and as many bytes.\<close>

definition take_field :: "bytes \<Rightarrow> (bytes \<times> bytes) option" where
  "take_field bs =
     (let n = get_bytes (take 8 bs) 0; rest = drop 8 bs
      in if length bs < 8 \<or> length rest < n then None else Some (take n rest, drop n rest))"

lemma take_write:
  assumes "length f < 2 ^ 64"
  shows "take_field (write_identity_field f @ rest) = Some (f, rest)"
proof -
  have "unat (of_nat (length f) :: u64) = length f"
    using assms by (simp add: unat_of_nat take_bit_nat_eq_self)
  then show ?thesis
    by (simp add: take_field_def write_identity_field_def get_put Let_def)
qed

fun take_fields :: "nat \<Rightarrow> bytes \<Rightarrow> (bytes list \<times> bytes) option" where
  "take_fields 0 bs = Some ([], bs)"
| "take_fields (Suc n) bs =
     (case take_field bs of
        None \<Rightarrow> None
      | Some (f, rest) \<Rightarrow> map_option (apfst ((#) f)) (take_fields n rest))"

text \<open>
  C33. The preimage of a workload's name can be read back: the five length-prefixed fields decode
  to tenant, session, agent, runtime and the eight bytes of the generation, which is the
  number. So two intents have one preimage only when they are the same workload, whatever
  bytes their identifiers hold, and the name is at most 60 characters.
\<close>

theorem workload_identity_round_trip:
  assumes "length (in_tenant i) < 2 ^ 64" "length (in_session i) < 2 ^ 64"
    "length (in_agent i) < 2 ^ 64" "length (in_runtime i) < 2 ^ 64"
  shows "take_fields 5 (identity_preimage i) =
      Some ([in_tenant i, in_session i, in_agent i, in_runtime i, put_uint64 (in_generation i)], []) \<and>
    get_bytes (put_uint64 (in_generation i)) 0 = unat (in_generation i) \<and>
    length (workload_name sha i) \<le> 60 \<and> take 4 (workload_name sha i) = ''lrw-''"
proof -
  have five: "(5::nat) = Suc (Suc (Suc (Suc (Suc 0))))" by simp
  have "take_fields 5 (identity_preimage i) =
      Some ([in_tenant i, in_session i, in_agent i, in_runtime i, put_uint64 (in_generation i)], [])"
    using take_write [of "put_uint64 (in_generation i)" "[]"]
    by (simp only: five) (simp add: identity_preimage_def take_write assms [simplified])
  then show ?thesis
    by (simp add: get_put workload_name_def derive_workload_identity_def)
qed

text \<open>
  C31. A desired state is stored at most once per reconciliation and never over an unread record.
  When the record already carries the intent nothing is written, so the generation does not
  move. Otherwise at most two writes are made; each names the wanted state under the key derived
  from it, is made against the revision of the entry read directly before it, and only when that
  entry does not carry the intent yet; and a result without an error carries the intent or is
  the store's reply to the last write, with the number of writes made.
\<close>

theorem desired_state_written_once:
  assumes "run_state (ensure_desired (logged_config cfg) req entry d) (w, []) = ((x, n), (w', cs))"
  shows "(stored_desired (ce_record entry) d \<longrightarrow> cs = []) \<and> length (updates cs) \<le> 2 \<and>
    (\<forall>pre u r post. cs = pre @ EvUpdate u r # post \<longrightarrow>
       (\<exists>e. (pre = [] \<and> e = entry \<or> (\<exists>pre' k. pre = pre' @ [EvGet k (Inr e)])) \<and>
          \<not> stored_desired (ce_record e) d \<and> u = desired_update_for req e (desired_key cfg req d) d)) \<and>
    (\<forall>e. x = Inr e \<longrightarrow> n = int (length (updates cs)) \<and>
       (stored_desired (ce_record e) d \<or> (\<exists>u. cs \<noteq> [] \<and> last cs = EvUpdate u (Inr e))))"
proof -
  note t = emits_run_Nil [OF ensure_desired_emits assms]
  have "swaps (wants cfg req d) entry cs" using t by simp
  then have "\<forall>pre u r post. cs = pre @ EvUpdate u r # post \<longrightarrow>
       (\<exists>e. (pre = [] \<and> e = entry \<or> (\<exists>pre' k. pre = pre' @ [EvGet k (Inr e)])) \<and>
          \<not> stored_desired (ce_record e) d \<and> u = desired_update_for req e (desired_key cfg req d) d)"
    unfolding wants_def by (auto dest!: swapsD)
  with t show ?thesis unfolding written_def by auto
qed

definition sample_desired :: desired where
  "sample_desired = \<lparr>dd_placement = Dedicated, dd_runtime = ''r'', dd_workload = \<lparr>dw_version = ''v'', dw_payload = ''p''\<rparr>\<rparr>"

theorem desired_state_written_once_witness:
  "\<exists>x w' cs. run_state (ensure_desired (logged_config (sample_config Pooled)) sample_request
       \<lparr>ce_record = sample_record, ce_revision = 7\<rparr> sample_desired) (0, []) = (x, (w', cs)) \<and>
     length cs = 3 \<and> length (updates cs) = 2 \<and> cs ! 0 = EvUpdate (desired_update_for sample_request
       \<lparr>ce_record = sample_record, ce_revision = 7\<rparr> (desired_key (sample_config Pooled) sample_request sample_desired) sample_desired)
       (Inl (Sentinel (PlaceStore (CatalogError CatalogConflict []))))"
proof -
  let ?run = "run_state (ensure_desired (logged_config (sample_config Pooled)) sample_request
       \<lparr>ce_record = sample_record, ce_revision = 7\<rparr> sample_desired) (0, [])"
  obtain x n w' cs where run: "?run = ((x, n), (w', cs))" by (metis prod.exhaust)
  have "length (snd (snd ?run)) = 3" "length (updates (snd (snd ?run))) = 2"
      "case hd (snd (snd ?run)) of EvUpdate u r \<Rightarrow> r = Inl (Sentinel (PlaceStore (CatalogError CatalogConflict []))) | _ \<Rightarrow> False"
    by code_simp+
  with run obtain u post where cs: "cs = [] @ EvUpdate u (Inl (Sentinel (PlaceStore (CatalogError CatalogConflict [])))) # post"
      "length cs = 3" "length (updates cs) = 2"
    by (cases cs) (auto split: place_event.splits)
  with desired_state_written_once [OF run] have "u = desired_update_for sample_request
       \<lparr>ce_record = sample_record, ce_revision = 7\<rparr> (desired_key (sample_config Pooled) sample_request sample_desired) sample_desired"
    by blast
  with cs run show ?thesis by auto
qed

text \<open>
  C32. Only a release is undone, and only by the template the session was created with. Without a
  released record nothing is written; each write of a revival replaces a record that still
  reads as released (dedicated, past its first generation, naming no workload), at the revision
  it was read at, with the session's own placement and runtime and the launch template, under a
  key that names the released generation; and a session with no template is refused by name.
\<close>

theorem only_a_release_is_revived:
  assumes "run_state (revive_released (logged_config cfg) req entry) (w, []) = ((x, n), (w', cs))"
  shows "(\<not> released (ce_record entry) \<longrightarrow> cs = [] \<and> x = Inr entry) \<and>
    (released (ce_record entry) \<and> launch_template (ce_record entry) = None \<longrightarrow>
       cs = [] \<and> (\<exists>err. x = Inl err \<and> errors_is ErrNoLaunchTemplate err)) \<and>
    (\<forall>pre u r post. cs = pre @ EvUpdate u r # post \<longrightarrow>
       (\<exists>e template. (pre = [] \<and> e = entry \<or> (\<exists>pre' k. pre = pre' @ [EvGet k (Inr e)])) \<and>
          cat_placement (ce_record e) = Dedicated \<and> 1 < cat_generation (ce_record e) \<and>
          dw_payload (cat_workload (ce_record e)) = [] \<and>
          cat_initial_workload (ce_record e) = Some template \<and> du_workload u = template \<and>
          du_placement u = Dedicated \<and> du_runtime u = cat_runtime (ce_record e) \<and> du_revision u = ce_revision e \<and>
          du_idempotency u = revive_key cfg req (revived_desire (ce_record e) template) (cat_generation (ce_record e))))"
proof -
  note t = emits_run_Nil [OF revive_released_emits assms]
  have sw: "swaps (revives cfg req) entry cs" and unreleased: "\<not> released (ce_record entry) \<longrightarrow> cs = []" using t by simp_all
  have r: "\<exists>template. cat_placement (ce_record e) = Dedicated \<and> 1 < cat_generation (ce_record e) \<and>
          dw_payload (cat_workload (ce_record e)) = [] \<and>
          cat_initial_workload (ce_record e) = Some template \<and> du_workload u = template \<and>
          du_placement u = Dedicated \<and> du_runtime u = cat_runtime (ce_record e) \<and> du_revision u = ce_revision e \<and>
          du_idempotency u = revive_key cfg req (revived_desire (ce_record e) template) (cat_generation (ce_record e))"
    if "revives cfg req e u" for e u
    using that by (auto simp: revives_def released_def launch_template_def first_desired_generation_def
        desired_update_for_def revived_desire_def split: option.splits if_splits)
  have none: "\<not> released (ce_record entry) \<longrightarrow> x = Inr entry"
      "released (ce_record entry) \<and> launch_template (ce_record entry) = None \<longrightarrow>
         cs = [] \<and> (\<exists>err. x = Inl err \<and> errors_is ErrNoLaunchTemplate err)"
    using assms by (auto simp: revive_released_def numeral_2_eq_2)
  show ?thesis
  proof (intro conjI allI impI)
    fix pre u rr post
    assume "cs = pre @ EvUpdate u rr # post"
    from swapsD [OF sw this] obtain e where e: "pre = [] \<and> e = entry \<or> (\<exists>pre' k. pre = pre' @ [EvGet k (Inr e)])"
        "revives cfg req e u" by blast
    from e(1) r [OF e(2)] show "\<exists>e template. (pre = [] \<and> e = entry \<or> (\<exists>pre' k. pre = pre' @ [EvGet k (Inr e)])) \<and>
          cat_placement (ce_record e) = Dedicated \<and> 1 < cat_generation (ce_record e) \<and>
          dw_payload (cat_workload (ce_record e)) = [] \<and>
          cat_initial_workload (ce_record e) = Some template \<and> du_workload u = template \<and>
          du_placement u = Dedicated \<and> du_runtime u = cat_runtime (ce_record e) \<and> du_revision u = ce_revision e \<and>
          du_idempotency u = revive_key cfg req (revived_desire (ce_record e) template) (cat_generation (ce_record e))"
      by blast
  qed (use unreleased none in simp_all)
qed

definition sample_released :: catalog_entry where
  "sample_released = \<lparr>ce_record = sample_record\<lparr>cat_placement := Dedicated, cat_generation := 3,
     cat_initial_workload := Some \<lparr>dw_version = ''v'', dw_payload = ''p''\<rparr>\<rparr>, ce_revision = 7\<rparr>"

theorem only_a_release_is_revived_witness:
  "\<exists>x w' u r post. run_state (revive_released (logged_config (sample_config Pooled)) sample_request sample_released) (0, []) =
       (x, (w', EvUpdate u r # post)) \<and> du_workload u = \<lparr>dw_version = ''v'', dw_payload = ''p''\<rparr> \<and> du_revision u = 7"
proof -
  let ?run = "run_state (revive_released (logged_config (sample_config Pooled)) sample_request sample_released) (0, [])"
  obtain x n w' cs where run: "?run = ((x, n), (w', cs))" by (metis prod.exhaust)
  have "case snd (snd ?run) of EvUpdate u r # post \<Rightarrow> True | _ \<Rightarrow> False" by code_simp
  with run obtain u r post where cs: "cs = [] @ EvUpdate u r # post"
    by (cases cs) (auto split: place_event.splits)
  with only_a_release_is_revived [OF run] obtain template where
      "cat_initial_workload (ce_record sample_released) = Some template" "du_workload u = template"
      "du_revision u = ce_revision sample_released"
    by blast
  with cs run show ?thesis by (auto simp: sample_released_def)
qed

theorem workload_identity_round_trip_witness:
  "take_fields 5 (identity_preimage sample_intent) = Some ([''t'', ''s'', ''a'', ''r'', put_uint64 1], []) \<and>
   length (workload_name (\<lambda>b. b) sample_intent) \<le> 60"
  using workload_identity_round_trip [of sample_intent "\<lambda>b. b"] by (simp add: sample_intent_def)

end
