(* ===== verification/Discipline.thy ===== *)
theory Discipline
  imports Reconciler
begin

text \<open>
  The order of the calls of a whole reconciliation, whatever its seams reply: one monitor over
  the calls of \<open>Attach\<close> and \<open>Reconciler\<close>, the proof that every operation keeps it, and what it says
  of the claim, of attaches and binds, and of the dedicated fence.
\<close>

section \<open>The order of the calls\<close>

text \<open>
  One monitor states the rules every reconciliation keeps. The claim is acquired at most once;
  what scales or attaches needs it, and nothing follows its release. No attach follows one
  that was accepted or whose effect is unknown. A bind names a residency that was observed, and
  after an accepted attach only the one the Host answered with. In the dedicated arm an attach
  directly follows a read of the catalog that still desires the ensured generation.
\<close>

datatype claim_phase = Unclaimed | Refused | Held | Given

record monitor =
  mo_phase :: claim_phase
  mo_seen :: "registry_observation set"
  mo_stale :: bool
  mo_settled :: bool
  mo_intent :: "intent option"
  mo_read :: "catalog_record option"

definition acting :: "place_event \<Rightarrow> bool" where
  "acting e =
     (case e of EvUpdate _ _ \<Rightarrow> True | EvEnsure _ _ \<Rightarrow> True | EvObserve _ _ \<Rightarrow> True | EvEndpoint _ _ \<Rightarrow> True
      | EvCandidates _ _ _ \<Rightarrow> True | EvAttach _ _ _ \<Rightarrow> True | EvWait _ _ \<Rightarrow> True | EvDraw _ \<Rightarrow> True | _ \<Rightarrow> False)"

text \<open>The Host accepted, or may have acted.\<close>

definition final_answer :: "perr + registry_observation \<Rightarrow> bool" where
  "final_answer r = (case r of Inr obs \<Rightarrow> True | Inl err \<Rightarrow> fst (attach_answer (Some err)) = AnswerAbort)"

text \<open>The Host says the lease is held elsewhere.\<close>

definition stale_answer :: "perr + registry_observation \<Rightarrow> bool" where
  "stale_answer r = (case r of Inr obs \<Rightarrow> False | Inl err \<Rightarrow> fst (attach_answer (Some err)) = AnswerStale)"

definition fenced :: "monitor \<Rightarrow> attach_req \<Rightarrow> bool" where
  "fenced s q =
     (case mo_intent s of
        None \<Rightarrow> True
      | Some i \<Rightarrow>
          (case mo_read s of
             None \<Rightarrow> False
           | Some rec \<Rightarrow>
               cat_placement rec = Dedicated \<and> cat_generation rec = in_generation i \<and>
               at_generation q = in_generation i \<and>
               at_tenant q = cat_tenant rec \<and> at_session q = cat_session rec \<and>
               at_agent q = cat_agent rec \<and> at_runtime q = cat_runtime rec))"

definition idle :: "monitor \<Rightarrow> monitor" where
  "idle s = s\<lparr>mo_read := None\<rparr>"

definition see :: "(perr + registry_observation option) \<Rightarrow> monitor \<Rightarrow> monitor" where
  "see r s = (case r of Inr (Some obs) \<Rightarrow> s\<lparr>mo_seen := insert obs (mo_seen s)\<rparr> | _ \<Rightarrow> s)"

definition place_track :: "'w place_config \<Rightarrow> place_request \<Rightarrow> monitor \<Rightarrow> place_event \<Rightarrow> monitor option" where
  "place_track cfg req s e =
     (if mo_phase s = Given \<or> acting e \<and> mo_phase s \<noteq> Held then None
      else case e of
        EvGet k r \<Rightarrow> Some (s\<lparr>mo_read := (case r of Inr entry \<Rightarrow> Some (ce_record entry) | Inl err \<Rightarrow> None)\<rparr>)
      | EvOwner r \<Rightarrow> if mo_settled s then None else Some ((see r (idle s))\<lparr>mo_stale := False\<rparr>)
      | EvObserve i r \<Rightarrow> if mo_settled s then None else Some (see r (idle s))
      | EvAcquire q r \<Rightarrow>
          if mo_phase s = Unclaimed \<and> cl_key q = rq_key req \<and> cl_holder q = pc_holder cfg
          then Some ((idle s)\<lparr>mo_phase := if r = None then Held else Refused\<rparr>) else None
      | EvRelease k h \<Rightarrow>
          if mo_phase s = Held \<and> k = rq_key req \<and> h = pc_holder cfg then Some ((idle s)\<lparr>mo_phase := Given\<rparr>) else None
      | EvEnsure i r \<Rightarrow>
          if mo_intent s \<noteq> None then None
          else Some (if r = None then (idle s)\<lparr>mo_intent := Some i\<rparr> else idle s)
      | EvAttach ep q r \<Rightarrow>
          if mo_settled s \<or> mo_stale s \<or> \<not> fenced s q then None
          else Some ((idle s)\<lparr>mo_settled := final_answer r, mo_stale := stale_answer r,
                 mo_seen := (case r of Inr obs \<Rightarrow> {obs} | Inl err \<Rightarrow> mo_seen s)\<rparr>)
      | EvBind ep b r \<Rightarrow>
          if \<exists>obs \<in> mo_seen s. ep = obs_endpoint obs \<and> b = bind_request_for cfg obs then Some (idle s) else None
      | _ \<Rightarrow> Some (idle s))"

lemma idle_simps [simp]:
  "mo_phase (idle s) = mo_phase s" "mo_seen (idle s) = mo_seen s" "mo_settled (idle s) = mo_settled s"
  "mo_stale (idle s) = mo_stale s"
  "mo_intent (idle s) = mo_intent s" "mo_read (idle s) = None" "idle (idle s) = idle s"
  by (simp_all add: idle_def)

lemma see_simps [simp]:
  "mo_phase (see r s) = mo_phase s" "mo_settled (see r s) = mo_settled s" "mo_stale (see r s) = mo_stale s"
  "mo_intent (see r s) = mo_intent s"
  "obs \<in> mo_seen (see (Inr (Some obs)) s)" "mo_seen s \<subseteq> mo_seen (see r s)"
  by (auto simp: see_def split: sum.split option.split)

lemmas track_defs = place_track_def acting_def

lemma track_link [simp]:
  "mo_phase s \<noteq> Given \<Longrightarrow> place_track cfg req s (EvAsk cap obs r) = Some (idle s)"
  "mo_phase s \<noteq> Given \<Longrightarrow> place_track cfg req s (EvDeliver cmd e) = Some (idle s)"
  "mo_phase s \<noteq> Given \<Longrightarrow> place_track cfg req s (EvRoute x) = Some (idle s)"
  "mo_phase s \<noteq> Given \<Longrightarrow> place_track cfg req s (EvUnbind u) = Some (idle s)"
  "mo_phase s \<noteq> Given \<Longrightarrow> place_track cfg req s (EvNow t) = Some (idle s)"
  "mo_phase s \<noteq> Given \<Longrightarrow> \<not> mo_settled s \<Longrightarrow>
     place_track cfg req s (EvOwner o1) = Some ((see o1 (idle s))\<lparr>mo_stale := False\<rparr>)"
  "mo_phase s \<noteq> Given \<Longrightarrow> place_track cfg req s (EvGet k (Inr entry)) = Some (s\<lparr>mo_read := Some (ce_record entry)\<rparr>)"
  "mo_phase s \<noteq> Given \<Longrightarrow> place_track cfg req s (EvGet k (Inl err)) = Some (idle s)"
  "mo_phase s = Held \<Longrightarrow> place_track cfg req s (EvCandidates tk n g) = Some (idle s)"
  "mo_phase s = Held \<Longrightarrow> place_track cfg req s (EvWait d e) = Some (idle s)"
  "mo_phase s = Held \<Longrightarrow> place_track cfg req s (EvDraw d) = Some (idle s)"
  "mo_phase s = Held \<Longrightarrow> place_track cfg req s (EvUpdate du g1) = Some (idle s)"
  "mo_phase s = Held \<Longrightarrow> \<not> mo_settled s \<Longrightarrow> place_track cfg req s (EvObserve i o1) = Some (see o1 (idle s))"
  "mo_phase s = Held \<Longrightarrow> place_track cfg req s (EvEndpoint i d1) = Some (idle s)"
  by (simp_all add: track_defs idle_def)

lemma call_rules:
  "mo_phase s \<noteq> Given \<Longrightarrow> (\<And>x. obeys (place_track cfg req) (idle s) (f1 x) Q) \<Longrightarrow>
     obeys (place_track cfg req) s (State_Monad.bind (logged (EvAsk cap obs) m1) f1) Q"
  "mo_phase s \<noteq> Given \<Longrightarrow> (\<And>x. obeys (place_track cfg req) (idle s) (f2 x) Q) \<Longrightarrow>
     obeys (place_track cfg req) s (State_Monad.bind (logged (EvDeliver cmd) m2) f2) Q"
  "mo_phase s \<noteq> Given \<Longrightarrow> (\<And>x. obeys (place_track cfg req) (idle s) (f3 x) Q) \<Longrightarrow>
     obeys (place_track cfg req) s (State_Monad.bind (logged EvRoute m3) f3) Q"
  "mo_phase s \<noteq> Given \<Longrightarrow> (\<And>x. obeys (place_track cfg req) (idle s) (f4 x) Q) \<Longrightarrow>
     obeys (place_track cfg req) s (State_Monad.bind (logged (\<lambda>_. EvUnbind u) m4) f4) Q"
  "mo_phase s \<noteq> Given \<Longrightarrow> (\<And>x. obeys (place_track cfg req) (idle s) (f5 x) Q) \<Longrightarrow>
     obeys (place_track cfg req) s (State_Monad.bind (logged EvNow m5) f5) Q"
  "mo_phase s \<noteq> Given \<Longrightarrow> \<not> mo_settled s \<Longrightarrow> (\<And>x. obeys (place_track cfg req) ((see x (idle s))\<lparr>mo_stale := False\<rparr>) (f6 x) Q) \<Longrightarrow>
     obeys (place_track cfg req) s (State_Monad.bind (logged EvOwner m6) f6) Q"
  "mo_phase s = Held \<Longrightarrow> (\<And>x. obeys (place_track cfg req) (idle s) (f7 x) Q) \<Longrightarrow>
     obeys (place_track cfg req) s (State_Monad.bind (logged (EvCandidates tk n) m7) f7) Q"
  "mo_phase s = Held \<Longrightarrow> (\<And>x. obeys (place_track cfg req) (idle s) (f8 x) Q) \<Longrightarrow>
     obeys (place_track cfg req) s (State_Monad.bind (logged (EvWait d) m8) f8) Q"
  "mo_phase s = Held \<Longrightarrow> (\<And>x. obeys (place_track cfg req) (idle s) (f9 x) Q) \<Longrightarrow>
     obeys (place_track cfg req) s (State_Monad.bind (logged (\<lambda>_. EvDraw d) m9) f9) Q"
  "mo_phase s = Held \<Longrightarrow> (\<And>x. obeys (place_track cfg req) (idle s) (f10 x) Q) \<Longrightarrow>
     obeys (place_track cfg req) s (State_Monad.bind (logged (EvUpdate du) m10) f10) Q"
  "mo_phase s = Held \<Longrightarrow> \<not> mo_settled s \<Longrightarrow> (\<And>x. obeys (place_track cfg req) (see x (idle s)) (f11 x) Q) \<Longrightarrow>
     obeys (place_track cfg req) s (State_Monad.bind (logged (EvObserve i) m11) f11) Q"
  "mo_phase s = Held \<Longrightarrow> (\<And>x. obeys (place_track cfg req) (idle s) (f12 x) Q) \<Longrightarrow>
     obeys (place_track cfg req) s (State_Monad.bind (logged (EvEndpoint i) m12) f12) Q"
  by (rule obeys_call, simp)+

lemma call_get:
  assumes "mo_phase s \<noteq> Given" "\<And>err. obeys (place_track cfg req) (idle s) (f (Inl err)) Q"
    "\<And>entry. obeys (place_track cfg req) (s\<lparr>mo_read := Some (ce_record entry)\<rparr>) (f (Inr entry)) Q"
  shows "obeys (place_track cfg req) s (State_Monad.bind (logged (EvGet k) m) f) Q"
proof (rule obeys_call)
  fix x
  show "\<exists>s'. place_track cfg req s (EvGet k x) = Some s' \<and> obeys (place_track cfg req) s' (f x) Q"
    using assms by (cases x) simp_all
qed

lemma call_bind:
  assumes "mo_phase s \<noteq> Given" "obs \<in> mo_seen s" "\<And>x. obeys (place_track cfg req) (idle s) (f x) Q"
  shows "obeys (place_track cfg req) s (State_Monad.bind (logged (EvBind (obs_endpoint obs) (bind_request_for cfg obs)) m) f) Q"
proof (rule obeys_call)
  fix x
  show "\<exists>s'. place_track cfg req s (EvBind (obs_endpoint obs) (bind_request_for cfg obs) x) = Some s' \<and> obeys (place_track cfg req) s' (f x) Q"
    using assms by (auto simp: track_defs)
qed

lemmas call_intro = call_rules call_get obeys_ret obeys_if obeys_case_option obeys_case_sum obeys_case_prod obeys_let

text \<open>
  An operation that leaves the monitor as it was, but for the read: \<open>b\<close> is the state without it.
\<close>

abbreviation quiet :: "'v place_config \<Rightarrow> place_request \<Rightarrow> monitor \<Rightarrow> monitor \<Rightarrow> ('w \<times> place_event list, 'a) state \<Rightarrow> bool" where
  "quiet cfg req b s m \<equiv> obeys (place_track cfg req) s m (\<lambda>x s'. idle s' = b)"

lemma idle_eqD:
  assumes "idle s = b"
  shows "mo_phase s = mo_phase b" "mo_seen s = mo_seen b" "mo_settled s = mo_settled b" "mo_intent s = mo_intent b"
    "idle b = b"
  using assms by auto

lemma wake_check_quiet:
  assumes "\<And>asks s. idle s = b \<Longrightarrow> quiet cfg req b s (k asks)" "idle s = b" "mo_phase b \<noteq> Given"
  shows "quiet cfg req b s (wake_check (logged_links lk) req obs cmd res cap asks k)"
  unfolding wake_check_def ask_once_def Let_def
  by (auto intro!: call_intro assms(1) simp: assms(2) idle_eqD [OF assms(2)] assms(3) split: option.split)

lemma wake_command_quiet:
  assumes "idle s = b" "mo_phase b \<noteq> Given"
  shows "quiet cfg req b s (wake_command (logged_links lk) req obs cmd asks res)"
proof -
  have "quiet cfg req b s (State_Monad.bind (deliver_one (logged_links lk) req cmd res) (\<lambda>res1. ret (asks, res1)))"
    if "idle s = b" for s asks
    unfolding deliver_one_def using assms(2) idle_eqD [OF that]
    by (auto intro!: call_intro simp: that)
  then show ?thesis
    unfolding wake_command_def by (intro wake_check_quiet assms)
qed

lemma wake_loop_quiet:
  assumes "idle s = b" "mo_phase b \<noteq> Given"
  shows "quiet cfg req b s (wake_loop (logged_links lk) req obs cmds asks res)"
  using assms(1)
proof (induction cmds arbitrary: s asks res)
  case Nil
  then show ?case by (simp add: obeys_ret)
next
  case (Cons cmd cmds)
  show ?case
    unfolding wake_loop.simps
    by (rule obeys_sub [OF wake_command_quiet [OF Cons.prems assms(2)]]) (rule Cons.IH)
qed

lemma bind_and_deliver_quiet:
  assumes "idle s = b" "mo_phase b \<noteq> Given" "obs \<in> mo_seen b"
  shows "quiet cfg req b s (bind_and_deliver (logged_config cfg) (logged_links lk) req obs res attached)"
proof -
  have unbind: "quiet cfg req b s1 (if routed then State_Monad.bind (logged (\<lambda>_. EvUnbind u) m) (\<lambda>_. ret x) else ret x)"
    if "idle s1 = b" for s1 routed u m x
    using assms(2) idle_eqD [OF that] by (auto intro!: call_intro simp: that)
  have tail: "quiet cfg req b s1 (State_Monad.bind (wake_loop (logged_links lk) req obs cmds asks res1) (\<lambda>res2.
      if routed then State_Monad.bind (logged (\<lambda>_. EvUnbind u) m) (\<lambda>_. ret (res2, None)) else ret (res2, None)))"
    if "idle s1 = b" for s1 cmds asks res1 routed u m
    by (rule obeys_sub [OF wake_loop_quiet [OF that assms(2)]]) (rule unbind)
  have s: "mo_phase s \<noteq> Given" "obs \<in> mo_seen s" "idle s = b"
    using assms idle_eqD [OF assms(1)] by simp_all
  show ?thesis
    unfolding bind_and_deliver_def Let_def logged_links_simps logged_pure
    by (intro call_rules call_bind obeys_case_option obeys_if obeys_ret tail) (simp_all add: s assms idle_eqD(5) [OF s(3)])
qed

lemma wake_quiet:
  assumes "idle s = b" "mo_phase b \<noteq> Given" "obs \<in> mo_seen b"
  shows "quiet cfg req b s (wake (logged_config cfg) req obs res)"
  unfolding wake_def using assms by (auto intro!: call_intro bind_and_deliver_quiet split: option.split)

text \<open>The pooled arm: under the claim, with no final attach made yet and no intent ensured.\<close>

definition pooled_held :: "monitor \<Rightarrow> bool" where
  "pooled_held s \<longleftrightarrow> mo_phase s = Held \<and> mo_intent s = None"

definition ready :: "monitor \<Rightarrow> bool" where
  "ready s \<longleftrightarrow> pooled_held s \<and> \<not> mo_settled s \<and> \<not> mo_stale s"

definition retrying :: "monitor \<Rightarrow> bool" where
  "retrying s \<longleftrightarrow> pooled_held s \<and> \<not> mo_settled s"

lemma ready_idle [simp]: "ready (idle s) = ready s" "ready (see r s) = ready s"
    "ready (s\<lparr>mo_read := r1\<rparr>) = ready s" "retrying (idle s) = retrying s"
    "retrying (s\<lparr>mo_read := r1\<rparr>) = retrying s" "ready (s\<lparr>mo_stale := False\<rparr>) = retrying s"
    "retrying (see r s) = retrying s"
  by (simp_all add: ready_def retrying_def pooled_held_def)

lemma ready_held: "ready s \<Longrightarrow> mo_phase s = Held" "ready s \<Longrightarrow> mo_phase s \<noteq> Given" "ready s \<Longrightarrow> pooled_held s"
    "ready s \<Longrightarrow> retrying s"
  by (simp_all add: ready_def retrying_def pooled_held_def)

lemma retrying_held: "retrying s \<Longrightarrow> mo_phase s = Held" "retrying s \<Longrightarrow> mo_phase s \<noteq> Given" "retrying s \<Longrightarrow> pooled_held s"
    "retrying s \<Longrightarrow> \<not> mo_settled s"
  by (simp_all add: retrying_def pooled_held_def)

lemma held_idle [simp]: "pooled_held (idle s) = pooled_held s" "pooled_held (s\<lparr>mo_read := r\<rparr>) = pooled_held s"
    "pooled_held (see r1 s) = pooled_held s" "pooled_held (s\<lparr>mo_stale := st\<rparr>) = pooled_held s"
  by (simp_all add: pooled_held_def)

lemma held_same: "idle s' = idle s \<Longrightarrow> pooled_held s' = pooled_held s"
  by (metis held_idle(1))

lemma log_wait:
  "mo_phase s = Held \<Longrightarrow> (\<And>x. Q x (idle s)) \<Longrightarrow> obeys (place_track cfg req) s (logged (EvWait d) m) Q"
  by (rule obeys_logged) simp

lemma filter_candidate_ready:
  "ready s \<Longrightarrow> obeys (place_track cfg req) s (filter_candidate cfg' (logged_links lk) req c p caps) (\<lambda>x s'. ready s')"
  by (induction caps arbitrary: s)
    (auto intro!: call_intro dest: ready_held simp: applies_def split: filtered.split)

lemma call_attach_ready:
  assumes "ready s"
    "\<And>obs s'. pooled_held s' \<Longrightarrow> obs \<in> mo_seen s' \<Longrightarrow> obeys (place_track cfg req) s' (f (Inr obs)) Q"
    "\<And>err s'. fst (attach_answer (Some err)) = AnswerAbort \<Longrightarrow> pooled_held s' \<Longrightarrow> obeys (place_track cfg req) s' (f (Inl err)) Q"
    "\<And>err s'. fst (attach_answer (Some err)) = AnswerStale \<Longrightarrow> retrying s' \<Longrightarrow> obeys (place_track cfg req) s' (f (Inl err)) Q"
    "\<And>err s'. fst (attach_answer (Some err)) \<notin> {AnswerAbort, AnswerStale} \<Longrightarrow> ready s' \<Longrightarrow> obeys (place_track cfg req) s' (f (Inl err)) Q"
  shows "obeys (place_track cfg req) s (State_Monad.bind (logged (EvAttach ep q) m) f) Q"
proof (rule obeys_call)
  fix x
  let ?s = "(idle s)\<lparr>mo_settled := final_answer x, mo_stale := stale_answer x, mo_seen := (case x of Inr obs \<Rightarrow> {obs} | Inl err \<Rightarrow> mo_seen s)\<rparr>"
  have "place_track cfg req s (EvAttach ep q x) = Some ?s" and held: "pooled_held ?s"
    using assms(1) by (simp_all add: track_defs ready_def pooled_held_def fenced_def)
  moreover have "obeys (place_track cfg req) ?s (f x) Q"
  proof (cases x)
    case (Inr obs)
    then show ?thesis using assms(2) [OF held] by simp
  next
    case (Inl err)
    then show ?thesis
      using held assms(3-5) [of err ?s] by (cases "fst (attach_answer (Some err))")
        (simp_all add: ready_def retrying_def final_answer_def stale_answer_def)
  qed
  ultimately show "\<exists>s'. place_track cfg req s (EvAttach ep q x) = Some s' \<and> obeys (place_track cfg req) s' (f x) Q" by blast
qed

definition scan_post :: "scanned \<Rightarrow> monitor \<Rightarrow> bool" where
  "scan_post x s \<longleftrightarrow>
     (case x of Returned y why \<Rightarrow> pooled_held s | Stale q \<Rightarrow> retrying s | Continued q \<Rightarrow> ready s)"

lemma scan_post_Returned [simp]: "scan_post (Returned y why) s = pooled_held s"
  and scan_post_ready: "ready s \<Longrightarrow> scan_post x s"
  by (auto simp: scan_post_def dest: ready_held split: scanned.split)

lemma quiet_returned:
  assumes "quiet cfg req (idle s) s m" "pooled_held s"
  shows "obeys (place_track cfg req) s (State_Monad.bind m (\<lambda>x. ret (Returned x w))) scan_post"
proof (rule obeys_sub [OF assms(1)], rule obeys_ret)
  show "scan_post (Returned x w) s'" if "idle s' = idle s" for x s'
    using held_same [OF that] assms(2) by simp
qed

lemma bind_attached_returned:
  assumes "pooled_held s" "obs \<in> mo_seen s"
  shows "obeys (place_track cfg req) s
    (State_Monad.bind (bind_attached (logged_config cfg) (logged_links lk) req obs res) (\<lambda>x. ret (Returned x w))) scan_post"
  unfolding bind_attached_def
  by (intro quiet_returned bind_and_deliver_quiet) (use assms in \<open>simp_all add: pooled_held_def\<close>)

lemma attach_failed_abort:
  "fst (attach_answer (Some err)) = AnswerAbort \<Longrightarrow> attach_failed c p err = Returned (fst p, Some (Wrapped [err])) (snd p)"
  by (cases "attach_answer (Some err)") (simp add: attach_failed_def)

lemma attach_failed_stale:
  "fst (attach_answer (Some err)) = AnswerStale \<Longrightarrow> \<exists>q. attach_failed c p err = Stale q"
  by (cases "attach_answer (Some err)") (simp add: attach_failed_def)

lemma attach_candidate_obeys:
  assumes "ready s"
  shows "obeys (place_track cfg req) s (attach_candidate (logged_config cfg) (logged_links lk) req rec c p) scan_post"
  unfolding attach_candidate_def logged_links_simps
  by (rule call_attach_ready [OF assms])
    (auto intro!: bind_attached_returned obeys_ret simp: attach_failed_abort scan_post_ready
      scan_post_def [of "Stale _"] dest!: attach_failed_stale [of _ c p])

lemma scan_candidates_obeys:
  "ready s \<Longrightarrow>
    obeys (place_track cfg req) s (scan_candidates (logged_config cfg) (logged_links lk) req rec cs p) scan_post"
proof (induction cs arbitrary: s p)
  case Nil
  then show ?case by (simp add: obeys_ret scan_post_ready)
next
  case (Cons c cs)
  have tail: "obeys (place_track cfg req) s1 (State_Monad.bind (attach_candidate (logged_config cfg) (logged_links lk) req rec c p)
      (\<lambda>s. case s of Continued q \<Rightarrow> scan_candidates (logged_config cfg) (logged_links lk) req rec cs q
        | Stale q \<Rightarrow> ret (Stale q) | Returned x why \<Rightarrow> ret (Returned x why))) scan_post" if "ready s1" for s1
    by (rule obeys_sub [OF attach_candidate_obeys [OF that]])
      (auto simp: scan_post_def [of "Stale _"] scan_post_def [of "Continued _"] intro!: obeys_ret Cons.IH split: scanned.split)
  show ?case
    unfolding scan_candidates.simps
    by (intro obeys_if Cons.IH Cons.prems obeys_sub [OF filter_candidate_ready [OF Cons.prems]])
      (auto intro!: obeys_ret Cons.IH tail dest: ready_held split: filtered.split)
qed

lemma place_attempt_obeys:
  assumes "retrying s"
  shows "obeys (place_track cfg req) s (place_attempt (logged_config cfg) (logged_links lk) req rec p) scan_post"
proof -
  have page: "obeys (place_track cfg req) s1 (State_Monad.bind (logged (EvCandidates tk n) m) (\<lambda>g. case g of
      Inl err \<Rightarrow> ret (Returned (fst p, Some err) (snd p))
    | Inr hosts \<Rightarrow> scan_candidates (logged_config cfg) (logged_links lk) req rec hosts p)) scan_post"
    if "ready s1" for s1 tk n m
    by (intro call_rules obeys_case_sum obeys_ret scan_candidates_obeys) (simp_all add: that ready_held [OF that])
  have reuse: "obeys (place_track cfg req) s1 (State_Monad.bind (wake (logged_config cfg) req obs res)
      (\<lambda>x. ret (Returned x (snd p)))) scan_post" if "ready s1" "obs \<in> mo_seen s1" for s1 obs res
    by (intro quiet_returned wake_quiet) (simp_all add: that ready_held [OF that(1)])
  show ?thesis
    unfolding place_attempt_def Let_def logged_config_simps
    by (intro call_rules obeys_case_sum obeys_case_option obeys_if obeys_ret page reuse)
      (simp_all add: assms retrying_held [OF assms] scan_candidates_obeys)
qed

lemma wait_for_retrying:
  "retrying s \<Longrightarrow> obeys (place_track cfg req) s (wait_for (logged_config cfg) d) (\<lambda>x s'. retrying s')"
  unfolding wait_for_def draw_or_default_def jittered_def Let_def
  by (auto intro!: log_wait call_intro simp: retrying_held(1) split: option.split)

lemma place_rounds_obeys:
  "retrying s \<Longrightarrow> obeys (place_track cfg req) s
     (place_rounds (logged_config cfg) (logged_links lk) req rec attempt p) (\<lambda>x s'. pooled_held s')"
proof (induction "nat (replace_attempts cfg - int attempt)" arbitrary: attempt p s rule: less_induct)
  case less
  have again: "obeys (place_track cfg req) s1 (case x of
        Returned y why \<Rightarrow> ret (y, why)
      | Continued q \<Rightarrow> ret (((fst q)\<lparr>res_decision := plain_decision OutcomeNoCapacity\<rparr>, None), snd q)
      | Stale q \<Rightarrow>
          if int attempt + 1 \<ge> replace_attempts (logged_config cfg)
          then ret (((fst q)\<lparr>res_decision := plain_decision OutcomeNoCapacity\<rparr>, Some (Sentinel ErrRegistryStale)), snd q)
          else place_rounds (logged_config cfg) (logged_links lk) req rec (Suc attempt) q) (\<lambda>x s'. pooled_held s')"
    if "scan_post x s1" for x s1
  proof (cases x)
    case (Stale q)
    with that have "retrying s1" by (simp add: scan_post_def)
    with less.hyps [of "Suc attempt" s1 q] Stale show ?thesis
      by (auto intro!: obeys_ret dest: retrying_held)
  qed (use that in \<open>auto simp: scan_post_def intro!: obeys_ret dest: retrying_held ready_held\<close>)
  have waited: "obeys (place_track cfg req) s
      (if 0 < attempt then wait_for (logged_config cfg) d else ret None) (\<lambda>x s'. retrying s')" for d
    using less.prems by (auto intro!: obeys_ret wait_for_retrying)
  show ?case
    unfolding place_rounds.simps [of _ _ _ _ attempt] Let_def
  proof (rule obeys_sub [OF waited], rule obeys_case_option)
    show "obeys (place_track cfg req) s1 (ret ((fst p1, Some err), snd p1)) (\<lambda>x s'. pooled_held s')" if "retrying s1" for s1 err and p1 :: pass
      using retrying_held [OF that] by (simp add: obeys_ret)
  qed (rule obeys_sub [OF place_attempt_obeys], assumption, rule again)
qed

lemma place_pooled_obeys:
  assumes "ready s"
  shows "obeys (place_track cfg req) s (place_pooled (logged_config cfg) (logged_links lk) req writes rp) (\<lambda>x s'. mo_phase s' = Held)"
proof -
  have body: "obeys (place_track cfg req) s (place_pooled_body (logged_config cfg) (logged_links lk) req writes) (\<lambda>x s'. pooled_held s')"
    unfolding place_pooled_body_def Let_def logged_config_simps
    using ready_held [OF assms] assms by (auto intro!: call_get obeys_ret place_rounds_obeys)
  show ?thesis
    unfolding place_pooled_def report_incapable_def
    by (rule obeys_sub [OF body]) (auto intro!: call_intro simp: pooled_held_def)
qed

text \<open>The dedicated arm: under the claim, the intent ensured and no final attach made yet.\<close>

definition aimed :: "intent \<Rightarrow> monitor \<Rightarrow> bool" where
  "aimed i s \<longleftrightarrow> mo_phase s = Held \<and> mo_intent s = Some i \<and> \<not> mo_settled s \<and> \<not> mo_stale s"

lemma aimed_simps [simp]:
  "aimed i (idle s) = aimed i s" "aimed i (see r s) = aimed i s" "aimed i (s\<lparr>mo_read := r1\<rparr>) = aimed i s"
  by (simp_all add: aimed_def)

lemma aimed_unstale: "aimed i s \<Longrightarrow> aimed i (s\<lparr>mo_stale := False\<rparr>)"
  by (simp add: aimed_def)

lemma aimed_held: "aimed i s \<Longrightarrow> mo_phase s = Held" "aimed i s \<Longrightarrow> mo_phase s \<noteq> Given" "aimed i s \<Longrightarrow> \<not> mo_settled s"
  by (simp_all add: aimed_def)

abbreviation holding :: "'v place_config \<Rightarrow> place_request \<Rightarrow> monitor \<Rightarrow> ('w \<times> place_event list, 'a) state \<Rightarrow> bool" where
  "holding cfg req s m \<equiv> obeys (place_track cfg req) s m (\<lambda>x s'. mo_phase s' = Held)"

lemma quiet_holding:
  assumes "quiet cfg req (idle s) s m" "mo_phase s = Held"
  shows "holding cfg req s m"
  by (rule obeys_weaken [OF assms(1)]) (metis assms(2) idle_simps(1))

lemma wake_holding:
  assumes "mo_phase s = Held" "obs \<in> mo_seen s"
  shows "holding cfg req s (wake (logged_config cfg) req obs res)"
  by (intro quiet_holding wake_quiet) (simp_all add: assms)

text \<open>A read that still desires the ensured generation.\<close>

definition fresh :: "intent \<Rightarrow> catalog_record \<Rightarrow> monitor \<Rightarrow> bool" where
  "fresh i rec s \<longleftrightarrow> aimed i s \<and> mo_read s = Some rec \<and>
     cat_placement rec = Dedicated \<and> cat_generation rec = in_generation i"

lemma fresh_held: "fresh i rec s \<Longrightarrow> mo_phase s = Held" "fresh i rec s \<Longrightarrow> mo_phase s \<noteq> Given" "fresh i rec s \<Longrightarrow> aimed i s"
    "fresh i rec s \<Longrightarrow> \<not> mo_settled s"
  by (simp_all add: fresh_def aimed_def)

lemma dedicated_reread_holding:
  assumes "aimed i s" "\<And>rec s'. fresh i rec s' \<Longrightarrow> mo_seen s \<subseteq> mo_seen s' \<Longrightarrow> holding cfg req s' (k rec)"
  shows "holding cfg req s (dedicated_reread (logged_config cfg) req i res k)"
  unfolding dedicated_reread_def logged_config_simps
  by (rule call_get) (auto intro!: obeys_ret assms(2) simp: aimed_held [OF assms(1)] fresh_def assms(1))

lemma dedicated_filter_holding:
  assumes "fresh i rec s" "\<And>rec s'. fresh i rec s' \<Longrightarrow> holding cfg req s' (k rec)"
  shows "holding cfg req s (dedicated_filter (logged_config cfg) (logged_links lk) req i ep res cap rec k)"
proof -
  have "holding cfg req (idle s) (case classify_gate_capability r of
          (GateUnaddressable, err) \<Rightarrow> ret (res\<lparr>res_unaddressable := res_unaddressable res @ [de_host ep]\<rparr>, None)
        | (GateUnreachable, err) \<Rightarrow> ret (res\<lparr>res_unreachable := res_unreachable res @ [de_host ep]\<rparr>, None)
        | (GateAbort, err) \<Rightarrow> ret (res, err)
        | (GateIncapable, err) \<Rightarrow> ret (res\<lparr>res_incapable := res_incapable res @ [de_host ep]\<rparr>, None)
        | (GateCapable, err) \<Rightarrow> dedicated_reread (logged_config cfg) req i res k)" for r
    using fresh_held [OF assms(1)]
    by (auto intro!: obeys_ret dedicated_reread_holding assms(2) split: prod.split gate_capability.split)
  then show ?thesis
    unfolding dedicated_filter_def logged_accepts
    by (intro obeys_if call_rules assms) (simp_all add: fresh_held [OF assms(1)])
qed

lemma call_attach_fresh:
  assumes "fresh i rec s" "at_generation q = in_generation i"
    "at_tenant q = cat_tenant rec" "at_session q = cat_session rec" "at_agent q = cat_agent rec" "at_runtime q = cat_runtime rec"
    "\<And>obs s'. mo_phase s' = Held \<Longrightarrow> obs \<in> mo_seen s' \<Longrightarrow> holding cfg req s' (f (Inr obs))"
    "\<And>err s'. mo_phase s' = Held \<Longrightarrow> (fst (attach_answer (Some err)) = AnswerStale \<longrightarrow> \<not> mo_settled s') \<Longrightarrow>
       holding cfg req s' (f (Inl err))"
  shows "holding cfg req s (State_Monad.bind (logged (EvAttach ep q) m) f)"
proof (rule obeys_call)
  fix x
  let ?s = "(idle s)\<lparr>mo_settled := final_answer x, mo_stale := stale_answer x, mo_seen := (case x of Inr obs \<Rightarrow> {obs} | Inl err \<Rightarrow> mo_seen s)\<rparr>"
  have "place_track cfg req s (EvAttach ep q x) = Some ?s" "mo_phase ?s = Held"
    using assms(1-6) by (simp_all add: track_defs fresh_def aimed_def fenced_def)
  moreover from this have "holding cfg req ?s (f x)"
    using assms(7) [of ?s] assms(8) [of ?s] by (cases x) (simp_all add: final_answer_def)
  ultimately show "\<exists>s'. place_track cfg req s (EvAttach ep q x) = Some s' \<and> holding cfg req s' (f x)" by blast
qed

lemma valid_now_quiet:
  "mo_phase s = Held \<Longrightarrow> quiet cfg req (idle s) s (valid_now (logged_config cfg) obs check)"
  by (auto simp: valid_now_def intro!: call_intro)

text \<open>After a quiet step the rest may rely on the phase and on what was seen.\<close>

lemma quiet_then:
  assumes "quiet cfg req (idle s) s m"
    "\<And>x s'. mo_phase s' = mo_phase s \<Longrightarrow> mo_seen s' = mo_seen s \<Longrightarrow> (\<And>i. aimed i s' = aimed i s) \<Longrightarrow> obeys (place_track cfg req) s' (f x) Q"
  shows "obeys (place_track cfg req) s (State_Monad.bind m f) Q"
proof (rule obeys_sub [OF assms(1)])
  fix x s'
  assume "idle s' = idle s"
  then show "obeys (place_track cfg req) s' (f x) Q"
    by (intro assms(2)) (metis idle_simps(1), metis idle_simps(2), metis aimed_simps(1))
qed

lemma dedicated_accepted_holding:
  assumes "mo_phase s = Held" "obs \<in> mo_seen s"
  shows "holding cfg req s (State_Monad.bind (valid_now (logged_config cfg) obs check)
      (\<lambda>fits. if \<not> fits \<or> bad then ret x else bind_attached (logged_config cfg) (logged_links lk) req obs res))"
  unfolding bind_attached_def
  by (rule quiet_then [OF valid_now_quiet [OF assms(1)]])
    (intro obeys_if obeys_ret quiet_holding bind_and_deliver_quiet; simp add: assms)

lemma dedicated_attach_holding:
  assumes "fresh i rec s" "de_generation ep = in_generation i"
  shows "holding cfg req s (dedicated_attach (logged_config cfg) (logged_links lk) req i ep res rec)"
proof -
  have stale: "holding cfg req s1 (State_Monad.bind (logged EvOwner m) (\<lambda>o1. case o1 of
        Inl err \<Rightarrow> ret (res1, Some err)
      | Inr None \<Rightarrow> ret (res1, Some (Sentinel ErrRegistryStale))
      | Inr (Some current) \<Rightarrow> State_Monad.bind (logged EvNow m') (\<lambda>now.
          if dedicated_owner current rec i now
          then wake (logged_config cfg) req current (res1\<lparr>res_decision := reuse_decision current\<rparr>)
          else ret (res1, Some (Sentinel ErrRegistryStale)))))" if "mo_phase s1 = Held" "\<not> mo_settled s1" for s1 m m' res1
    by (intro call_rules obeys_case_sum obeys_case_option obeys_if obeys_ret wake_holding) (simp_all add: that)
  show ?thesis
    unfolding dedicated_attach_def logged_config_simps logged_links_simps logged_pure Let_def
  proof (rule call_attach_fresh [OF assms(1)], goal_cases)
    case (6 obs s')
    then show ?case unfolding sum.case by (rule dedicated_accepted_holding)
  next
    case (7 err s')
    then show ?case by (auto intro!: stale obeys_ret split: prod.split answer.split)
  qed (simp_all add: attach_request_def assms(2))
qed

lemma dedicated_discover_holding:
  assumes "aimed i s"
  shows "holding cfg req s (dedicated_discover (logged_config cfg) (logged_workloads wl) req i res)"
proof -
  have go: "holding cfg req s1 (dedicated_reread (logged_config cfg) req i res (\<lambda>rec1.
      dedicated_filter (logged_config cfg) (logged_links lk) req i ep res CapGate rec1 (\<lambda>rec2.
      dedicated_filter (logged_config cfg) (logged_links lk) req i ep res CapReference rec2 (\<lambda>rec3.
      dedicated_filter (logged_config cfg) (logged_links lk) req i ep res CapPrincipal rec3 (\<lambda>rec4.
      dedicated_attach (logged_config cfg) (logged_links lk) req i ep res rec4)))))"
    if "aimed i s1" "de_generation ep = in_generation i" for s1 lk ep
    by (intro dedicated_reread_holding dedicated_filter_holding dedicated_attach_holding that)
  have h: "mo_phase s = Held" using assms by (simp add: aimed_def)
  show ?thesis
    unfolding dedicated_discover_def logged_config_simps logged_workloads_simps
    by (auto intro!: call_rules obeys_ret go simp: h assms split: option.split sum.split)
qed

lemma dedicated_known_holding:
  assumes "aimed i s" "\<And>obs. owner = Some obs \<Longrightarrow> obs \<in> mo_seen s" "\<And>obs. observed = Some obs \<Longrightarrow> obs \<in> mo_seen s"
  shows "holding cfg req s (dedicated_known (logged_config cfg) (logged_workloads wl) req i res observed rec owner)"
proof -
  have observed: "holding cfg req s1 (case observed of
      Some obs \<Rightarrow> State_Monad.bind (valid_now (logged_config cfg) obs (dedicated_owner obs rec i))
        (\<lambda>fits. if \<not> fits then ret x else wake (logged_config cfg) req obs (g obs))
    | None \<Rightarrow> dedicated_discover (logged_config cfg) (logged_workloads wl) req i res)"
    if "aimed i s1" "mo_seen s1 = mo_seen s" for s1 x g
    using that assms(3) aimed_held [OF that(1)]
    by (intro obeys_case_option dedicated_discover_holding quiet_then [OF valid_now_quiet] obeys_if obeys_ret wake_holding) auto
  have h: "mo_phase s = Held" using assms(1) by (rule aimed_held)
  show ?thesis
  proof (cases owner)
    case None
    with assms(1) show ?thesis unfolding dedicated_known_def by (auto intro!: observed)
  next
    case (Some obs)
    show ?thesis
      unfolding dedicated_known_def Some option.case logged_config_simps bind_assoc bind_left_identity option.sel
      by (intro call_rules obeys_if wake_holding observed) (simp_all add: h assms Some)
  qed
qed

lemma place_dedicated_holding:
  assumes "aimed i s"
  shows "holding cfg req s (place_dedicated (logged_config cfg) (logged_workloads wl) req i res)"
proof -
  have h: "mo_phase s = Held" using assms by (rule aimed_held)
  have reread: "holding cfg req s1 (State_Monad.bind (logged EvOwner m) (\<lambda>o1. case o1 of
      Inl err \<Rightarrow> ret (res, Some err)
    | Inr owner \<Rightarrow> dedicated_known (logged_config cfg) (logged_workloads wl) req i res observed rec owner))"
    if "fresh i rec s1" "\<And>obs. observed = Some obs \<Longrightarrow> obs \<in> mo_seen s1" for s1 observed rec m
    using fresh_held [OF that(1)] that(2) see_simps(6)
    by (intro call_rules obeys_case_sum obeys_ret dedicated_known_holding) (auto simp: subset_iff aimed_unstale)
  show ?thesis
    unfolding place_dedicated_def logged_config_simps logged_workloads_simps
    by (intro call_rules obeys_case_sum obeys_ret dedicated_reread_holding reread) (auto simp: h assms aimed_held [OF assms])
qed

section \<open>A reconciliation keeps the rules\<close>

lemma ensure_desired_loop_ready:
  "ready s \<Longrightarrow> obeys (place_track cfg req) s (ensure_desired_loop (logged_config cfg) req d left entry writes) (\<lambda>x s'. ready s')"
proof (induction left arbitrary: s entry writes)
  case 0
  then show ?case by (simp add: obeys_ret)
next
  case (Suc left)
  show ?case
    unfolding ensure_desired_loop.simps logged_config_simps
    by (intro call_rules call_get obeys_if obeys_case_sum obeys_ret)
      (simp_all add: Suc ready_held [OF Suc.prems] obeys_ret)
qed

lemma revive_loop_ready:
  "ready s \<Longrightarrow> obeys (place_track cfg req) s (revive_loop (logged_config cfg) req left entry writes) (\<lambda>x s'. ready s')"
proof (induction left arbitrary: s entry writes)
  case 0
  then show ?case by (simp add: obeys_ret)
next
  case (Suc left)
  show ?case
    unfolding revive_loop.simps logged_config_simps Let_def
    by (intro call_rules call_get obeys_if obeys_case_sum obeys_case_option obeys_ret)
      (simp_all add: Suc ready_held [OF Suc.prems] obeys_ret)
qed

lemma call_ensure:
  assumes "ready s" "\<And>s' e. mo_phase s' = Held \<Longrightarrow> obeys (place_track cfg req) s' (f (Some e)) Q"
    "\<And>s'. aimed i s' \<Longrightarrow> obeys (place_track cfg req) s' (f None) Q"
  shows "obeys (place_track cfg req) s (State_Monad.bind (logged (EvEnsure i) m) f) Q"
proof (rule obeys_call)
  fix x
  show "\<exists>s'. place_track cfg req s (EvEnsure i x) = Some s' \<and> obeys (place_track cfg req) s' (f x) Q"
    using assms by (cases x) (simp_all add: track_defs ready_def pooled_held_def aimed_def)
qed

lemma place_desired_holding:
  assumes "ready s"
  shows "holding cfg req s (place_desired (logged_config cfg) req obs now rec writes rp)"
proof -
  have ded: "holding cfg req s (State_Monad.bind (logged (EvEnsure i) m) (\<lambda>e. case e of
      Some err \<Rightarrow> ret ((zero_result, Some err), rp)
    | None \<Rightarrow> State_Monad.bind (place_dedicated (logged_config cfg) (logged_workloads wl) req i res) (\<lambda>x. ret (x, rp))))" for i m wl res
    by (rule call_ensure [OF assms]) (auto intro!: obeys_ret obeys_sub [OF place_dedicated_holding])
  show ?thesis
    unfolding place_desired_def logged_config_simps
    by (auto intro!: obeys_ret ded call_rules place_pooled_obeys simp: assms ready_held [OF assms]
        split: placement.split option.split sum.split)
qed

lemma reconcile_restored_holding:
  assumes "ready s"
  shows "holding cfg req s (reconcile_restored (logged_config cfg) req obs now rp entry writes)"
proof -
  have "obeys (place_track cfg req) s (if rq_restore req then revive_released (logged_config cfg) req entry else ret (Inr entry, 0))
      (\<lambda>x s'. ready s')"
    unfolding revive_released_def by (intro obeys_if obeys_ret revive_loop_ready assms)
  then show ?thesis
    unfolding reconcile_restored_def
    by (rule obeys_sub) (auto intro!: obeys_ret place_desired_holding simp: ready_held(1) split: prod.split sum.split)
qed

lemma reconcile_claimed_holding:
  assumes "ready s"
  shows "holding cfg req s (reconcile_claimed (logged_config cfg) req obs now rp)"
proof -
  have ensure: "obeys (place_track cfg req) s1 (case rq_desired req of None \<Rightarrow> ret (Inr entry, 0) | Some d \<Rightarrow> ensure_desired (logged_config cfg) req entry d)
      (\<lambda>x s'. ready s')" if "ready s1" for s1 entry
    unfolding ensure_desired_def by (intro obeys_case_option obeys_ret ensure_desired_loop_ready that)
  have "holding cfg req s1 (State_Monad.bind (case rq_desired req of None \<Rightarrow> ret (Inr entry, 0) | Some d \<Rightarrow> ensure_desired (logged_config cfg) req entry d)
      (\<lambda>ens. case ens of (Inl err, _) \<Rightarrow> ret ((zero_result, Some err), rp)
        | (Inr entry1, writes) \<Rightarrow> reconcile_restored (logged_config cfg) req obs now rp entry1 writes))" if "ready s1" for s1 entry
    by (rule obeys_sub [OF ensure [OF that]])
      (auto intro!: obeys_ret reconcile_restored_holding simp: ready_held(1) split: prod.split sum.split)
  then show ?thesis
    unfolding reconcile_claimed_def logged_config_simps
    by (intro call_get) (simp_all add: assms ready_held [OF assms] obeys_ret)
qed

definition unclaimed :: monitor where
  "unclaimed = \<lparr>mo_phase = Unclaimed, mo_seen = {}, mo_stale = False, mo_settled = False, mo_intent = None, mo_read = None\<rparr>"

lemma call_acquire:
  assumes "mo_phase s = Unclaimed" "cl_key q = rq_key req" "cl_holder q = pc_holder cfg" "\<And>err. obeys (place_track cfg req) ((idle s)\<lparr>mo_phase := Refused\<rparr>) (f (Some err)) Q"
    "obeys (place_track cfg req) ((idle s)\<lparr>mo_phase := Held\<rparr>) (f None) Q"
  shows "obeys (place_track cfg req) s (State_Monad.bind (logged (EvAcquire q) m) f) Q"
proof (rule obeys_call)
  fix x
  show "\<exists>s'. place_track cfg req s (EvAcquire q x) = Some s' \<and> obeys (place_track cfg req) s' (f x) Q"
    using assms by (cases x) (simp_all add: track_defs)
qed

lemma call_release:
  assumes "mo_phase s = Held" "\<And>x. obeys (place_track cfg req) ((idle s)\<lparr>mo_phase := Given\<rparr>) (f x) Q"
  shows "obeys (place_track cfg req) s (State_Monad.bind (logged (\<lambda>_. EvRelease (rq_key req) (pc_holder cfg)) m) f) Q"
  using assms by (intro obeys_call) (simp add: track_defs)

lemma claim_obeys:
  assumes "mo_phase s = Unclaimed" "mo_intent s = None" "\<not> mo_settled s" "\<not> mo_stale s"
  shows "obeys (place_track cfg req) s (claim (logged_config cfg) req now)
    (\<lambda>x s'. if x = Claimed then ready s' else mo_phase s' = Refused \<and> \<not> mo_settled s')"
  unfolding claim_def logged_config_simps
  by (rule call_acquire [OF assms(1)])
    (auto intro!: obeys_ret simp: ready_def pooled_held_def assms split: option.split prod.split reconcile_code.split)

lemma defer_to_holder_obeys:
  assumes "mo_phase s = Refused" "\<not> mo_settled s"
  shows "obeys (place_track cfg req) s (defer_to_holder (logged_config cfg) req expires) (\<lambda>x s'. mo_phase s' = Refused)"
  unfolding defer_to_holder_def logged_config_simps
  by (rule call_get) (auto intro!: call_intro simp: assms)

lemma reconcile_obeys:
  "obeys (place_track cfg req) unclaimed (reconcile (logged_config cfg) req rp) (\<lambda>x s'. mo_phase s' \<noteq> Held)"
proof -
  have claimed: "obeys (place_track cfg req) s (State_Monad.bind (claim (logged_config cfg) req now) (\<lambda>c. case c of
        ClaimFailed err \<Rightarrow> ret ((zero_result, Some err), rp)
      | HeldUntil expires \<Rightarrow> State_Monad.bind (defer_to_holder (logged_config cfg) req expires) (\<lambda>x. ret (x, rp))
      | Claimed \<Rightarrow> State_Monad.bind (reconcile_claimed (logged_config cfg) req obs now rp) (\<lambda>x.
          State_Monad.bind (logged (\<lambda>_. EvRelease (rq_key req) (pc_holder cfg)) m) (\<lambda>r. ret x)))) (\<lambda>x s'. mo_phase s' \<noteq> Held)"
    if "mo_phase s = Unclaimed" "mo_intent s = None" "\<not> mo_settled s" "\<not> mo_stale s" for s now obs m
  proof (rule obeys_sub [OF claim_obeys [OF that]])
    fix c s'
    assume c: "if c = Claimed then ready s' else mo_phase s' = Refused \<and> \<not> mo_settled s'"
    show "obeys (place_track cfg req) s' (case c of
        ClaimFailed err \<Rightarrow> ret ((zero_result, Some err), rp)
      | HeldUntil expires \<Rightarrow> State_Monad.bind (defer_to_holder (logged_config cfg) req expires) (\<lambda>x. ret (x, rp))
      | Claimed \<Rightarrow> State_Monad.bind (reconcile_claimed (logged_config cfg) req obs now rp) (\<lambda>x.
          State_Monad.bind (logged (\<lambda>_. EvRelease (rq_key req) (pc_holder cfg)) m) (\<lambda>r. ret x))) (\<lambda>x s'. mo_phase s' \<noteq> Held)"
      using c by (cases c) (auto intro!: obeys_ret obeys_sub [OF reconcile_claimed_holding]
          obeys_sub [OF defer_to_holder_obeys] call_release)
  qed
  have woken: "obeys (place_track cfg req) s (State_Monad.bind (wake (logged_config cfg) req x res) (\<lambda>x. ret (x, rp))) (\<lambda>x s'. mo_phase s' \<noteq> Held)"
    if "mo_phase s = Unclaimed" "x \<in> mo_seen s" for s x res
    by (rule quiet_then [OF wake_quiet]) (use that in \<open>auto intro!: obeys_ret\<close>)
  show ?thesis
    unfolding reconcile_def logged_config_simps
    by (intro call_get call_rules obeys_case_sum obeys_if obeys_ret claimed woken)
      (auto simp: unclaimed_def owned_def owner_or_zero_def decide_def idle_def see_def split: option.splits placement.splits if_splits)
qed

section \<open>What the rules say of a trace\<close>

definition claim_event :: "place_event \<Rightarrow> bool" where
  "claim_event e = (case e of EvAcquire _ _ \<Rightarrow> True | EvRelease _ _ \<Rightarrow> True | _ \<Rightarrow> False)"

definition attach_event :: "place_event \<Rightarrow> bool" where
  "attach_event e = (case e of EvAttach _ _ _ \<Rightarrow> True | _ \<Rightarrow> False)"

text \<open>The claim this reconciliation took, and the calls before it.\<close>

definition took_claim :: "'w place_config \<Rightarrow> place_request \<Rightarrow> place_event list \<Rightarrow> place_event list \<Rightarrow> bool" where
  "took_claim cfg req mid cs \<longleftrightarrow>
     (\<exists>pre q. cs = pre @ EvAcquire q None # mid \<and> cl_key q = rq_key req \<and> cl_holder q = pc_holder cfg \<and>
        (\<forall>e \<in> set pre. \<not> claim_event e \<and> \<not> acting e))"

definition phase_trace :: "'w place_config \<Rightarrow> place_request \<Rightarrow> monitor \<Rightarrow> place_event list \<Rightarrow> bool" where
  "phase_trace cfg req s cs \<longleftrightarrow>
     (case mo_phase s of
        Unclaimed \<Rightarrow> \<forall>e \<in> set cs. \<not> claim_event e \<and> \<not> acting e
      | Refused \<Rightarrow> \<forall>e \<in> set cs. \<not> acting e \<and> (claim_event e \<longrightarrow> (\<exists>q err. e = EvAcquire q (Some err)))
      | Held \<Rightarrow> \<exists>mid. took_claim cfg req mid cs \<and> (\<forall>e \<in> set mid. \<not> claim_event e)
      | Given \<Rightarrow> \<exists>mid. took_claim cfg req (mid @ [EvRelease (rq_key req) (pc_holder cfg)]) cs \<and> (\<forall>e \<in> set mid. \<not> claim_event e))"

lemma took_claim_snoc: "took_claim cfg req mid cs \<Longrightarrow> took_claim cfg req (mid @ [e]) (cs @ [e])"
  unfolding took_claim_def by fastforce

lemma track_phase:
  assumes "place_track cfg req s e = Some s'"
  shows "(case e of
      EvAcquire q r \<Rightarrow> mo_phase s = Unclaimed \<and> cl_key q = rq_key req \<and> cl_holder q = pc_holder cfg \<and>
        mo_phase s' = (if r = None then Held else Refused)
    | EvRelease k h \<Rightarrow> mo_phase s = Held \<and> k = rq_key req \<and> h = pc_holder cfg \<and> mo_phase s' = Given
    | _ \<Rightarrow> mo_phase s' = mo_phase s \<and> mo_phase s \<noteq> Given \<and> (acting e \<longrightarrow> mo_phase s = Held))"
  using assms by (auto simp: track_defs split: place_event.splits if_splits)

lemma phase_trace_step:
  assumes "phase_trace cfg req s cs" "place_track cfg req s e = Some s'"
  shows "phase_trace cfg req s' (cs @ [e])"
proof (cases "claim_event e")
  case False
  with track_phase [OF assms(2)] have "mo_phase s' = mo_phase s" "mo_phase s \<noteq> Given" "acting e \<longrightarrow> mo_phase s = Held"
    by (auto simp: claim_event_def split: place_event.splits)
  with assms(1) False show ?thesis
    unfolding phase_trace_def by (cases "mo_phase s") (fastforce intro: took_claim_snoc)+
next
  case True
  then consider q r where "e = EvAcquire q r" | k h where "e = EvRelease k h"
    by (auto simp: claim_event_def split: place_event.splits)
  then show ?thesis
  proof cases
    case (1 q r)
    with track_phase [OF assms(2)] have t: "mo_phase s = Unclaimed" "cl_key q = rq_key req" "cl_holder q = pc_holder cfg"
        "mo_phase s' = (if r = None then Held else Refused)"
      by simp_all
    with assms(1) have pre: "\<forall>e \<in> set cs. \<not> claim_event e \<and> \<not> acting e" by (simp add: phase_trace_def)
    show ?thesis
    proof (cases r)
      case None
      with 1 t pre have "took_claim cfg req [] (cs @ [e])" unfolding took_claim_def by blast
      with None t(4) show ?thesis by (force simp: phase_trace_def)
    next
      case (Some err)
      with 1 t pre show ?thesis by (auto simp: phase_trace_def acting_def [of "EvAcquire q (Some err)"])
    qed
  next
    case (2 k h)
    with track_phase [OF assms(2)] assms(1) show ?thesis
      by (auto simp: phase_trace_def intro!: took_claim_snoc)
  qed
qed

lemma run_phase_trace:
  assumes "run_monitor (place_track cfg req) unclaimed cs = Some s'"
  shows "phase_trace cfg req s' cs"
  by (rule run_monitor_invariant [OF assms, of "phase_trace cfg req"])
    (simp add: phase_trace_def unclaimed_def, rule phase_trace_step)

text \<open>Once an attach is final, neither another attach nor another reading of the owner follows.\<close>

lemma track_settled:
  assumes "place_track cfg req s e = Some s'" "mo_settled s"
  shows "mo_settled s' \<and> mo_seen s' = mo_seen s \<and> \<not> attach_event e"
  using assms by (auto simp: track_defs attach_event_def split: place_event.splits if_splits)

lemma run_settled:
  "run_monitor (place_track cfg req) s cs = Some s' \<Longrightarrow> mo_settled s \<Longrightarrow> \<forall>e \<in> set cs. \<not> attach_event e"
proof (induction cs arbitrary: s)
  case (Cons e cs)
  then obtain s1 where "place_track cfg req s e = Some s1" "run_monitor (place_track cfg req) s1 cs = Some s'"
    by (auto split: option.splits)
  with Cons track_settled [of cfg req s e s1] show ?case by auto
qed simp

text \<open>The residencies a reconciliation has read of, by the calls before.\<close>

definition residency_read :: "registry_observation \<Rightarrow> place_event list \<Rightarrow> bool" where
  "residency_read obs cs \<longleftrightarrow>
     EvOwner (Inr (Some obs)) \<in> set cs \<or> (\<exists>i. EvObserve i (Inr (Some obs)) \<in> set cs) \<or>
     (\<exists>ep q. EvAttach ep q (Inr obs) \<in> set cs)"

definition seen_trace :: "monitor \<Rightarrow> place_event list \<Rightarrow> bool" where
  "seen_trace s cs \<longleftrightarrow>
     (\<forall>obs \<in> mo_seen s. residency_read obs cs) \<and>
     (\<forall>ep q obs. EvAttach ep q (Inr obs) \<in> set cs \<longrightarrow> mo_settled s \<and> mo_seen s = {obs}) \<and>
     (\<forall>i. EvEnsure i None \<in> set cs \<longrightarrow> mo_intent s = Some i) \<and>
     (\<forall>rec. mo_read s = Some rec \<longrightarrow> (\<exists>cs' k entry. cs = cs' @ [EvGet k (Inr entry)] \<and> ce_record entry = rec))"

lemma residency_read_append: "residency_read obs (cs @ ds) \<longleftrightarrow> residency_read obs cs \<or> residency_read obs ds"
  by (auto simp: residency_read_def)

lemma track_seen:
  "place_track cfg req s e = Some s' \<Longrightarrow> obs \<in> mo_seen s' \<Longrightarrow> obs \<in> mo_seen s \<or> residency_read obs [e]"
  by (auto simp: track_defs see_def residency_read_def split: place_event.splits if_splits sum.splits option.splits)

lemma seen_trace_step:
  assumes "seen_trace s cs" "place_track cfg req s e = Some s'"
  shows "seen_trace s' (cs @ [e])"
proof -
  have seen: "\<forall>obs \<in> mo_seen s'. residency_read obs (cs @ [e])"
    using assms(1) track_seen [OF assms(2)] by (auto simp: seen_trace_def residency_read_append)
  have att: "EvAttach ep q (Inr obs) \<in> set (cs @ [e]) \<Longrightarrow> mo_settled s' \<and> mo_seen s' = {obs}" for ep q obs
    using assms track_settled [OF assms(2)]
    by (auto simp: seen_trace_def attach_event_def) (auto simp: track_defs final_answer_def split: if_splits)
  have ens: "EvEnsure i None \<in> set (cs @ [e]) \<Longrightarrow> mo_intent s' = Some i" for i
    using assms by (auto simp: seen_trace_def track_defs split: place_event.splits if_splits)
  have read: "mo_read s' = Some rec \<Longrightarrow> \<exists>cs' k entry. cs @ [e] = cs' @ [EvGet k (Inr entry)] \<and> ce_record entry = rec" for rec
    using assms(2) by (auto simp: track_defs see_def split: place_event.splits if_splits sum.splits option.splits)
  show ?thesis
    using seen att ens read unfolding seen_trace_def by blast
qed

lemma run_seen_trace:
  assumes "run_monitor (place_track cfg req) unclaimed cs = Some s'"
  shows "seen_trace s' cs"
  by (rule run_monitor_invariant [OF assms, of seen_trace])
    (simp add: seen_trace_def unclaimed_def, rule seen_trace_step)

lemma run_stale:
  "run_monitor (place_track cfg req) s cs = Some s' \<Longrightarrow> mo_stale s \<Longrightarrow> \<forall>r. EvOwner r \<notin> set cs \<Longrightarrow>
     \<forall>e \<in> set cs. \<not> attach_event e"
proof (induction cs arbitrary: s)
  case (Cons e cs)
  then obtain s1 where s1: "place_track cfg req s e = Some s1" "run_monitor (place_track cfg req) s1 cs = Some s'"
    by (auto split: option.splits)
  with Cons.prems(2,3) have "mo_stale s1 \<and> \<not> attach_event e"
    by (auto simp: track_defs attach_event_def see_def split: place_event.splits if_splits sum.splits option.splits)
  with Cons s1(2) show ?case by auto
qed simp

section \<open>Properties\<close>

text \<open>
  C1. A reconciliation scales and attaches only under its claim. Either it made no acting call at
  all (no desired-state write, no workload call, no capacity page, no attach, no wait) and
  released nothing; or it acquired the claim on this session for its own holder, made its acting
  calls after that, and released exactly that claim as its very last call, once, whatever the
  outcome was. It never acquires twice.
\<close>

theorem reconcile_acts_under_claim:
  assumes "run_state (reconcile (logged_config cfg) req rp) (w, []) = (x, (w', cs))"
  shows "(\<forall>e \<in> set cs. \<not> acting e \<and> (claim_event e \<longrightarrow> (\<exists>q err. e = EvAcquire q (Some err)))) \<or>
    (\<exists>pre q mid. cs = pre @ EvAcquire q None # mid @ [EvRelease (rq_key req) (pc_holder cfg)] \<and>
       cl_key q = rq_key req \<and> cl_holder q = pc_holder cfg \<and>
       (\<forall>e \<in> set pre. \<not> claim_event e \<and> \<not> acting e) \<and> (\<forall>e \<in> set mid. \<not> claim_event e))"
proof -
  obtain s' where s: "run_monitor (place_track cfg req) unclaimed cs = Some s'" "mo_phase s' \<noteq> Held"
    using obeys_run_Nil [OF reconcile_obeys assms] .
  note tr = run_phase_trace [OF s(1)]
  show ?thesis
  proof (cases "mo_phase s' = Given")
    case True
    with tr show ?thesis by (intro disjI2) (simp add: phase_trace_def took_claim_def, blast)
  next
    case False
    with tr s(2) show ?thesis by (intro disjI1) (auto simp: phase_trace_def split: claim_phase.splits)
  qed
qed


text \<open>
  C14. A route is bound only to a residency this reconciliation was told of. Every bind names the
  Host, generation, epoch and endpoint of an observation the registry, the controller or an
  attach had answered before; and once an attach was accepted it is the observation that Host
  returned, so the epoch bound with is never one of another holder.
\<close>

theorem bind_names_observed_residency:
  assumes "run_state (reconcile (logged_config cfg) req rp) (w, []) = (x, (w', cs))"
    "cs = pre @ EvBind ep b e # post"
  shows "\<exists>obs. ep = obs_endpoint obs \<and> b = bind_request_for cfg obs \<and> residency_read obs pre \<and>
    br_host b = obs_host obs \<and> br_generation b = obs_generation obs \<and> br_epoch b = obs_epoch obs \<and>
    (\<forall>ep' q obs'. EvAttach ep' q (Inr obs') \<in> set pre \<longrightarrow> obs = obs')"
proof -
  obtain s' where s: "run_monitor (place_track cfg req) unclaimed cs = Some s'"
    using obeys_run_Nil [OF reconcile_obeys assms(1)] .
  obtain s1 s2 where t: "run_monitor (place_track cfg req) unclaimed pre = Some s1" "place_track cfg req s1 (EvBind ep b e) = Some s2"
    using run_monitor_split [OF s [unfolded assms(2)]] .
  from t(2) obtain obs where obs: "obs \<in> mo_seen s1" "ep = obs_endpoint obs" "b = bind_request_for cfg obs"
    by (auto simp: track_defs split: if_splits)
  have named: "br_host b = obs_host obs" "br_generation b = obs_generation obs" "br_epoch b = obs_epoch obs"
    by (simp_all add: obs(3) bind_request_for_def)
  have seen: "residency_read obs pre" "\<forall>ep' q obs'. EvAttach ep' q (Inr obs') \<in> set pre \<longrightarrow> obs = obs'"
    using run_seen_trace [OF t(1)] obs(1) unfolding seen_trace_def by blast+
  show ?thesis by (intro exI [of _ obs] conjI obs(2,3) seen named)
qed

text \<open>
  C15. A dedicated attach is fenced by the catalog. When a workload was ensured, every attach
  directly follows a read of the catalog whose record still desires a dedicated placement of
  the ensured generation, and the attach names that generation and that record's session,
  agent and runtime.
\<close>

theorem dedicated_attach_is_fenced:
  assumes "run_state (reconcile (logged_config cfg) req rp) (w, []) = (x, (w', cs))"
    "cs = pre @ EvAttach ep q r # post" "EvEnsure i None \<in> set pre"
  shows "\<exists>pre' k entry. pre = pre' @ [EvGet k (Inr entry)] \<and>
    cat_placement (ce_record entry) = Dedicated \<and> cat_generation (ce_record entry) = in_generation i \<and>
    at_generation q = in_generation i \<and> at_tenant q = cat_tenant (ce_record entry) \<and>
    at_session q = cat_session (ce_record entry) \<and> at_agent q = cat_agent (ce_record entry) \<and>
    at_runtime q = cat_runtime (ce_record entry)"
proof -
  obtain s' where s: "run_monitor (place_track cfg req) unclaimed cs = Some s'"
    using obeys_run_Nil [OF reconcile_obeys assms(1)] .
  obtain s1 s2 where t: "run_monitor (place_track cfg req) unclaimed pre = Some s1" "place_track cfg req s1 (EvAttach ep q r) = Some s2"
    using run_monitor_split [OF s [unfolded assms(2)]] .
  have tr: "seen_trace s1 pre" by (rule run_seen_trace [OF t(1)])
  with assms(3) have i: "mo_intent s1 = Some i" unfolding seen_trace_def by blast
  from t(2) have "fenced s1 q" by (auto simp: track_defs split: if_splits)
  with i obtain rec where "mo_read s1 = Some rec" "cat_placement rec = Dedicated" "cat_generation rec = in_generation i"
      "at_generation q = in_generation i" "at_tenant q = cat_tenant rec" "at_session q = cat_session rec"
      "at_agent q = cat_agent rec" "at_runtime q = cat_runtime rec"
    by (auto simp: fenced_def split: option.splits)
  with tr show ?thesis unfolding seen_trace_def by blast
qed

text \<open>The calls of the sample deployment: the pooled run meets a stale lease first, the dedicated one does not.\<close>

definition sample_trace :: "placement \<Rightarrow> nat \<Rightarrow> place_event list" where
  "sample_trace pl n = snd (snd (run_state (reconcile (logged_config (sample_config pl)) sample_request no_reports) (n, [])))"

lemma sample_run:
  obtains x w' where "run_state (reconcile (logged_config (sample_config pl)) sample_request no_reports) (n, []) =
    (x, (w', sample_trace pl n))"
  by (metis prod.collapse sample_trace_def)

definition sample_attach :: "placement \<Rightarrow> attach_req" where
  "sample_attach pl = attach_request (sample_config pl) (sample_record\<lparr>cat_placement := pl\<rparr>) ''h'' 1 AttachCreate"

theorem reconcile_acts_under_claim_witness:
  "\<exists>x w' cs. run_state (reconcile (logged_config (sample_config Pooled)) sample_request no_reports) (0, []) = (x, (w', cs)) \<and>
     last cs = EvRelease (rq_key sample_request) ''me'' \<and> list_ex acting cs"
proof -
  obtain x w' where run: "run_state (reconcile (logged_config (sample_config Pooled)) sample_request no_reports) (0, []) =
    (x, (w', sample_trace Pooled 0))" by (rule sample_run)
  have a: "list_ex acting (sample_trace Pooled 0)" by code_simp
  with reconcile_acts_under_claim [OF run]
  obtain pre q mid where "sample_trace Pooled 0 = pre @ EvAcquire q None # mid @ [EvRelease (rq_key sample_request) (pc_holder (sample_config Pooled))]"
    by (auto simp: list_ex_iff)
  then have "last (sample_trace Pooled 0) = EvRelease (rq_key sample_request) ''me''" by (simp add: sample_config_def)
  with run a show ?thesis by blast
qed


theorem bind_names_observed_residency_witness:
  "\<exists>pre b e post. sample_trace Pooled 0 = pre @ EvBind ''ep'' b e # post \<and> residency_read (sample_residency Pooled) pre \<and>
     b = bind_request_for (sample_config Pooled) (sample_residency Pooled)"
proof -
  obtain x w' where run: "run_state (reconcile (logged_config (sample_config Pooled)) sample_request no_reports) (0, []) =
    (x, (w', sample_trace Pooled 0))" by (rule sample_run)
  let ?t = "sample_trace Pooled 0" and ?b = "bind_request_for (sample_config Pooled) (sample_residency Pooled)"
  have split: "?t = take 18 ?t @ EvBind ''ep'' ?b None # drop 19 ?t" by code_simp
  have "EvAttach ''ep'' (sample_attach Pooled) (Inr (sample_residency Pooled)) \<in> set (take 18 ?t)" by code_simp
  with bind_names_observed_residency [OF run split] have "residency_read (sample_residency Pooled) (take 18 ?t)" by blast
  with split show ?thesis by blast
qed

theorem dedicated_attach_is_fenced_witness:
  "\<exists>pre q r post. sample_trace Dedicated 1 = pre @ EvAttach ''ep'' q r # post \<and>
     (\<exists>k entry. last pre = EvGet k (Inr entry) \<and> cat_generation (ce_record entry) = 1)"
proof -
  obtain x w' where run: "run_state (reconcile (logged_config (sample_config Dedicated)) sample_request no_reports) (1, []) =
    (x, (w', sample_trace Dedicated 1))" by (rule sample_run)
  let ?t = "sample_trace Dedicated 1"
  have split: "?t = take 13 ?t @ EvAttach ''ep'' (sample_attach Dedicated) (Inr (sample_residency Dedicated)) # drop 14 ?t"
    by code_simp
  have "EvEnsure sample_intent None \<in> set (take 13 ?t)" by code_simp
  with dedicated_attach_is_fenced [OF run split] obtain pre' k entry where
      "take 13 ?t = pre' @ [EvGet k (Inr entry)]" "cat_generation (ce_record entry) = in_generation sample_intent"
    by blast
  then have "last (take 13 ?t) = EvGet k (Inr entry) \<and> cat_generation (ce_record entry) = 1" by (simp add: sample_intent_def)
  with split show ?thesis by blast
qed

end
