(* ===== verification/Rotor.thy ===== *)
theory Rotor
  imports Command Trace
begin

text \<open>
  The round robin of the shard sweeps. Three sweeps rotate over the control shards of the store
  and keep, per shard, the position a truncated pass reached: the deadline sweeps of
  \<open>internal/admission\<close>, whose rotor is here, the gate sweep of \<open>internal/reconcile\<close> and the
  pending-work sweep of \<open>internal/placement\<close>. The locale states what a rotor promises, and that
  a run of passes then visits every shard and resumes each where it stopped is proved once.
  A rotor is one replica's own and its sweep runs one pass at a time, so a pass is sequential.
\<close>

section \<open>Due views\<close>

text \<open>
  A request for one page of a shard's due view. It carries a bound or a continuation, never
  both; the page names the next continuation, empty at the end.
\<close>

record due_request =
  dq_shard :: int
  dq_limit :: int
  dq_cursor :: cursor
  dq_bound :: "time option"

record 'r due_page =
  dp_rows :: "'r list"
  dp_examined :: int
  dp_unreadable :: int
  dp_next :: cursor

section \<open>The rotor of the deadline sweeps\<close>

record rotor =
  ro_next :: int
  ro_cursors :: "int \<Rightarrow> cursor option"

definition new_rotor :: rotor where
  "new_rotor = \<lparr>ro_next = 0, ro_cursors = \<lambda>_. None\<rparr>"

definition kept_or_head :: "cursor option \<Rightarrow> cursor" where
  "kept_or_head c = (case c of None \<Rightarrow> [] | Some x \<Rightarrow> x)"

text \<open>The first argument is the store's least number of shards.\<close>

definition rotate_shard :: "int \<Rightarrow> int \<Rightarrow> rotor \<Rightarrow> (cerr + int) \<times> rotor" where
  "rotate_shard least shards r =
     (if shards < least then (Inl (Opaque ''no shard can be swept''), r)
      else let shard = (if ro_next r \<ge> shards then 0 else ro_next r)
           in (Inr shard, r\<lparr>ro_next := (shard + 1) mod shards\<rparr>))"

definition rotor_begin :: "int \<Rightarrow> int \<Rightarrow> rotor \<Rightarrow> (cerr + int \<times> cursor) \<times> rotor" where
  "rotor_begin least shards r =
     (case rotate_shard least shards r of
        (Inl err, r1) \<Rightarrow> (Inl err, r1)
      | (Inr shard, r1) \<Rightarrow>
          let r2 = r1\<lparr>ro_cursors := \<lambda>kept. if kept \<ge> shards then None else ro_cursors r1 kept\<rparr>
          in (Inr (shard, kept_or_head (ro_cursors r2 shard)), r2))"

definition rotor_commit :: "int \<Rightarrow> cursor \<Rightarrow> rotor \<Rightarrow> rotor" where
  "rotor_commit shard cursor r =
     (if cursor = [] then r\<lparr>ro_cursors := (ro_cursors r)(shard := None)\<rparr>
      else r\<lparr>ro_cursors := (ro_cursors r)(shard \<mapsto> cursor)\<rparr>)"

section \<open>What a rotor promises\<close>

definition turn :: "int \<Rightarrow> int \<Rightarrow> int" where
  "turn shards p = (if p \<ge> shards then 0 else p)"

lemma turn_range: "0 \<le> p \<Longrightarrow> 0 < n \<Longrightarrow> 0 \<le> turn n p \<and> turn n p < n"
  by (simp add: turn_def)

lemma turn_small [simp]: "p < n \<Longrightarrow> turn n p = p"
  by (simp add: turn_def)

text \<open>
  A run of passes: each begins, and commits whatever position its work came to. The result is
  the shard and the position each pass was handed.
\<close>

fun passes ::
  "(int \<Rightarrow> 'r \<Rightarrow> ('e + int \<times> cursor) \<times> 'r) \<Rightarrow> (int \<Rightarrow> cursor \<Rightarrow> 'r \<Rightarrow> 'r) \<Rightarrow> int \<Rightarrow> cursor list \<Rightarrow> 'r \<Rightarrow>
   (int \<times> cursor) list \<times> 'r" where
  "passes bg cm n [] r = ([], r)"
| "passes bg cm n (c # cs) r =
     (case bg n r of
        (Inl e, r1) \<Rightarrow> passes bg cm n cs r1
      | (Inr (s, c0), r1) \<Rightarrow> apfst ((#) (s, c0)) (passes bg cm n cs (cm s c r1)))"

lemma passes_append:
  "passes bg cm n (as @ bs) r =
     (fst (passes bg cm n as r) @ fst (passes bg cm n bs (snd (passes bg cm n as r))),
      snd (passes bg cm n bs (snd (passes bg cm n as r))))"
proof (induction as arbitrary: r)
  case (Cons a as)
  then show ?case by (simp add: apfst_def map_prod_def split: prod.split sum.split)
qed simp

text \<open>Whole sweeps in sequence, each handed the rotor the one before left.\<close>

fun sweeps :: "('r \<Rightarrow> ('w, 'a \<times> 'r) state) \<Rightarrow> nat \<Rightarrow> 'r \<Rightarrow> ('w, 'a list \<times> 'r) state" where
  "sweeps f 0 r = ret ([], r)"
| "sweeps f (Suc k) r = do {
     x \<leftarrow> f r;
     y \<leftarrow> sweeps f k (snd x);
     ret (fst x # fst y, snd y)
   }"

locale shard_rotor =
  fixes begin_pass :: "int \<Rightarrow> int \<Rightarrow> 'r \<Rightarrow> ('e + int \<times> cursor) \<times> 'r"
    and commit_pass :: "int \<Rightarrow> cursor \<Rightarrow> 'r \<Rightarrow> 'r"
    and position :: "'r \<Rightarrow> int"
    and kept :: "'r \<Rightarrow> int \<Rightarrow> cursor option"
  assumes begin_refused: "n < least \<Longrightarrow> \<exists>e. begin_pass least n r = (Inl e, r)"
    and begin_shard: "least \<le> n \<Longrightarrow>
      fst (begin_pass least n r) = Inr (turn n (position r), if turn n (position r) \<ge> n then [] else kept_or_head (kept r (turn n (position r))))"
    and begin_position: "least \<le> n \<Longrightarrow> position (snd (begin_pass least n r)) = (turn n (position r) + 1) mod n"
    and begin_kept: "least \<le> n \<Longrightarrow> kept (snd (begin_pass least n r)) k = (if k \<ge> n then None else kept r k)"
    and commit_position [simp]: "position (commit_pass s c r) = position r"
    and commit_kept: "kept (commit_pass s c r) = (kept r)(s := if c = [] then None else Some c)"
begin

text \<open>One pass, for a count the store stands by.\<close>

lemma pass_step:
  assumes "least \<le> n" "0 < n" "0 \<le> position r"
  obtains r' where "passes (begin_pass least) commit_pass n (c # cs) r =
      apfst ((#) (turn n (position r), kept_or_head (kept r (turn n (position r))))) (passes (begin_pass least) commit_pass n cs r')"
    "position r' = (turn n (position r) + 1) mod n" "0 \<le> position r'" "position r' < n"
    "\<And>k. k < n \<Longrightarrow> kept r' k = (if k = turn n (position r) then (if c = [] then None else Some c) else kept r k)"
proof
  let ?s = "turn n (position r)"
  let ?r = "commit_pass ?s c (snd (begin_pass least n r))"
  have s: "\<not> ?s \<ge> n" using turn_range [OF assms(3,2)] by simp
  then have b: "begin_pass least n r = (Inr (?s, kept_or_head (kept r ?s)), snd (begin_pass least n r))"
    using begin_shard [OF assms(1), of r] by (metis prod.collapse)
  show "passes (begin_pass least) commit_pass n (c # cs) r =
      apfst ((#) (?s, kept_or_head (kept r ?s))) (passes (begin_pass least) commit_pass n cs ?r)"
    by (simp only: passes.simps) (subst b, simp)
  show "position ?r = (?s + 1) mod n" by (simp add: begin_position [OF assms(1)])
  then show "0 \<le> position ?r" "position ?r < n" using assms(2) by simp_all
  show "kept ?r k = (if k = ?s then (if c = [] then None else Some c) else kept r k)" if "k < n" for k
    using that by (simp add: commit_kept begin_kept [OF assms(1)])
qed

text \<open>The passes go round: the shards visited follow one another, modulo their number.\<close>

lemma passes_shards:
  assumes "least \<le> n" "0 < n" "0 \<le> position r"
  shows "map fst (fst (passes (begin_pass least) commit_pass n cs r)) =
    map (\<lambda>i. (turn n (position r) + int i) mod n) [0..<length cs]"
  using assms(3)
proof (induction cs arbitrary: r)
  case Nil
  then show ?case by simp
next
  case (Cons c cs)
  let ?s = "turn n (position r)"
  have s: "0 \<le> ?s" "?s < n" using turn_range [OF Cons.prems assms(2)] by simp_all
  obtain r' where r: "passes (begin_pass least) commit_pass n (c # cs) r =
      apfst ((#) (?s, kept_or_head (kept r ?s))) (passes (begin_pass least) commit_pass n cs r')"
    "position r' = (?s + 1) mod n" "0 \<le> position r'" "position r' < n"
    by (rule pass_step [OF assms(1,2) Cons.prems, of c cs], rule that)
  have "map fst (fst (passes (begin_pass least) commit_pass n (c # cs) r)) =
      ?s # map (\<lambda>i. (position r' + int i) mod n) [0..<length cs]"
    using Cons.IH [OF r(3)] r(4) by (simp add: r(1) del: passes.simps)
  also have "\<dots> = map (\<lambda>i. (?s + int i) mod n) (0 # map Suc [0..<length cs])"
    using s by (simp add: r(2) comp_def mod_simps algebra_simps)
  also have "0 # map Suc [0..<length cs] = [0..<length (c # cs)]"
    by (simp only: map_Suc_upt length_Cons upt_rec [of 0 "Suc (length cs)"]) simp
  finally show ?case .
qed

text \<open>So as many passes as there are shards visit each shard exactly once.\<close>

lemma passes_cover:
  assumes "least \<le> n" "0 < n" "0 \<le> position r" "int (length cs) = n"
  shows "distinct (map fst (fst (passes (begin_pass least) commit_pass n cs r)))"
    "set (map fst (fst (passes (begin_pass least) commit_pass n cs r))) = {0..<n}"
proof -
  let ?vs = "map (\<lambda>i. (turn n (position r) + int i) mod n) [0..<length cs]"
  have "inj_on (\<lambda>i. (turn n (position r) + int i) mod n) {0..<length cs}"
  proof (rule inj_onI)
    fix i j
    assume ij: "i \<in> {0..<length cs}" "j \<in> {0..<length cs}"
      and eq: "(turn n (position r) + int i) mod n = (turn n (position r) + int j) mod n"
    from eq have "n dvd (int i - int j)" by (metis add_diff_cancel_left mod_eq_dvd_iff)
    moreover have "\<bar>int i - int j\<bar> < n" using ij assms(4) by simp
    ultimately have "int i - int j = 0" using zdvd_not_zless [of "\<bar>int i - int j\<bar>" n] by force
    then show "i = j" by simp
  qed
  then have d: "distinct ?vs" by (simp add: distinct_map)
  have "set ?vs \<subseteq> {0..<n}" using assms(2) by auto
  moreover have "card (set ?vs) = nat n" using distinct_card [OF d] assms(4) by simp
  ultimately have "set ?vs = {0..<n}" using card_subset_eq [of "{0..<n}" "set ?vs"] by simp
  with d show "distinct (map fst (fst (passes (begin_pass least) commit_pass n cs r)))"
    "set (map fst (fst (passes (begin_pass least) commit_pass n cs r))) = {0..<n}"
    by (simp_all only: passes_shards [OF assms(1-3)])
qed

text \<open>A pass leaves the positions of the other shards alone.\<close>

lemma passes_kept:
  assumes "least \<le> n" "0 < n" "0 \<le> position r" "k < n"
    "k \<notin> set (map fst (fst (passes (begin_pass least) commit_pass n cs r)))"
  shows "kept (snd (passes (begin_pass least) commit_pass n cs r)) k = kept r k"
  using assms(3,5)
proof (induction cs arbitrary: r)
  case (Cons c cs)
  obtain r' where r: "passes (begin_pass least) commit_pass n (c # cs) r =
      apfst ((#) (turn n (position r), kept_or_head (kept r (turn n (position r))))) (passes (begin_pass least) commit_pass n cs r')"
    "0 \<le> position r'"
    "\<And>k. k < n \<Longrightarrow> kept r' k = (if k = turn n (position r) then (if c = [] then None else Some c) else kept r k)"
    by (rule pass_step [OF assms(1,2) Cons.prems(1), of c cs], rule that)
  have "k \<noteq> turn n (position r)" "k \<notin> set (map fst (fst (passes (begin_pass least) commit_pass n cs r')))"
    using Cons.prems(2) by (simp_all add: r(1) del: passes.simps)
  with Cons.IH [OF r(2)] r(3) [OF assms(4)] show ?case by (simp add: r(1) del: passes.simps)
qed simp

lemma passes_position:
  assumes "least \<le> n" "0 < n" "0 \<le> position r"
  shows "0 \<le> position (snd (passes (begin_pass least) commit_pass n cs r))"
  using assms(3)
proof (induction cs arbitrary: r)
  case (Cons c cs)
  obtain r' where r: "passes (begin_pass least) commit_pass n (c # cs) r =
      apfst ((#) (turn n (position r), kept_or_head (kept r (turn n (position r))))) (passes (begin_pass least) commit_pass n cs r')"
    "0 \<le> position r'"
    by (rule pass_step [OF assms(1,2) Cons.prems, of c cs], rule that)
  from Cons.IH [OF r(2)] show ?case by (simp add: r(1) del: passes.simps)
qed simp

text \<open>
  A pass resumes its shard. After a full round the next pass is over the same shard, and it is
  handed the position the earlier one kept, the head when it kept none.
\<close>

lemma passes_resume:
  assumes "least \<le> n" "0 < n" "0 \<le> position r" "int (length cs) = n - 1"
  shows "map fst (fst (passes (begin_pass least) commit_pass n (c # cs @ [c']) r)) =
      map (\<lambda>i. (turn n (position r) + int i) mod n) [0..<Suc (nat n)]"
    "last (fst (passes (begin_pass least) commit_pass n (c # cs @ [c']) r)) = (turn n (position r), c)"
proof -
  let ?s = "turn n (position r)"
  let ?P = "passes (begin_pass least) commit_pass n"
  have s: "0 \<le> ?s" "?s < n" using turn_range [OF assms(3,2)] by simp_all
  have len: "length (c # cs @ [c']) = Suc (nat n)" using assms(4) by simp
  show "map fst (fst (?P (c # cs @ [c']) r)) = map (\<lambda>i. (?s + int i) mod n) [0..<Suc (nat n)]"
    by (simp only: passes_shards [OF assms(1-3)] len)
  let ?r1 = "snd (?P (c # cs) r)"
  have pos: "0 \<le> position ?r1" by (rule passes_position [OF assms(1-3)])
  obtain r2 where r2: "?P [c'] ?r1 = apfst ((#) (turn n (position ?r1), kept_or_head (kept ?r1 (turn n (position ?r1))))) (?P [] r2)"
    by (rule pass_step [OF assms(1,2) pos, of c' "[]"], rule that)
  have app: "fst (?P (c # cs @ [c']) r) = fst (?P (c # cs) r) @ fst (?P [c'] ?r1)"
    using passes_append [of "begin_pass least" commit_pass n "c # cs" "[c']" r] by simp
  have "map fst (fst (?P (c # cs) r)) @ [turn n (position ?r1)] = map (\<lambda>i. (?s + int i) mod n) [0..<Suc (nat n)]"
    using passes_shards [OF assms(1-3), of "c # cs @ [c']"] by (simp only: app len map_append r2) simp
  moreover have "length (fst (?P (c # cs) r)) = nat n"
    using arg_cong [OF passes_shards [OF assms(1-3), of "c # cs"], of length] assms(4) by simp
  ultimately have "turn n (position ?r1) = (?s + int (nat n)) mod n" by (simp add: append_eq_append_conv)
  then have same: "turn n (position ?r1) = ?s" using s assms(2) by simp
  obtain r' where r': "?P (c # cs) r = apfst ((#) (?s, kept_or_head (kept r ?s))) (?P cs r')" "position r' = (?s + 1) mod n"
    "0 \<le> position r'" "\<And>k. k < n \<Longrightarrow> kept r' k = (if k = ?s then (if c = [] then None else Some c) else kept r k)"
    by (rule pass_step [OF assms(1-3), of c cs], rule that)
  have "distinct (map fst (fst (?P (c # cs) r)))" using passes_cover(1) [OF assms(1-3), of "c # cs"] assms(4) by simp
  then have "?s \<notin> set (map fst (fst (?P cs r')))" by (simp add: r'(1) del: passes.simps)
  from passes_kept [OF assms(1,2) r'(3) s(2) this]
  have "kept ?r1 ?s = (if c = [] then None else Some c)" using r'(4) [OF s(2)] by (simp add: r'(1) del: passes.simps)
  then show "last (fst (?P (c # cs @ [c']) r)) = (?s, c)"
    by (simp only: app r2 same) (simp add: kept_or_head_def)
qed

end

interpretation deadline_rotor: shard_rotor rotor_begin rotor_commit ro_next ro_cursors
  by unfold_locales
    (auto simp: rotor_begin_def rotate_shard_def rotor_commit_def turn_def kept_or_head_def Let_def)

section \<open>Whole sweeps\<close>

text \<open>
  A sweep is one pass of a rotor: whatever its work did, it began a pass and committed a
  position for the shard it reports.
\<close>

locale shard_sweep = shard_rotor begin_pass commit_pass position kept
  for begin_pass :: "int \<Rightarrow> int \<Rightarrow> 'r \<Rightarrow> ('e + int \<times> cursor) \<times> 'r"
    and commit_pass :: "int \<Rightarrow> cursor \<Rightarrow> 'r \<Rightarrow> 'r"
    and position :: "'r \<Rightarrow> int"
    and kept :: "'r \<Rightarrow> int \<Rightarrow> cursor option" +
  fixes sweep :: "int \<Rightarrow> int \<Rightarrow> 'r \<Rightarrow> ('w, 'a \<times> 'r) state"
    and shard_of :: "'a \<Rightarrow> int"
  assumes sweep_pass: "least \<le> n \<Longrightarrow> run_state (sweep least n r) w = ((x, r'), w') \<Longrightarrow>
      \<exists>c0 r1 c. begin_pass least n r = (Inr (shard_of x, c0), r1) \<and> r' = commit_pass (shard_of x) c r1"
begin

lemma sweeps_are_passes:
  assumes "least \<le> n" "run_state (sweeps (sweep least n) k r) w = ((xs, r'), w')"
  shows "\<exists>cs. length cs = k \<and> map shard_of xs = map fst (fst (passes (begin_pass least) commit_pass n cs r)) \<and>
    r' = snd (passes (begin_pass least) commit_pass n cs r)"
  using assms(2)
proof (induction k arbitrary: r w xs)
  case 0
  then show ?case by simp
next
  case (Suc k)
  obtain x r1 w1 where x: "run_state (sweep least n r) w = ((x, r1), w1)" by (metis prod.exhaust)
  obtain ys r2 w2 where ys: "run_state (sweeps (sweep least n) k r1) w1 = ((ys, r2), w2)" by (metis prod.exhaust)
  from Suc.prems have eq: "xs = x # ys" "r' = r2" "w' = w2" by (simp_all add: x ys)
  from sweep_pass [OF assms(1) x] obtain c0 r0 c where
    b: "begin_pass least n r = (Inr (shard_of x, c0), r0)" "r1 = commit_pass (shard_of x) c r0" by blast
  from Suc.IH [OF ys [folded eq(2,3)]] obtain cs where
    "length cs = k" "map shard_of ys = map fst (fst (passes (begin_pass least) commit_pass n cs r1))"
    "r' = snd (passes (begin_pass least) commit_pass n cs r1)" by blast
  then show ?case using b eq(1) by (intro exI [of _ "c # cs"]) simp
qed

lemma sweeps_cover:
  assumes "least \<le> n" "0 < n" "0 \<le> position r" "run_state (sweeps (sweep least n) (nat n) r) w = ((xs, r'), w')"
  shows "distinct (map shard_of xs)" "set (map shard_of xs) = {0..<n}"
proof -
  from sweeps_are_passes [OF assms(1,4)] obtain cs where
    "length cs = nat n" "map shard_of xs = map fst (fst (passes (begin_pass least) commit_pass n cs r))"
    by blast
  moreover from this(1) assms(2) have "int (length cs) = n" by simp
  ultimately show "distinct (map shard_of xs)" "set (map shard_of xs) = {0..<n}"
    using passes_cover [OF assms(1-3), of cs] by simp_all
qed

end

section \<open>The pages a run of sweeps lists\<close>

text \<open>
  The shards of the pages listed, in the order of the calls. A sweep that lists at least one page
  and pages of one shard only makes one block of them, and a run of sweeps over different shards
  is read off the blocks.
\<close>

definition lists_only :: "int \<Rightarrow> int list \<Rightarrow> bool" where
  "lists_only shard ks \<longleftrightarrow> ks \<noteq> [] \<and> set ks = {shard}"

lemma emits_yields:
  assumes "emits m R" "yields m Q"
  shows "emits m (\<lambda>x cs. R x cs \<and> Q x)"
  using assms unfolding emits_def yields_def by (metis fst_conv)

lemma sweeps_listed:
  assumes "listed [] = []" "\<And>as bs. listed (as @ bs) = listed as @ listed bs"
    and sweep: "\<And>r. emits (f r) (\<lambda>y cs. lists_only (shard_of (fst y)) (listed cs))"
  shows "emits (sweeps f k r) (\<lambda>ys cs. \<exists>bs. listed cs = concat bs \<and> list_all2 (\<lambda>x. lists_only (shard_of x)) (fst ys) bs)"
proof (induction k arbitrary: r)
  case 0
  show ?case by (simp, rule emits_ret) (simp add: assms(1))
next
  case (Suc k)
  show ?case unfolding sweeps.simps
  proof (rule emits_sub [OF sweep], rule emits_sub [OF Suc.IH], rule emits_ret, elim exE conjE, goal_cases)
    case (1 x cs y ds bs)
    then show ?case by (intro exI [of _ "listed cs # bs"]) (simp add: assms(2))
  qed
qed

lemma remdups_adj_block: "lists_only k ks \<Longrightarrow> xs = [] \<or> hd xs \<noteq> k \<Longrightarrow> remdups_adj (ks @ xs) = k # remdups_adj xs"
proof (induction ks)
  case (Cons a ks)
  show ?case
  proof (cases "ks = []")
    case True
    with Cons.prems show ?thesis by (cases xs) (auto simp: lists_only_def)
  next
    case False
    with Cons.prems(1) have "lists_only k ks" "a = k" "hd ks = k" by (cases ks; auto simp: lists_only_def)+
    with Cons.IH Cons.prems(2) False show ?thesis by (cases ks) simp_all
  qed
qed (simp add: lists_only_def)

lemma remdups_adj_blocks:
  assumes "list_all2 (\<lambda>x. lists_only (f x)) xs bs" "distinct (map f xs)"
  shows "remdups_adj (concat bs) = map f xs"
  using assms
proof (induction rule: list_all2_induct)
  case (Cons x xs b bs)
  have "concat bs = [] \<or> hd (concat bs) \<noteq> f x"
  proof (cases bs)
    case (Cons b' bs')
    then obtain x' xs' where "xs = x' # xs'" "lists_only (f x') b'" using \<open>list_all2 _ xs bs\<close> by (cases xs) auto
    with \<open>distinct (map f (x # xs))\<close> Cons show ?thesis by (cases b') (auto simp: lists_only_def)
  qed simp
  with Cons show ?case by (simp add: remdups_adj_block)
qed simp

end
