(* ===== verification/Pending.thy ===== *)
theory Pending
  imports Reconciler Rotor
begin

text \<open>
  The two triggers of placement, \<open>internal/placement/pending.go\<close>: the sweep over the open
  commands of a control shard, which groups them by session and reconciles each session that
  needs a Host, and the targeted placement of a freshly admitted command. The placer is the
  interface the reconciler implements; the due view, the session history, the catalog, the
  registry and the clock are seams. Pages and passes are bounded by the configuration, and the
  fallback of an admission by two pages.
\<close>

section \<open>Data\<close>

record admission_notice =
  an_tenant :: tenant_id
  an_session :: session_id
  an_command :: command_id
  an_order :: u64
  an_deadline :: time
  an_pending :: bool

definition notice :: "disposition_entry \<Rightarrow> admission_notice" where
  "notice e =
     \<lparr>an_tenant = ib_tenant e, an_session = ib_session e, an_command = ib_command e, an_order = ib_order e,
      an_deadline = ib_deadline e, an_pending = (ib_state e = StatePending)\<rparr>"

record session_request =
  sq_tenant :: tenant_id
  sq_session :: session_id
  sq_after :: u64
  sq_limit :: int

record session_page =
  sp_commands :: "disposition_entry list"
  sp_next :: u64

type_synonym 'w placer = "place_request \<Rightarrow> 'w placing"

record ('w, 'p) pending_config =
  pg_authorize :: "'p \<Rightarrow> ('w, perr option) state"
  pg_shards :: "('w, int) state"
  pg_list :: "due_request \<Rightarrow> ('w, perr + disposition_entry due_page) state"
  pg_session_commands :: "(session_request \<Rightarrow> ('w, perr + session_page) state) option"
  pg_placer :: "'w placer"
  pg_admission_placer :: "'w placer option"
  pg_catalog :: "(session_key \<Rightarrow> ('w, perr + catalog_entry) state) option"
  pg_directory :: "(tenant_id \<Rightarrow> session_id \<Rightarrow> ('w, perr + registry_observation option) state) option"
  pg_now :: "('w, time) state"
  pg_ctx :: "('w, perr option) state" \<comment> \<open>the error of the context\<close>
  pg_horizon :: int
  pg_page_limit :: int
  pg_max_pages :: int
  pg_least :: int \<comment> \<open>the least number of control shards of the store\<close>

record pending_sweeper =
  ps_next :: int
  ps_cursors :: "int \<Rightarrow> cursor option"

record pending_result =
  pr_shard :: int
  pr_pages :: int
  pr_examined :: int
  pr_unreadable :: int
  pr_truncated :: bool
  pr_resumed :: bool
  pr_sessions :: int
  pr_outcomes :: "outcome \<Rightarrow> int"
  pr_attached :: int
  pr_deferred :: int
  pr_no_controller :: int
  pr_released :: int
  pr_failures :: int

definition zero_pending :: pending_result where
  "zero_pending =
     \<lparr>pr_shard = 0, pr_pages = 0, pr_examined = 0, pr_unreadable = 0, pr_truncated = False, pr_resumed = False,
      pr_sessions = 0, pr_outcomes = \<lambda>_. 0, pr_attached = 0, pr_deferred = 0, pr_no_controller = 0,
      pr_released = 0, pr_failures = 0\<rparr>"

record open_session =
  os_tenant :: tenant_id
  os_id :: session_id
  os_wake :: "command_id list"
  os_needs_host :: bool
  os_gates :: "command_id list"
  os_references :: "command_id list"
  os_principals :: "command_id list"
  os_restore :: bool

definition new_open_session :: "tenant_id \<Rightarrow> session_id \<Rightarrow> open_session" where
  "new_open_session t s =
     \<lparr>os_tenant = t, os_id = s, os_wake = [], os_needs_host = False, os_gates = [], os_references = [],
      os_principals = [], os_restore = False\<rparr>"

definition os_key :: "open_session \<Rightarrow> session_key" where
  "os_key s = \<lparr>sk_tenant = os_tenant s, sk_session = os_id s\<rparr>"

definition ib_key :: "disposition_entry \<Rightarrow> session_key" where
  "ib_key e = \<lparr>sk_tenant = ib_tenant e, sk_session = ib_session e\<rparr>"

definition new_pending_sweeper ::
  "int \<Rightarrow> bool \<Rightarrow> bool \<Rightarrow> bool \<Rightarrow> bool \<Rightarrow> int \<Rightarrow> int \<Rightarrow> int \<Rightarrow> perr + pending_sweeper" where
  \<comment> \<open>The first argument is the storage module's page bound; the flags say which seams were supplied.\<close>
  "new_pending_sweeper max_page authorizer pending placer clock horizon page_limit max_pages =
     (if \<not> authorizer then Inl (Wrapped [Sentinel ErrInvalidPendingSweeperConfig])
      else if \<not> pending then Inl (Wrapped [Sentinel ErrInvalidPendingSweeperConfig])
      else if \<not> placer then Inl (Wrapped [Sentinel ErrInvalidPendingSweeperConfig])
      else if \<not> clock then Inl (Wrapped [Sentinel ErrInvalidPendingSweeperConfig])
      else if horizon \<le> 0 then Inl (Wrapped [Sentinel ErrInvalidPendingSweeperConfig])
      else if page_limit < 1 \<or> page_limit > max_page then Inl (Wrapped [Sentinel ErrInvalidPendingSweeperConfig])
      else if max_pages < 1 then Inl (Wrapped [Sentinel ErrInvalidPendingSweeperConfig])
      else Inr \<lparr>ps_next = 0, ps_cursors = \<lambda>_. None\<rparr>)"

section \<open>The rotor\<close>

definition pending_begin :: "int \<Rightarrow> int \<Rightarrow> pending_sweeper \<Rightarrow> (perr + int \<times> cursor) \<times> pending_sweeper" where
  "pending_begin least shards s =
     (if shards < least then (Inl (Opaque ''no shard can be swept''), s)
      else
        let s1 = (if ps_next s \<ge> shards then s\<lparr>ps_next := 0\<rparr> else s);
            s2 = s1\<lparr>ps_cursors := \<lambda>shard. if shard \<ge> shards then None else ps_cursors s1 shard\<rparr>;
            shard = ps_next s2;
            s3 = s2\<lparr>ps_next := (shard + 1) mod shards\<rparr>
        in (Inr (shard, kept_or_head (ps_cursors s3 shard)), s3))"

definition pending_commit :: "int \<Rightarrow> cursor \<Rightarrow> pending_sweeper \<Rightarrow> pending_sweeper" where
  "pending_commit shard cursor s =
     (if cursor = [] then s\<lparr>ps_cursors := (ps_cursors s)(shard := None)\<rparr>
      else s\<lparr>ps_cursors := (ps_cursors s)(shard \<mapsto> cursor)\<rparr>)"

section \<open>Grouping\<close>

definition carries :: "disposition_entry \<Rightarrow> bool" where
  "carries e \<longleftrightarrow> ib_principal e \<or> ib_metadata e"

definition add_pending :: "disposition_entry \<Rightarrow> open_session \<Rightarrow> open_session" where
  "add_pending e s =
     (let s1 = s\<lparr>os_wake := os_wake s @ [ib_command e]\<rparr>;
          s2 = (if ib_object e \<and> (ib_kind e = KindCreateSession \<or> ib_kind e = KindInput)
                then s1\<lparr>os_references := os_references s1 @ [ib_command e]\<rparr> else s1);
          s3 = (if carries e then s2\<lparr>os_principals := os_principals s2 @ [ib_command e]\<rparr> else s2);
          s4 = (case ib_kind e of
                  KindGateResponse \<Rightarrow> s3\<lparr>os_gates := os_gates s3 @ [ib_command e]\<rparr>
                | KindRestore \<Rightarrow> s3\<lparr>os_restore := True\<rparr>
                | _ \<Rightarrow> s3)
      in s4\<lparr>os_needs_host := True\<rparr>)"

definition add_entry :: "disposition_entry \<Rightarrow> time \<Rightarrow> open_session \<Rightarrow> open_session" where
  "add_entry e now s =
     (let live = now < ib_deadline e
      in case ib_state e of
           StatePending \<Rightarrow> if live then add_pending e s else s
         | StateClaimed \<Rightarrow>
             if live then
               let s1 = s\<lparr>os_needs_host := True\<rparr>
               in if carries e then s1\<lparr>os_principals := os_principals s1 @ [ib_command e]\<rparr> else s1
             else s
         | StateApplying \<Rightarrow> s\<lparr>os_needs_host := True\<rparr>
         | _ \<Rightarrow> s)"

text \<open>The sessions of a pass in first-seen order; the map of the source points into this list.\<close>

definition add_to_sessions :: "time \<Rightarrow> open_session list \<Rightarrow> disposition_entry \<Rightarrow> open_session list" where
  "add_to_sessions now ss e =
     (if \<exists>s \<in> set ss. os_key s = ib_key e
      then map (\<lambda>s. if os_key s = ib_key e then add_entry e now s else s) ss
      else ss @ [add_entry e now (new_open_session (ib_tenant e) (ib_session e))])"

section \<open>Reading the due view\<close>

definition inbox_error_of :: "place_error \<Rightarrow> inbox_code option" where
  "inbox_error_of e = (case e of PlaceStore (InboxError c) \<Rightarrow> Some c | _ \<Rightarrow> None)"

definition pending_refused_cursor :: "perr \<Rightarrow> bool" where
  "pending_refused_cursor err \<longleftrightarrow> errors_as inbox_error_of err = Some InboxCursor"

definition pending_request :: "('w, 'p) pending_config \<Rightarrow> int \<Rightarrow> time \<Rightarrow> cursor \<Rightarrow> due_request" where
  "pending_request cfg shard now cursor =
     \<lparr>dq_shard = shard, dq_limit = pg_page_limit cfg, dq_cursor = cursor,
      dq_bound = (if cursor = [] then Some (now + pg_horizon cfg) else None)\<rparr>"

definition note_pending_page :: "disposition_entry due_page \<Rightarrow> pending_result \<Rightarrow> pending_result" where
  "note_pending_page p res =
     res\<lparr>pr_pages := pr_pages res + 1, pr_examined := pr_examined res + dp_examined p,
         pr_unreadable := pr_unreadable res + dp_unreadable p\<rparr>"

text \<open>The value of a collection: the sessions, the position to keep and the error.\<close>

type_synonym collected = "open_session list \<times> cursor \<times> perr option"

fun collect_pages ::
  "('w, 'p) pending_config \<Rightarrow> int \<Rightarrow> time \<Rightarrow> nat \<Rightarrow> cursor \<Rightarrow> open_session list \<Rightarrow> pending_result \<Rightarrow>
   ('w, collected \<times> pending_result) state" where
  "collect_pages cfg shard now 0 cursor ss res = ret ((ss, cursor, None), res\<lparr>pr_truncated := True\<rparr>)"
| "collect_pages cfg shard now (Suc pages) cursor ss res = do {
     r \<leftarrow> pg_list cfg (pending_request cfg shard now cursor);
     case r of
       Inl err \<Rightarrow>
         if pending_refused_cursor err then ret (([], [], Some (Wrapped [err])), res)
         else ret (([], cursor, Some (Wrapped [err])), res)
     | Inr p \<Rightarrow> do {
         let ss1 = foldl (add_to_sessions now) ss (dp_rows p);
         let res1 = note_pending_page p res;
         if dp_next p = [] then ret ((ss1, [], None), res1)
         else collect_pages cfg shard now pages (dp_next p) ss1 res1
       }
   }"

definition collect ::
  "('w, 'p) pending_config \<Rightarrow> int \<Rightarrow> cursor \<Rightarrow> time \<Rightarrow> pending_result \<Rightarrow> ('w, collected \<times> pending_result) state" where
  "collect cfg shard cursor now res = collect_pages cfg shard now (nat (pg_max_pages cfg)) cursor [] res"

section \<open>The sweep\<close>

definition request_of :: "open_session \<Rightarrow> place_request" where
  "request_of s =
     \<lparr>rq_tenant = os_tenant s, rq_session = os_id s, rq_desired = None, rq_wake = os_wake s, rq_gates = os_gates s,
      rq_references = os_references s, rq_principals = os_principals s, rq_restore = os_restore s\<rparr>"

text \<open>What a reconciliation adds to the counters; \<open>None\<close> for a failure.\<close>

definition note_placed :: "result \<times> perr option \<Rightarrow> pending_result \<Rightarrow> pending_result" where
  "note_placed x res =
     (if err_is ErrSessionReleased (snd x) then res\<lparr>pr_released := pr_released res + 1\<rparr>
      else if err_is ErrNoWorkloadController (snd x) then res\<lparr>pr_no_controller := pr_no_controller res + 1\<rparr>
      else if snd x \<noteq> None then res\<lparr>pr_failures := pr_failures res + 1\<rparr>
      else if res_deferred (fst x) then res\<lparr>pr_deferred := pr_deferred res + 1\<rparr>
      else
        let out = dec_outcome (res_decision (fst x));
            res1 = res\<lparr>pr_outcomes := (pr_outcomes res)(out := pr_outcomes res out + 1)\<rparr>
        in if res_attached (fst x) \<noteq> zero_observation then res1\<lparr>pr_attached := pr_attached res1 + 1\<rparr> else res1)"

definition failed_placement :: "result \<times> perr option \<Rightarrow> bool" where
  "failed_placement x \<longleftrightarrow>
     \<not> err_is ErrSessionReleased (snd x) \<and> \<not> err_is ErrNoWorkloadController (snd x) \<and> snd x \<noteq> None"

fun place_sessions ::
  "('w, 'p) pending_config \<Rightarrow> open_session list \<Rightarrow> pending_result \<Rightarrow> ('w, pending_result \<times> perr option) state" where
  "place_sessions cfg [] res = ret (res, None)"
| "place_sessions cfg (s # ss) res =
     (if \<not> os_needs_host s then place_sessions cfg ss res
      else do {
        let res1 = res\<lparr>pr_sessions := pr_sessions res + 1\<rparr>;
        x \<leftarrow> pg_placer cfg (request_of s);
        let res2 = note_placed x res1;
        if failed_placement x then do {
          done1 \<leftarrow> pg_ctx cfg;
          case done1 of
            Some err \<Rightarrow> ret (res2, Some err)
          | None \<Rightarrow> place_sessions cfg ss res2
        }
        else place_sessions cfg ss res2
      })"

definition pending_sweep ::
  "('w, 'p) pending_config \<Rightarrow> 'p \<Rightarrow> pending_sweeper \<Rightarrow> ('w, (pending_result \<times> perr option) \<times> pending_sweeper) state" where
  "pending_sweep cfg who s = do {
     auth \<leftarrow> pg_authorize cfg who;
     case auth of
       Some err \<Rightarrow> ret ((zero_pending, Some err), s)
     | None \<Rightarrow> do {
         shards \<leftarrow> pg_shards cfg;
         case pending_begin (pg_least cfg) shards s of
           (Inl err, s1) \<Rightarrow> ret ((zero_pending, Some err), s1)
         | (Inr (shard, cursor), s1) \<Rightarrow> do {
             now \<leftarrow> pg_now cfg;
             c \<leftarrow> collect cfg shard cursor now (zero_pending\<lparr>pr_shard := shard, pr_resumed := (cursor \<noteq> [])\<rparr>);
             let s2 = pending_commit shard (fst (snd (fst c))) s1;
             case snd (snd (fst c)) of
               Some err \<Rightarrow> ret ((snd c, Some err), s2)
             | None \<Rightarrow> do {
                 y \<leftarrow> place_sessions cfg (fst (fst c)) (snd c);
                 ret (y, s2)
               }
           }
       }
   }"

section \<open>Placement on admission\<close>

fun add_all :: "('w, 'p) pending_config \<Rightarrow> disposition_entry list \<Rightarrow> open_session \<Rightarrow> ('w, open_session) state" where
  "add_all cfg [] s = ret s"
| "add_all cfg (e # es) s = do {
     now \<leftarrow> pg_now cfg;
     add_all cfg es (add_entry e now s)
   }"

fun admission_session_loop ::
  "('w, 'p) pending_config \<Rightarrow> (session_request \<Rightarrow> ('w, perr + session_page) state) \<Rightarrow> admission_notice \<Rightarrow> nat \<Rightarrow> u64 \<Rightarrow>
   open_session \<Rightarrow> ('w, perr + open_session) state" where
  "admission_session_loop cfg list_page n 0 after target = ret (Inr target)"
| "admission_session_loop cfg list_page n (Suc pages) after target = do {
     r \<leftarrow> list_page \<lparr>sq_tenant = an_tenant n, sq_session = an_session n, sq_after = after, sq_limit = pg_page_limit cfg\<rparr>;
     case r of
       Inl err \<Rightarrow> ret (Inl err)
     | Inr p \<Rightarrow>
         if sp_commands p = [] then ret (Inr target)
         else if sp_next p \<le> after then ret (Inl (Opaque ''session command page did not advance''))
         else do {
           target1 \<leftarrow> add_all cfg (sp_commands p) target;
           if sp_next p \<ge> an_order n \<and> an_command n \<in> set (os_wake target1) then ret (Inr target1)
           else if int (length (sp_commands p)) < pg_page_limit cfg then ret (Inr target1)
           else admission_session_loop cfg list_page n pages (sp_next p) target1
         }
   }"

definition max_due_pages :: int where
  "max_due_pages = 2"

text \<open>The shards left and the pages left. A session found decides; \<open>None\<close> is the nil session.\<close>

fun admission_fallback_loop ::
  "('w, 'p) pending_config \<Rightarrow> admission_notice \<Rightarrow> int list \<Rightarrow> int \<Rightarrow> ('w, perr + open_session option) state" where
  "admission_fallback_loop cfg n [] remaining = ret (Inr None)"
| "admission_fallback_loop cfg n (shard # shards) remaining =
     (if remaining = 0 then ret (Inr None)
      else do {
        now \<leftarrow> pg_now cfg;
        c \<leftarrow> collect_pages cfg shard now (nat remaining) [] [] zero_pending;
        let remaining1 = remaining - pr_pages (snd c);
        case snd (snd (fst c)) of
          Some err \<Rightarrow> ret (Inl err)
        | None \<Rightarrow>
            (case find (\<lambda>s. os_tenant s = an_tenant n \<and> os_id s = an_session n) (fst (fst c)) of
               Some s \<Rightarrow>
                 if pr_truncated (snd c) \<or> an_command n \<notin> set (os_wake s) then ret (Inr None) else ret (Inr (Some s))
             | None \<Rightarrow> admission_fallback_loop cfg n shards remaining1)
      })"

definition admission_fallback ::
  "('w, 'p) pending_config \<Rightarrow> admission_notice \<Rightarrow> ('w, perr + open_session option) state" where
  "admission_fallback cfg n = do {
     shards \<leftarrow> pg_shards cfg;
     admission_fallback_loop cfg n (map int [0..<nat shards]) max_due_pages
   }"

definition admission_session ::
  "('w, 'p) pending_config \<Rightarrow> (session_request \<Rightarrow> ('w, perr + session_page) state) \<Rightarrow> admission_notice \<Rightarrow>
   ('w, perr + open_session option) state" where
  "admission_session cfg list_page n = do {
     r \<leftarrow> admission_session_loop cfg list_page n (nat (pg_max_pages cfg)) 0 (new_open_session (an_tenant n) (an_session n));
     case r of
       Inl err \<Rightarrow> ret (Inl err)
     | Inr target \<Rightarrow>
         if an_command n \<notin> set (os_wake target) then admission_fallback cfg n else ret (Inr (Some target))
   }"

text \<open>The session is already served: the owner the catalog's desire still names.\<close>

definition admission_owned ::
  "('w, 'p) pending_config \<Rightarrow> admission_notice \<Rightarrow> ('w, perr + bool) state" where
  "admission_owned cfg n =
     (case (pg_catalog cfg, pg_directory cfg) of
        (Some get, Some owner) \<Rightarrow> do {
          e \<leftarrow> get \<lparr>sk_tenant = an_tenant n, sk_session = an_session n\<rparr>;
          case e of
            Inl err \<Rightarrow> ret (Inl err)
          | Inr entry \<Rightarrow> do {
              o1 \<leftarrow> owner (an_tenant n) (an_session n);
              case o1 of
                Inl err \<Rightarrow> ret (Inl err)
              | Inr None \<Rightarrow> ret (Inr False)
              | Inr (Some obs) \<Rightarrow> do {
                  now \<leftarrow> pg_now cfg;
                  ret (Inr (owned (ce_record entry) (Some obs) now))
                }
            }
        }
      | _ \<Rightarrow> ret (Inr False))"

definition place_target :: "'w placer \<Rightarrow> open_session option \<Rightarrow> 'w placing" where
  "place_target place target =
     (case target of
        None \<Rightarrow> ret (zero_result, None)
      | Some s \<Rightarrow> if \<not> os_needs_host s then ret (zero_result, None) else place (request_of s))"

definition place_admission_with ::
  "('w, 'p) pending_config \<Rightarrow> 'p \<Rightarrow> admission_notice \<Rightarrow> 'w placer \<Rightarrow> 'w placing" where
  "place_admission_with cfg who n place = do {
     auth \<leftarrow> pg_authorize cfg who;
     case auth of
       Some err \<Rightarrow> ret (zero_result, Some err)
     | None \<Rightarrow> do {
         expired \<leftarrow> (if \<not> an_pending n then ret True
                     else do { now \<leftarrow> pg_now cfg; ret (\<not> now < an_deadline n) });
         if expired then ret (zero_result, None)
         else do {
           known \<leftarrow> admission_owned cfg n;
           case known of
             Inl err \<Rightarrow> ret (zero_result, Some err)
           | Inr True \<Rightarrow> ret (zero_result, None)
           | Inr False \<Rightarrow> do {
               t \<leftarrow> (case pg_session_commands cfg of
                      Some list_page \<Rightarrow> admission_session cfg list_page n
                    | None \<Rightarrow> admission_fallback cfg n);
               case t of
                 Inl err \<Rightarrow> ret (zero_result, Some err)
               | Inr target \<Rightarrow> place_target place target
             }
         }
       }
   }"

definition place_admission :: "('w, 'p) pending_config \<Rightarrow> 'p \<Rightarrow> admission_notice \<Rightarrow> 'w placing" where
  "place_admission cfg who n =
     place_admission_with cfg who n
       (case pg_admission_placer cfg of Some place \<Rightarrow> place | None \<Rightarrow> pg_placer cfg)"

section \<open>What the grouping computes\<close>

text \<open>
  The specification of one session's open work from the commands read, without the passes over
  them: each field is what the commands of that session say.
\<close>

definition live_pending :: "time \<Rightarrow> disposition_entry \<Rightarrow> bool" where
  "live_pending now e \<longleftrightarrow> ib_state e = StatePending \<and> now < ib_deadline e"

definition live_open :: "time \<Rightarrow> disposition_entry \<Rightarrow> bool" where
  "live_open now e \<longleftrightarrow> (ib_state e = StatePending \<or> ib_state e = StateClaimed) \<and> now < ib_deadline e"

definition commands_where :: "(disposition_entry \<Rightarrow> bool) \<Rightarrow> disposition_entry list \<Rightarrow> command_id list" where
  "commands_where P es = map ib_command (filter P es)"

definition open_work :: "time \<Rightarrow> disposition_entry list \<Rightarrow> session_key \<Rightarrow> open_session" where
  "open_work now es k =
     (let mine = filter (\<lambda>e. ib_key e = k) es
      in \<lparr>os_tenant = sk_tenant k, os_id = sk_session k,
          os_wake = commands_where (live_pending now) mine,
          os_needs_host = list_ex (\<lambda>e. live_open now e \<or> ib_state e = StateApplying) mine,
          os_gates = commands_where (\<lambda>e. live_pending now e \<and> ib_kind e = KindGateResponse) mine,
          os_references = commands_where (\<lambda>e. live_pending now e \<and> ib_object e \<and> ib_kind e \<in> {KindCreateSession, KindInput}) mine,
          os_principals = commands_where (\<lambda>e. live_open now e \<and> carries e) mine,
          os_restore = list_ex (\<lambda>e. live_pending now e \<and> ib_kind e = KindRestore) mine\<rparr>)"

definition first_seen :: "'a list \<Rightarrow> 'a list" where
  "first_seen xs = rev (remdups (rev xs))"

lemma first_seen_simps [simp]:
  "first_seen [] = []"
  "first_seen (xs @ [x]) = (if x \<in> set xs then first_seen xs else first_seen xs @ [x])"
  "set (first_seen xs) = set xs" "distinct (first_seen xs)"
  by (simp_all add: first_seen_def)

lemma os_key_open_work [simp]: "os_key (open_work now es k) = k"
  by (simp add: os_key_def open_work_def Let_def)

lemma open_work_other: "ib_key e \<noteq> k \<Longrightarrow> open_work now (es @ [e]) k = open_work now es k"
  by (simp add: open_work_def)

lemma open_work_none: "k \<notin> ib_key ` set es \<Longrightarrow> open_work now es k = new_open_session (sk_tenant k) (sk_session k)"
proof -
  assume "k \<notin> ib_key ` set es"
  then have "filter (\<lambda>e. ib_key e = k) es = []" by (auto simp: filter_empty_conv)
  then show ?thesis by (simp add: open_work_def new_open_session_def commands_where_def)
qed

text \<open>Adding a command to what the earlier ones came to.\<close>

lemma open_work_add:
  assumes "ib_key e = k"
  shows "open_work now (es @ [e]) k = add_entry e now (open_work now es k)"
proof (cases "live_pending now e")
  case True
  then show ?thesis using assms
    by (cases "ib_kind e") (simp_all add: open_work_def Let_def add_entry_def add_pending_def commands_where_def live_pending_def live_open_def)
next
  case False
  then show ?thesis using assms
    by (cases "ib_state e") (simp_all add: open_work_def Let_def add_entry_def commands_where_def live_pending_def live_open_def)
qed

text \<open>
  The fold over the commands computes the specification: one session per key, in the order
  the keys were first seen.
\<close>

lemma group_open_work:
  "foldl (add_to_sessions now) [] es = map (open_work now es) (first_seen (map ib_key es))"
proof (induction es rule: rev_induct)
  case (snoc e es)
  let ?ss = "map (open_work now es) (first_seen (map ib_key es))"
  have seen: "(\<exists>s \<in> set ?ss. os_key s = ib_key e) \<longleftrightarrow> ib_key e \<in> set (map ib_key es)" by force
  show ?case
  proof (cases "ib_key e \<in> set (map ib_key es)")
    case True
    have "map (\<lambda>s. if os_key s = ib_key e then add_entry e now s else s) ?ss =
        map (open_work now (es @ [e])) (first_seen (map ib_key es))"
      by (auto simp: open_work_add open_work_other)
    then have "add_to_sessions now ?ss e = map (open_work now (es @ [e])) (first_seen (map ib_key es))"
      using True seen unfolding add_to_sessions_def by simp
    with True snoc.IH show ?thesis by simp
  next
    case False
    have "map (open_work now (es @ [e])) (first_seen (map ib_key es)) = ?ss"
      by (intro map_cong refl open_work_other) (use False in force)
    moreover have "open_work now (es @ [e]) (ib_key e) = add_entry e now (new_open_session (ib_tenant e) (ib_session e))"
      using False by (simp add: open_work_add open_work_none ib_key_def)
    moreover have "add_to_sessions now ?ss e = ?ss @ [add_entry e now (new_open_session (ib_tenant e) (ib_session e))]"
      using False seen unfolding add_to_sessions_def by simp
    ultimately show ?thesis using False snoc.IH by simp
  qed
qed simp

section \<open>The calls of a sweep\<close>

datatype pending_event =
    PvAuth "perr option"
  | PvShards int
  | PvNow time
  | PvList due_request "perr + disposition_entry due_page"
  | PvHistory session_request "perr + session_page"
  | PvGet "perr + catalog_entry"
  | PvOwner "perr + registry_observation option"
  | PvPlace place_request "result \<times> perr option"
  | PvCtx "perr option"

definition logged_placer :: "'w placer \<Rightarrow> ('w \<times> pending_event list) placer" where
  "logged_placer place = (\<lambda>req. logged (PvPlace req) (place req))"

definition logged_pending :: "('w, 'p) pending_config \<Rightarrow> ('w \<times> pending_event list, 'p) pending_config" where
  "logged_pending cfg =
     \<lparr>pg_authorize = \<lambda>who. logged PvAuth (pg_authorize cfg who),
      pg_shards = logged PvShards (pg_shards cfg),
      pg_list = \<lambda>q. logged (PvList q) (pg_list cfg q),
      pg_session_commands = map_option (\<lambda>f q. logged (PvHistory q) (f q)) (pg_session_commands cfg),
      pg_placer = logged_placer (pg_placer cfg),
      pg_admission_placer = map_option logged_placer (pg_admission_placer cfg),
      pg_catalog = map_option (\<lambda>f k. logged PvGet (f k)) (pg_catalog cfg),
      pg_directory = map_option (\<lambda>f t s. logged PvOwner (f t s)) (pg_directory cfg),
      pg_now = logged PvNow (pg_now cfg), pg_ctx = logged PvCtx (pg_ctx cfg),
      pg_horizon = pg_horizon cfg, pg_page_limit = pg_page_limit cfg, pg_max_pages = pg_max_pages cfg, pg_least = pg_least cfg\<rparr>"

lemma logged_pending_simps [simp]:
  "pg_authorize (logged_pending cfg) who = logged PvAuth (pg_authorize cfg who)"
  "pg_shards (logged_pending cfg) = logged PvShards (pg_shards cfg)"
  "pg_list (logged_pending cfg) q = logged (PvList q) (pg_list cfg q)"
  "pg_session_commands (logged_pending cfg) = map_option (\<lambda>f q. logged (PvHistory q) (f q)) (pg_session_commands cfg)"
  "pg_placer (logged_pending cfg) = logged_placer (pg_placer cfg)"
  "pg_admission_placer (logged_pending cfg) = map_option logged_placer (pg_admission_placer cfg)"
  "pg_catalog (logged_pending cfg) = map_option (\<lambda>f k. logged PvGet (f k)) (pg_catalog cfg)"
  "pg_directory (logged_pending cfg) = map_option (\<lambda>f t s. logged PvOwner (f t s)) (pg_directory cfg)"
  "pg_now (logged_pending cfg) = logged PvNow (pg_now cfg)"
  "pg_ctx (logged_pending cfg) = logged PvCtx (pg_ctx cfg)"
  "pg_horizon (logged_pending cfg) = pg_horizon cfg" "pg_page_limit (logged_pending cfg) = pg_page_limit cfg"
  "pg_max_pages (logged_pending cfg) = pg_max_pages cfg" "pg_least (logged_pending cfg) = pg_least cfg"
  by (simp_all add: logged_pending_def)

lemma logged_placer_apply: "logged_placer place req = logged (PvPlace req) (place req)"
  by (simp add: logged_placer_def)

lemma logged_pending_request [simp]: "pending_request (logged_pending cfg) = pending_request cfg"
  by (intro ext) (simp add: pending_request_def)

definition rows_read :: "pending_event list \<Rightarrow> disposition_entry list" where
  "rows_read cs = concat (map (\<lambda>ev. case ev of PvList q (Inr p) \<Rightarrow> dp_rows p | _ \<Rightarrow> []) cs)"

definition placements :: "pending_event list \<Rightarrow> (place_request \<times> result \<times> perr option) list" where
  "placements cs = concat (map (\<lambda>ev. case ev of PvPlace req x \<Rightarrow> [(req, x)] | _ \<Rightarrow> []) cs)"

lemma rows_read_simps [simp]:
  "rows_read [] = []" "rows_read (cs @ ds) = rows_read cs @ rows_read ds"
  "rows_read (PvList q (Inr p) # cs) = dp_rows p @ rows_read cs" "rows_read (PvList q (Inl err) # cs) = rows_read cs"
  "rows_read (PvAuth e # cs) = rows_read cs" "rows_read (PvShards n # cs) = rows_read cs" "rows_read (PvNow t # cs) = rows_read cs"
  "rows_read (PvPlace req x # cs) = rows_read cs" "rows_read (PvCtx e # cs) = rows_read cs"
  "rows_read (PvHistory hq h # cs) = rows_read cs" "rows_read (PvGet g # cs) = rows_read cs" "rows_read (PvOwner w # cs) = rows_read cs"
  by (simp_all add: rows_read_def)

lemma placements_simps [simp]:
  "placements [] = []" "placements (cs @ ds) = placements cs @ placements ds"
  "placements (PvList q r # cs) = placements cs"
  "placements (PvAuth e # cs) = placements cs" "placements (PvShards n # cs) = placements cs" "placements (PvNow t # cs) = placements cs"
  "placements (PvPlace req x # cs) = (req, x) # placements cs" "placements (PvCtx e # cs) = placements cs"
  "placements (PvHistory hq h # cs) = placements cs" "placements (PvGet g # cs) = placements cs" "placements (PvOwner w # cs) = placements cs"
  by (simp_all add: placements_def)

section \<open>What a sweep promises\<close>

text \<open>The one thing each reconciliation is counted as.\<close>

datatype fate = Released | NoController | Failed | Deferred | Decided outcome

definition fate_of :: "result \<times> perr option \<Rightarrow> fate" where
  "fate_of x =
     (if err_is ErrSessionReleased (snd x) then Released
      else if err_is ErrNoWorkloadController (snd x) then NoController
      else if snd x \<noteq> None then Failed
      else if res_deferred (fst x) then Deferred
      else Decided (dec_outcome (res_decision (fst x))))"

definition fate_count :: "pending_result \<Rightarrow> fate \<Rightarrow> int" where
  "fate_count res f =
     (case f of
        Released \<Rightarrow> pr_released res
      | NoController \<Rightarrow> pr_no_controller res
      | Failed \<Rightarrow> pr_failures res
      | Deferred \<Rightarrow> pr_deferred res
      | Decided out \<Rightarrow> pr_outcomes res out)"

lemma note_placed_count [simp]:
  "fate_count (note_placed x res) f = fate_count res f + (if fate_of x = f then 1 else 0)"
  by (cases f) (auto simp: fate_count_def note_placed_def fate_of_def Let_def)

lemma note_placed_simps [simp]:
  "pr_sessions (note_placed x res) = pr_sessions res" "pr_shard (note_placed x res) = pr_shard res"
  by (simp_all add: note_placed_def Let_def)

lemma fate_count_sessions [simp]: "fate_count (res\<lparr>pr_sessions := n\<rparr>) f = fate_count res f"
  by (simp add: fate_count_def split: fate.split)

definition tallied :: "pending_result \<Rightarrow> pending_event list \<Rightarrow> pending_result \<Rightarrow> bool" where
  "tallied res cs res' \<longleftrightarrow>
     pr_shard res' = pr_shard res \<and> pr_sessions res' = pr_sessions res + int (length (placements cs)) \<and>
     (\<forall>f. fate_count res' f = fate_count res f + int (length (filter (\<lambda>p. fate_of (snd p) = f) (placements cs))))"

lemma fate_count_pages [simp]:
  "fate_count (note_pending_page p res) = fate_count res" "pr_sessions (note_pending_page p res) = pr_sessions res"
  "pr_shard (note_pending_page p res) = pr_shard res"
  "fate_count (res\<lparr>pr_truncated := b\<rparr>) = fate_count res"
  by (auto simp: fate_count_def note_pending_page_def fun_eq_iff split: fate.split)

lemma fate_count_zero [simp]:
  "fate_count zero_pending f = 0" "fate_count (zero_pending\<lparr>pr_shard := k\<rparr>) f = 0"
  "fate_count (zero_pending\<lparr>pr_shard := k, pr_resumed := b\<rparr>) f = 0" "pr_sessions zero_pending = 0" "pr_shard zero_pending = 0"
  by (simp_all add: fate_count_def zero_pending_def split: fate.split)

lemma tallied_trans: "tallied res cs res1 \<Longrightarrow> tallied res1 ds res2 \<Longrightarrow> tallied res (cs @ ds) res2"
  by (simp add: tallied_def)

text \<open>A collection places nothing; without an error it has grouped the rows of every page it read.\<close>

lemma collect_pages_emits:
  "emits (collect_pages (logged_pending cfg) shard now n cursor ss res) (\<lambda>x cs.
     placements cs = [] \<and> tallied res cs (snd x) \<and>
     (snd (snd (fst x)) = None \<longrightarrow> fst (fst x) = foldl (add_to_sessions now) ss (rows_read cs)))"
proof (induction n arbitrary: cursor ss res)
  case 0
  show ?case by (simp, rule emits_ret) (simp add: tallied_def)
next
  case (Suc n)
  show ?case unfolding collect_pages.simps logged_pending_simps Let_def
  proof (intro emits_call emits_case_sum emits_if emits_ret, goal_cases)
    case (4 r p)
    then show ?case by (intro emits_weaken [OF Suc.IH]) (auto simp: tallied_def)
  qed (simp_all add: tallied_def)
qed

lemma place_sessions_emits:
  "emits (place_sessions (logged_pending cfg) ss res) (\<lambda>x cs.
     rows_read cs = [] \<and> tallied res cs (fst x) \<and>
     (\<exists>rest. map request_of (filter os_needs_host ss) = map fst (placements cs) @ rest \<and> (snd x = None \<longrightarrow> rest = [])))"
proof (induction ss arbitrary: res)
  case Nil
  show ?case by (simp, rule emits_ret) (simp add: tallied_def)
next
  case (Cons s ss)
  show ?case
  proof (cases "os_needs_host s")
    case False
    with Cons.IH show ?thesis by simp
  next
    case True
    let ?res = "\<lambda>x. note_placed x (res\<lparr>pr_sessions := pr_sessions res + 1\<rparr>)"
    have more: "tallied res (PvPlace (request_of s) x # cs) y" "tallied res (PvPlace (request_of s) x # PvCtx e # cs) y"
      if "tallied (?res x) cs y" for x cs y e
      using that by (auto simp: tallied_def)
    show ?thesis unfolding place_sessions.simps logged_pending_simps logged_placer_apply Let_def
      using True
    proof (simp only: simp_thms if_False, intro emits_call emits_if emits_case_option emits_ret, goal_cases)
      case (2 x e err)
      then show ?case by (simp add: tallied_def)
    next
      case (1 x e)
      show ?case by (rule emits_weaken [OF Cons.IH]) (use True in \<open>auto intro: more\<close>)
    next
      case (3 x)
      show ?case by (rule emits_weaken [OF Cons.IH]) (use True in \<open>auto intro: more\<close>)
    qed
  qed
qed

text \<open>The requests the open commands call for: one per session that needs a Host, in first-seen order.\<close>

definition due_requests :: "time \<Rightarrow> disposition_entry list \<Rightarrow> place_request list" where
  "due_requests now es =
     map request_of (filter os_needs_host (map (open_work now es) (first_seen (map ib_key es))))"

lemma pending_sweep_emits:
  "emits (pending_sweep (logged_pending cfg) who s) (\<lambda>y cs.
     tallied (zero_pending\<lparr>pr_shard := pr_shard (fst (fst y))\<rparr>) cs (fst (fst y)) \<and>
     (placements cs = [] \<and> snd (fst y) \<noteq> None \<or>
      (\<exists>now rest. PvNow now \<in> set cs \<and> due_requests now (rows_read cs) = map fst (placements cs) @ rest \<and>
         (snd (fst y) = None \<longrightarrow> rest = []))))"
  unfolding pending_sweep_def logged_pending_simps Let_def collect_def
proof (intro emits_call emits_case_option emits_case_prod emits_case_sum, goal_cases)
  case (1 auth n p s1 err)
  then show ?case by (intro emits_ret) (simp add: tallied_def)
next
  case (2 auth n p s1 q shard cursor now)
  show ?case
  proof (rule emits_sub [OF collect_pages_emits], rule emits_case_option, goal_cases)
    case (1 c cs)
    then have c: "placements cs = []" "tallied (zero_pending\<lparr>pr_shard := shard, pr_resumed := cursor \<noteq> []\<rparr>) cs (snd c)"
      "fst (fst c) = map (open_work now (rows_read cs)) (first_seen (map ib_key (rows_read cs)))"
      by (simp_all add: group_open_work)
    show ?case
    proof (rule emits_sub [OF place_sessions_emits], rule emits_ret, goal_cases)
      case (1 y ds)
      then have "tallied (zero_pending\<lparr>pr_shard := shard, pr_resumed := cursor \<noteq> []\<rparr>) (cs @ ds) (fst y)"
        using tallied_trans [OF c(2)] by blast
      then have "tallied (zero_pending\<lparr>pr_shard := pr_shard (fst y)\<rparr>) (PvAuth auth # PvShards n # PvNow now # (cs @ ds) @ []) (fst y)"
        by (simp add: tallied_def)
      with 1 show ?case by (auto simp: c(1,3) due_requests_def)
    qed
  next
    case (2 c cs err)
    then show ?case by (intro emits_ret) (auto simp: tallied_def)
  qed
next
  case (3 auth err)
  then show ?case by (intro emits_ret) (simp add: tallied_def)
qed

text \<open>
  A shard with three sessions: a live input and a restore of \<open>s1\<close>, an expired input of \<open>s2\<close>, and on
  the second page a gate response of \<open>s3\<close>. The second page may fail.
\<close>

definition sample_command :: "session_id \<Rightarrow> command_id \<Rightarrow> command_kind \<Rightarrow> time \<Rightarrow> disposition_entry" where
  "sample_command s c kind deadline =
     \<lparr>ib_tenant = ''t'', ib_session = s, ib_command = c, ib_kind = kind, ib_object = False, ib_principal = True,
      ib_metadata = False, ib_state = StatePending, ib_attempt = False, ib_claim = None, ib_deadline = deadline,
      ib_revision = 1, ib_order = 3\<rparr>"

definition sample_pending :: "bool \<Rightarrow> (nat, unit) pending_config" where
  "sample_pending fails =
     \<lparr>pg_authorize = \<lambda>_. ret None, pg_shards = ret 2,
      pg_list = \<lambda>q. ret (if dq_cursor q = []
        then Inr \<lparr>dp_rows = [sample_command ''s1'' ''c1'' KindInput 100, sample_command ''s2'' ''c2'' KindInput 40,
             sample_command ''s1'' ''c3'' KindRestore 100], dp_examined = 3, dp_unreadable = 0, dp_next = ''p2''\<rparr>
        else if fails then Inl (Opaque ''provider fault'')
        else Inr \<lparr>dp_rows = [sample_command ''s3'' ''c4'' KindGateResponse 100], dp_examined = 1, dp_unreadable = 0, dp_next = []\<rparr>),
      pg_session_commands = Some (\<lambda>q. ret (Inr \<lparr>sp_commands = [sample_command ''s1'' ''c1'' KindInput 100], sp_next = 3\<rparr>)),
      pg_placer = \<lambda>req. ret (zero_result, if rq_session req = ''s1'' then Some (Sentinel ErrSessionReleased) else None),
      pg_admission_placer = None, pg_catalog = None, pg_directory = None,
      pg_now = ret 50, pg_ctx = ret None, pg_horizon = 100, pg_page_limit = 10, pg_max_pages = 4, pg_least = 1\<rparr>"

definition sample_sweeper :: pending_sweeper where
  "sample_sweeper = \<lparr>ps_next = 0, ps_cursors = \<lambda>_. None\<rparr>"

text \<open>
  C4. The sweep reconciles every session with open work once. A pass without an error hands the
  placer exactly the requests the commands it read call for: one per session that needs a Host,
  in the order the sessions were first seen, with the live pending commands of that session in
  order as the wake and its gate responses, referenced bodies, attributed commands and restore
  told apart. A pass with an error has handed over a prefix of them or nothing. Each
  reconciliation is counted once, by what it came to.
\<close>

theorem pending_sweep_places_each_session_once:
  assumes "run_state (pending_sweep (logged_pending cfg) who s) (w, []) = (((res, err), s'), (w', cs))"
  shows "(err = None \<longrightarrow> (\<exists>now. PvNow now \<in> set cs \<and> map fst (placements cs) = due_requests now (rows_read cs))) \<and>
    (\<exists>now rest. placements cs = [] \<or> due_requests now (rows_read cs) = map fst (placements cs) @ rest) \<and>
    pr_sessions res = int (length (placements cs)) \<and>
    (\<forall>f. fate_count res f = int (length (filter (\<lambda>p. fate_of (snd p) = f) (placements cs))))"
proof -
  note e = emits_run_Nil [OF pending_sweep_emits assms]
  from e have "tallied (zero_pending\<lparr>pr_shard := pr_shard res\<rparr>) cs res" by simp
  then have "pr_sessions res = int (length (placements cs))"
    "\<forall>f. fate_count res f = int (length (filter (\<lambda>p. fate_of (snd p) = f) (placements cs)))"
    by (simp_all add: tallied_def)
  moreover from e consider "placements cs = []" "err \<noteq> None"
    | now rest where "PvNow now \<in> set cs" "due_requests now (rows_read cs) = map fst (placements cs) @ rest" "err = None \<longrightarrow> rest = []"
    by auto
  then have "(err = None \<longrightarrow> (\<exists>now. PvNow now \<in> set cs \<and> map fst (placements cs) = due_requests now (rows_read cs))) \<and>
      (\<exists>now rest. placements cs = [] \<or> due_requests now (rows_read cs) = map fst (placements cs) @ rest)"
  proof cases
    case 2
    have "\<exists>now. PvNow now \<in> set cs \<and> map fst (placements cs) = due_requests now (rows_read cs)" if "err = None"
      using 2 that by (intro exI [of _ now]) simp
    then show ?thesis using 2(2) by blast
  qed auto
  ultimately show ?thesis by blast
qed

theorem pending_sweep_places_each_session_once_witness:
  "\<exists>res s' w' cs. run_state (pending_sweep (logged_pending (sample_pending False)) () sample_sweeper) (0, []) =
       (((res, None), s'), (w', cs)) \<and>
     map (\<lambda>p. (rq_session (fst p), rq_wake (fst p), rq_gates (fst p), rq_restore (fst p))) (placements cs) =
       [(''s1'', [''c1'', ''c3''], [], True), (''s3'', [''c4''], [''c4''], False)] \<and>
     pr_sessions res = 2 \<and> pr_released res = 1 \<and>
     (\<exists>now. map fst (placements cs) = due_requests now (rows_read cs))"
proof -
  let ?run = "run_state (pending_sweep (logged_pending (sample_pending False)) () sample_sweeper) (0, [])"
  obtain res err s' w' cs where run: "?run = (((res, err), s'), (w', cs))" by (metis prod.exhaust)
  have "snd (fst (fst ?run)) = None"
    "map (\<lambda>p. (rq_session (fst p), rq_wake (fst p), rq_gates (fst p), rq_restore (fst p))) (placements (snd (snd ?run))) =
       [(''s1'', [''c1'', ''c3''], [], True), (''s3'', [''c4''], [''c4''], False)]"
    "map (\<lambda>p. fate_of (snd p)) (placements (snd (snd ?run))) = [Released, Decided (dec_outcome (res_decision zero_result))]"
    by code_simp+
  with run have facts: "err = None"
    "map (\<lambda>p. (rq_session (fst p), rq_wake (fst p), rq_gates (fst p), rq_restore (fst p))) (placements cs) =
       [(''s1'', [''c1'', ''c3''], [], True), (''s3'', [''c4''], [''c4''], False)]"
    "map (\<lambda>p. fate_of (snd p)) (placements cs) = [Released, Decided (dec_outcome (res_decision zero_result))]"
    by simp_all
  note promise = pending_sweep_places_each_session_once [OF run]
  have "length (placements cs) = 2" using arg_cong [OF facts(2), of length] by simp
  with promise have "pr_sessions res = 2" by simp
  moreover have "length (filter (\<lambda>p. fate_of (snd p) = Released) (placements cs)) =
      length (filter (\<lambda>f. f = Released) (map (\<lambda>p. fate_of (snd p)) (placements cs)))"
    by (simp add: filter_map comp_def)
  then have "length (filter (\<lambda>p. fate_of (snd p) = Released) (placements cs)) = 1" by (simp add: facts(3))
  with promise have "fate_count res Released = 1" by (metis of_nat_1)
  then have "pr_released res = 1" by (simp add: fate_count_def)
  moreover from promise facts(1) have "\<exists>now. map fst (placements cs) = due_requests now (rows_read cs)" by blast
  ultimately show ?thesis
    by (intro exI [of _ res] exI [of _ s'] exI [of _ w'] exI [of _ cs] conjI run [unfolded facts(1)] facts(2))
qed

section \<open>A failing page\<close>

lemma collect_pages_failed:
  "emits (collect_pages (logged_pending cfg) shard now n cursor ss res) (\<lambda>x cs.
     \<forall>q e. PvList q (Inl e) \<in> set cs \<longrightarrow>
       fst x = ([], if pending_refused_cursor e then [] else dq_cursor q, Some (Wrapped [e])))"
proof (induction n arbitrary: cursor ss res)
  case 0
  show ?case by (simp, rule emits_ret) simp
next
  case (Suc n)
  show ?case unfolding collect_pages.simps logged_pending_simps Let_def
  proof (intro emits_call emits_case_sum emits_if emits_ret, goal_cases)
    case (4 r p)
    then show ?case by (intro emits_weaken [OF Suc.IH]) auto
  qed (auto simp: pending_request_def)
qed

lemma collect_pages_shard:
  "pr_shard res = k \<Longrightarrow> yields (collect_pages cfg shard now n cursor ss res) (\<lambda>x. pr_shard (snd x) = k)"
proof (induction n arbitrary: cursor ss res)
  case (Suc n)
  then show ?case unfolding collect_pages.simps Let_def
    by (intro yields_bind yields_case_sum yields_if yields_ret Suc.IH) simp_all
qed (simp add: yields_ret)

lemma place_sessions_shard:
  "pr_shard res = k \<Longrightarrow> yields (place_sessions cfg ss res) (\<lambda>x. pr_shard (fst x) = k)"
proof (induction ss arbitrary: res)
  case (Cons s ss)
  then show ?case unfolding place_sessions.simps Let_def
    by (intro yields_bind yields_case_option yields_if yields_ret Cons.IH) simp_all
qed (simp add: yields_ret)

text \<open>An authorized sweep of a store that reports its shards is one pass of the rotor.\<close>

interpretation pending_rotor: shard_rotor pending_begin pending_commit ps_next ps_cursors
  by unfold_locales (auto simp: pending_begin_def pending_commit_def turn_def kept_or_head_def Let_def)

lemma pending_sweep_pass:
  assumes "pg_authorize cfg = (\<lambda>_. ret None)" "pg_shards cfg = ret n" "pg_least cfg \<le> n"
    "run_state (pending_sweep cfg who s) w = ((x, s'), w')"
  shows "\<exists>c0 s1 c. pending_begin (pg_least cfg) n s = (Inr (pr_shard (fst x), c0), s1) \<and>
    s' = pending_commit (pr_shard (fst x)) c s1"
proof -
  obtain shard c0 s1 where b: "pending_begin (pg_least cfg) n s = (Inr (shard, c0), s1)"
    using pending_rotor.begin_shard [OF assms(3), of s] by (metis prod.collapse)
  have c: "yields (collect cfg shard c0 now (zero_pending\<lparr>pr_shard := shard, pr_resumed := (c0 \<noteq> [])\<rparr>)) (\<lambda>x. pr_shard (snd x) = shard)" for now
    unfolding collect_def by (rule collect_pages_shard) simp
  have "yields (pending_sweep cfg who s) (\<lambda>y. pr_shard (fst (fst y)) = shard \<and> (\<exists>c. snd y = pending_commit shard c s1))"
    unfolding pending_sweep_def assms(1,2) bind_left_identity option.simps b prod.case sum.case Let_def
    by (rule yields_bind, rule yields_sub [OF c], rule yields_case_option,
        rule yields_sub [OF place_sessions_shard], assumption, rule yields_ret, force, rule yields_ret, force)
  from yields_run [OF this assms(4)] show ?thesis using b by auto
qed

interpretation pending_sweeps: shard_sweep pending_begin pending_commit ps_next ps_cursors
  "\<lambda>least n. pending_sweep (cfg\<lparr>pg_authorize := \<lambda>_. ret None, pg_shards := ret n, pg_least := least\<rparr>) who"
  "\<lambda>x. pr_shard (fst x)"
  for cfg :: "('w, 'p) pending_config" and who :: 'p
proof (unfold_locales, goal_cases)
  case (1 least n r w x r' w')
  from pending_sweep_pass [OF _ _ _ 1(2)] 1(1) show ?case by simp
qed

lemma pending_sweep_failed:
  "emits (pending_sweep (logged_pending cfg) who s) (\<lambda>y cs. \<forall>q e. PvList q (Inl e) \<in> set cs \<longrightarrow>
     placements cs = [] \<and> snd (fst y) = Some (Wrapped [e]) \<and>
     ps_cursors (snd y) (pr_shard (fst (fst y))) =
       (if pending_refused_cursor e \<or> dq_cursor q = [] then None else Some (dq_cursor q)))"
  unfolding pending_sweep_def logged_pending_simps Let_def collect_def
proof (intro emits_call emits_case_option emits_case_prod emits_case_sum, goal_cases)
  case (2 auth n p s1 q shard cursor now)
  show ?case
  proof (rule emits_sub [OF emits_both [OF collect_pages_emits collect_pages_failed]], rule emits_case_option, goal_cases)
    case (1 c cs)
    then have no: "PvList q (Inl e) \<notin> set cs" for q e by auto
    have "emits (place_sessions (logged_pending cfg) ss res) (\<lambda>x ds. \<forall>q e. PvList q (Inl e) \<notin> set ds)" for ss res
      by (induction ss arbitrary: res) (auto simp: Let_def logged_placer_apply intro!: emits_ret emits_call emits_if emits_case_option elim: emits_weaken)
    then show ?case by (rule emits_sub) (rule emits_ret, use no in auto)
  next
    case (2 c cs err)
    then show ?case
      by (intro emits_ret) (auto simp: pending_commit_def tallied_def)
  qed
qed (auto intro!: emits_ret)



section \<open>What an admission promises\<close>

lemma add_entry_identity [simp]:
  "os_tenant (add_entry e now s) = os_tenant s" "os_id (add_entry e now s) = os_id s"
  by (simp_all add: add_entry_def add_pending_def Let_def split: inbox_state.split command_kind.split)

lemma add_all_emits:
  "emits (add_all (logged_pending cfg) es s)
     (\<lambda>x cs. placements cs = [] \<and> os_tenant x = os_tenant s \<and> os_id x = os_id s)"
proof (induction es arbitrary: s)
  case (Cons e es)
  show ?case unfolding add_all.simps logged_pending_simps
    by (rule emits_call, rule emits_weaken [OF Cons.IH]) simp
next
  case Nil
  show ?case unfolding add_all.simps by (rule emits_ret) simp
qed

lemma admission_session_loop_emits:
  "emits (admission_session_loop (logged_pending cfg) (\<lambda>q. logged (PvHistory q) (f q)) n pages after s)
     (\<lambda>x cs. placements cs = [] \<and> (\<forall>t. x = Inr t \<longrightarrow> os_tenant t = os_tenant s \<and> os_id t = os_id s))"
proof (induction pages arbitrary: after s)
  case (Suc pages)
  show ?case unfolding admission_session_loop.simps logged_pending_simps
  proof (rule emits_call, rule emits_case_sum, goal_cases)
    case (2 r p)
    show ?case
    proof (rule emits_if, (rule emits_ret, simp), rule emits_if, (rule emits_ret, simp),
        rule emits_sub [OF add_all_emits], rule emits_if, (rule emits_ret, simp), rule emits_if, (rule emits_ret, simp), goal_cases)
      case (1 t cs)
      then show ?case
        by (intro emits_weaken [OF Suc.IH]) (elim conjE, intro conjI, simp only: placements_simps append_Nil2, metis)
    qed
  qed (intro emits_ret, simp)
next
  case 0
  show ?case unfolding admission_session_loop.simps by (rule emits_ret) simp
qed

definition is_target :: "admission_notice \<Rightarrow> perr + open_session option \<Rightarrow> bool" where
  "is_target n x \<longleftrightarrow>
     (\<forall>t. x = Inr (Some t) \<longrightarrow> os_tenant t = an_tenant n \<and> os_id t = an_session n \<and> an_command n \<in> set (os_wake t))"

lemma is_target_simps [simp]: "is_target n (Inl err)" "is_target n (Inr None)"
  by (simp_all add: is_target_def)

lemma admission_fallback_loop_emits:
  "emits (admission_fallback_loop (logged_pending cfg) n shards remaining) (\<lambda>x cs. placements cs = [] \<and> is_target n x)"
proof (induction shards arbitrary: remaining)
  case (Cons shard shards)
  show ?case unfolding admission_fallback_loop.simps logged_pending_simps Let_def
    by (intro emits_if emits_ret emits_call emits_sub [OF collect_pages_emits] emits_case_option emits_weaken [OF Cons.IH])
      (auto simp: is_target_def dest: find_SomeD)
qed (simp add: emits_ret)

lemma admission_fallback_emits:
  "emits (admission_fallback (logged_pending cfg) n) (\<lambda>x cs. placements cs = [] \<and> is_target n x)"
  unfolding admission_fallback_def logged_pending_simps
  by (rule emits_call, rule emits_weaken [OF admission_fallback_loop_emits]) simp

lemma admission_session_emits:
  "emits (admission_session (logged_pending cfg) (\<lambda>q. logged (PvHistory q) (f q)) n) (\<lambda>x cs. placements cs = [] \<and> is_target n x)"
  unfolding admission_session_def logged_pending_simps
  by (rule emits_sub [OF admission_session_loop_emits], intro emits_case_sum emits_if emits_ret emits_weaken [OF admission_fallback_emits])
    (auto simp: is_target_def new_open_session_def)

lemma admission_owned_emits: "emits (admission_owned (logged_pending cfg) n) (\<lambda>x cs. placements cs = [])"
proof (cases "pg_catalog cfg"; cases "pg_directory cfg")
  fix get owner
  assume "pg_catalog cfg = Some get" "pg_directory cfg = Some owner"
  then show ?thesis unfolding admission_owned_def logged_pending_simps
    by (simp, intro emits_call emits_case_sum emits_case_option emits_ret) simp_all
qed (simp_all add: admission_owned_def emits_ret)

text \<open>The placement of an admission: at most one call of the placer, the last, for the command noticed.\<close>

definition admits :: "admission_notice \<Rightarrow> result \<times> perr option \<Rightarrow> pending_event list \<Rightarrow> bool" where
  "admits n y cs \<longleftrightarrow> placements cs = [] \<or>
     (\<exists>req pre. cs = pre @ [PvPlace req y] \<and> placements pre = [] \<and> PvAuth None \<in> set pre \<and> an_pending n \<and>
        (\<exists>now. PvNow now \<in> set pre \<and> now < an_deadline n) \<and>
        rq_tenant req = an_tenant n \<and> rq_session req = an_session n \<and> an_command n \<in> set (rq_wake req))"

lemma place_target_emits:
  assumes "is_target n (Inr target)"
  shows "emits (place_target (logged_placer place) target) (\<lambda>y es. es = [] \<or>
     (\<exists>req. es = [PvPlace req y] \<and> rq_tenant req = an_tenant n \<and> rq_session req = an_session n \<and> an_command n \<in> set (rq_wake req)))"
  unfolding place_target_def logged_placer_apply
  by (intro emits_case_option emits_if emits_ret emits_logged) (use assms in \<open>auto simp: is_target_def request_of_def\<close>)

lemma place_admission_emits:
  "emits (place_admission_with (logged_pending cfg) who n (logged_placer place)) (admits n)"
  unfolding place_admission_with_def logged_pending_simps
proof (rule emits_call, rule emits_case_option, goal_cases)
  case (1 auth)
  let ?expired = "if \<not> an_pending n then ret True else logged PvNow (pg_now cfg) \<bind> (\<lambda>now. ret (\<not> now < an_deadline n))"
  have exp: "emits ?expired (\<lambda>x cs. placements cs = [] \<and> (\<not> x \<longrightarrow> an_pending n \<and> (\<exists>now. PvNow now \<in> set cs \<and> now < an_deadline n)))"
    by (intro emits_if emits_ret emits_call) auto
  let ?target = "case map_option (\<lambda>f q. logged (PvHistory q) (f q)) (pg_session_commands cfg) of
      Some list_page \<Rightarrow> admission_session (logged_pending cfg) list_page n | None \<Rightarrow> admission_fallback (logged_pending cfg) n"
  have target: "emits ?target (\<lambda>x cs. placements cs = [] \<and> is_target n x)"
    using admission_session_emits admission_fallback_emits by (cases "pg_session_commands cfg") simp_all
  show ?case
  proof (rule emits_sub [OF exp], rule emits_if, (rule emits_ret, simp add: admits_def),
      rule emits_sub [OF admission_owned_emits], rule emits_case_sum, (rule emits_ret, simp add: admits_def), goal_cases)
    case (1 expired cs known ds owned)
    show ?case
    proof (cases owned)
      case True
      then show ?thesis using 1 by (simp, intro emits_ret) (simp add: admits_def)
    next
      case False
      have "emits (?target \<bind> (\<lambda>t. case t of Inl err \<Rightarrow> ret (zero_result, Some err) | Inr target \<Rightarrow> place_target (logged_placer place) target))
         (\<lambda>y es. admits n y (PvAuth auth # cs @ ds @ es))"
      proof (rule emits_sub [OF target], rule emits_case_sum, goal_cases)
        case (1 t es err)
        then show ?case using \<open>placements cs = [] \<and> _\<close> \<open>placements ds = []\<close> by (intro emits_ret) (simp add: admits_def)
      next
        case (2 t es target)
        then show ?case using \<open>placements cs = [] \<and> _\<close> \<open>placements ds = []\<close> \<open>auth = None\<close> \<open>\<not> expired\<close>
          by (intro emits_weaken [OF place_target_emits]) (auto simp: admits_def)
      qed
      then show ?thesis using False by simp
    qed
  qed
next
  case (2 auth err)
  then show ?case by (intro emits_ret) (simp add: admits_def)
qed



end
