(* ===== verification/Composition.thy ===== *)
theory Composition
  imports Discipline Pending
begin

text \<open>
  Placement composed: the pending-work sweep and the targeted placement of an admission drive the
  reconciler through the placer interface. The locale states the claim discipline of a placer,
  what its clients do then is proved once, and the reconciler is shown to have it.
\<close>

section \<open>Quiet seams\<close>

text \<open>A seam of the client beside a log it does not write to.\<close>

definition unlogged :: "('v, 'a) state \<Rightarrow> ('v \<times> 'c list, 'a) state" where
  "unlogged m = State (\<lambda>(v, l). case run_state m v of (x, v') \<Rightarrow> (x, (v', l)))"

lemma obeys_unlogged:
  assumes "\<And>x. obeys t s (f x) Q"
  shows "obeys t s (State_Monad.bind (unlogged m) f) Q"
proof -
  have "emits (unlogged m) (\<lambda>_ cs. cs = [])"
    unfolding emits_def unlogged_def by (auto split: prod.split)
  then have "obeys t s (unlogged m) (\<lambda>_ s'. s' = s)"
    unfolding obeys_def by (rule emits_weaken) simp
  then show ?thesis by (rule obeys_sub) (simp add: assms)
qed

text \<open>A client over a given placer, its own seams beside the placer's log.\<close>

definition with_placer ::
  "('v, 'p) pending_config \<Rightarrow> ('v \<times> place_event list) placer \<Rightarrow> ('v \<times> place_event list, 'p) pending_config" where
  "with_placer cfg place =
     \<lparr>pg_authorize = \<lambda>who. unlogged (pg_authorize cfg who), pg_shards = unlogged (pg_shards cfg),
      pg_list = \<lambda>q. unlogged (pg_list cfg q),
      pg_session_commands = map_option (\<lambda>f q. unlogged (f q)) (pg_session_commands cfg),
      pg_placer = place, pg_admission_placer = None,
      pg_catalog = map_option (\<lambda>f k. unlogged (f k)) (pg_catalog cfg),
      pg_directory = map_option (\<lambda>f t s. unlogged (f t s)) (pg_directory cfg),
      pg_now = unlogged (pg_now cfg), pg_ctx = unlogged (pg_ctx cfg), pg_horizon = pg_horizon cfg,
      pg_page_limit = pg_page_limit cfg, pg_max_pages = pg_max_pages cfg, pg_least = pg_least cfg\<rparr>"

lemma with_placer_simps [simp]:
  "pg_authorize (with_placer cfg place) who = unlogged (pg_authorize cfg who)"
  "pg_shards (with_placer cfg place) = unlogged (pg_shards cfg)"
  "pg_list (with_placer cfg place) q = unlogged (pg_list cfg q)"
  "pg_session_commands (with_placer cfg place) = map_option (\<lambda>f q. unlogged (f q)) (pg_session_commands cfg)"
  "pg_placer (with_placer cfg place) = place" "pg_admission_placer (with_placer cfg place) = None"
  "pg_catalog (with_placer cfg place) = map_option (\<lambda>f k. unlogged (f k)) (pg_catalog cfg)"
  "pg_directory (with_placer cfg place) = map_option (\<lambda>f t s. unlogged (f t s)) (pg_directory cfg)"
  "pg_now (with_placer cfg place) = unlogged (pg_now cfg)" "pg_ctx (with_placer cfg place) = unlogged (pg_ctx cfg)"
  by (simp_all add: with_placer_def)

section \<open>The claim discipline of a placer\<close>

text \<open>
  The claim held, if any: one at a time, for the replica's own holder; an acting call only while
  one is held; a release only of the one held.
\<close>

definition claim_track :: "string \<Rightarrow> session_key option \<Rightarrow> place_event \<Rightarrow> session_key option option" where
  "claim_track holder s e =
     (case e of
        EvAcquire q r \<Rightarrow>
          if s \<noteq> None then None
          else if r \<noteq> None then Some None
          else if cl_holder q = holder then Some (Some (cl_key q)) else None
      | EvRelease k h \<Rightarrow> if s = Some k \<and> h = holder then Some None else None
      | _ \<Rightarrow> if acting e \<and> s = None then None else Some s)"

locale claiming_placer =
  fixes holder :: string
    and place :: "('v \<times> place_event list) placer"
  assumes place_claims: "obeys (claim_track holder) None (place req) (\<lambda>_ s. s = None)"
begin

abbreviation quiet_client :: "('v \<times> place_event list, 'a) state \<Rightarrow> bool" where
  "quiet_client m \<equiv> obeys (claim_track holder) None m (\<lambda>_ s. s = None)"

lemma collect_pages_quiet: "quiet_client (collect_pages (with_placer cfg place) shard now n cursor ss res)"
proof (induction n arbitrary: cursor ss res)
  case (Suc n)
  show ?case unfolding collect_pages.simps with_placer_simps Let_def
    by (intro obeys_unlogged obeys_case_sum obeys_if obeys_ret Suc.IH refl)
qed (simp add: obeys_ret)

lemma place_sessions_quiet: "quiet_client (place_sessions (with_placer cfg place) ss res)"
proof (induction ss arbitrary: res)
  case (Cons s ss)
  show ?case unfolding place_sessions.simps with_placer_simps Let_def
    by (intro obeys_if Cons.IH obeys_sub [OF place_claims])
      (simp_all only:, (intro obeys_unlogged obeys_case_option obeys_ret Cons.IH refl)+)
qed (simp add: obeys_ret)

lemma pending_sweep_quiet: "quiet_client (pending_sweep (with_placer cfg place) who s)"
  unfolding pending_sweep_def with_placer_simps collect_def Let_def
  by (intro obeys_unlogged obeys_case_option obeys_case_prod obeys_case_sum obeys_ret refl obeys_sub [OF collect_pages_quiet])
    (simp_all, intro obeys_case_option obeys_ret refl obeys_sub [OF place_sessions_quiet], simp)

lemma add_all_quiet: "quiet_client (add_all (with_placer cfg place) es s)"
proof (induction es arbitrary: s)
  case (Cons e es)
  show ?case unfolding add_all.simps with_placer_simps by (intro obeys_unlogged Cons.IH)
qed (simp add: obeys_ret)

lemma admission_session_loop_quiet:
  "quiet_client (admission_session_loop (with_placer cfg place) (\<lambda>q. unlogged (f q)) n pages after s)"
proof (induction pages arbitrary: after s)
  case (Suc pages)
  show ?case unfolding admission_session_loop.simps
    by (intro obeys_unlogged obeys_case_sum obeys_if obeys_ret refl obeys_sub [OF add_all_quiet])
      (simp_all only:, intro obeys_if obeys_ret refl Suc.IH)
qed (simp add: obeys_ret)

lemma admission_fallback_loop_quiet:
  "quiet_client (admission_fallback_loop (with_placer cfg place) n shards remaining)"
proof (induction shards arbitrary: remaining)
  case (Cons shard shards)
  show ?case unfolding admission_fallback_loop.simps with_placer_simps Let_def
    by (intro obeys_if obeys_ret obeys_unlogged refl obeys_sub [OF collect_pages_quiet])
      (simp_all only:, intro obeys_case_option obeys_if obeys_ret refl Cons.IH)
qed (simp add: obeys_ret)

lemma admission_fallback_quiet: "quiet_client (admission_fallback (with_placer cfg place) n)"
  unfolding admission_fallback_def with_placer_simps
  by (intro obeys_unlogged admission_fallback_loop_quiet)

lemma admission_session_quiet:
  "quiet_client (admission_session (with_placer cfg place) (\<lambda>q. unlogged (f q)) n)"
  unfolding admission_session_def
  by (rule obeys_sub [OF admission_session_loop_quiet])
    (simp only:, intro obeys_case_sum obeys_if obeys_ret refl admission_fallback_quiet)

lemma admission_owned_quiet: "quiet_client (admission_owned (with_placer cfg place) n)"
proof (cases "pg_catalog cfg"; cases "pg_directory cfg")
  fix get owner
  assume "pg_catalog cfg = Some get" "pg_directory cfg = Some owner"
  then show ?thesis unfolding admission_owned_def with_placer_simps
    by (simp, intro obeys_unlogged obeys_case_sum obeys_case_option obeys_ret refl)
qed (simp_all add: admission_owned_def obeys_ret)

lemma place_target_quiet: "quiet_client (place_target place t)"
  unfolding place_target_def by (intro obeys_case_option obeys_if obeys_ret refl place_claims)

lemma admission_target_quiet:
  "quiet_client (case pg_session_commands (with_placer cfg place) of
     Some list_page \<Rightarrow> admission_session (with_placer cfg place) list_page n
   | None \<Rightarrow> admission_fallback (with_placer cfg place) n)"
  by (cases "pg_session_commands cfg") (simp_all add: admission_fallback_quiet admission_session_quiet)

lemma place_admission_quiet: "quiet_client (place_admission (with_placer cfg place) who n)"
proof -
  have target: "quiet_client (State_Monad.bind
      (case pg_session_commands (with_placer cfg place) of
         Some list_page \<Rightarrow> admission_session (with_placer cfg place) list_page n
       | None \<Rightarrow> admission_fallback (with_placer cfg place) n)
      (\<lambda>t. case t of Inl err \<Rightarrow> ret (zero_result, Some err) | Inr target \<Rightarrow> place_target place target))"
    by (rule obeys_sub [OF admission_target_quiet]) (simp only:, intro obeys_case_sum obeys_ret refl place_target_quiet)
  have decide: "quiet_client (case known of Inl err \<Rightarrow> ret (zero_result, Some err)
      | Inr True \<Rightarrow> ret (zero_result, None) | Inr False \<Rightarrow> m)"
    if "quiet_client m" for known :: "perr + bool" and m :: "('v \<times> place_event list) placing"
    using that by (simp add: obeys_ret split: sum.split bool.split)
  have expiry: "quiet_client (if \<not> an_pending n then ret True
      else State_Monad.bind (pg_now (with_placer cfg place)) (\<lambda>now. ret (\<not> now < an_deadline n)))"
    unfolding with_placer_simps by (intro obeys_if obeys_ret obeys_unlogged refl)
  show ?thesis
    unfolding place_admission_def place_admission_with_def with_placer_simps(1) with_placer_simps(5,6) option.case
    by (intro obeys_unlogged obeys_case_option obeys_ret refl obeys_sub [OF expiry])
      (simp only:, intro obeys_if obeys_ret refl obeys_sub [OF admission_owned_quiet], simp only: decide target)
qed

end

section \<open>The reconciler is such a placer\<close>

text \<open>The reconciler as the placer of the sweep, its report table beside the world.\<close>

definition reconcile_placer :: "'w place_config \<Rightarrow> (('w \<times> reports) \<times> place_event list) placer" where
  "reconcile_placer cfg req = State (\<lambda>((w, rp), l).
     case run_state (reconcile (logged_config cfg) req rp) (w, l) of
       ((x, rp'), (w', l')) \<Rightarrow> (x, ((w', rp'), l')))"

definition held_key :: "place_request \<Rightarrow> monitor \<Rightarrow> session_key option" where
  "held_key req s = (if mo_phase s = Held then Some (rq_key req) else None)"

lemma track_claims:
  assumes "place_track cfg req s e = Some s'"
  shows "claim_track (pc_holder cfg) (held_key req s) e = Some (held_key req s')"
  using track_phase [OF assms]
  by (cases e) (auto simp: claim_track_def held_key_def split: option.splits)

lemma run_track_claims:
  "run_monitor (place_track cfg req) s cs = Some s' \<Longrightarrow>
     run_monitor (claim_track (pc_holder cfg)) (held_key req s) cs = Some (held_key req s')"
proof (induction cs arbitrary: s)
  case (Cons e cs)
  then obtain s1 where "place_track cfg req s e = Some s1" "run_monitor (place_track cfg req) s1 cs = Some s'"
    by (auto split: option.splits)
  with Cons.IH track_claims [of cfg req s e s1] show ?case by simp
qed simp

lemma reconcile_placer_claims:
  "obeys (claim_track (pc_holder cfg)) None (reconcile_placer cfg req) (\<lambda>_ s. s = None)"
  unfolding obeys_def emits_def
proof (intro allI, goal_cases)
  case (1 v l)
  obtain w rp where v: "v = (w, rp)" by (cases v)
  obtain x rp' w' cs s' where r: "run_state (reconcile (logged_config cfg) req rp) (w, l) = ((x, rp'), (w', l @ cs))"
    and s: "run_monitor (place_track cfg req) unclaimed cs = Some s'" "mo_phase s' \<noteq> Held"
    using reconcile_obeys [of cfg req rp] unfolding obeys_def emits_def by (metis surj_pair)
  have "run_monitor (claim_track (pc_holder cfg)) None cs = Some None"
    using run_track_claims [OF s(1)] s(2) by (simp add: held_key_def unclaimed_def)
  with r show ?case by (simp add: v reconcile_placer_def)
qed

interpretation reconciling: claiming_placer "pc_holder cfg" "reconcile_placer cfg"
  by unfold_locales (rule reconcile_placer_claims)

section \<open>What the discipline says of a trace\<close>

text \<open>Each acting call has the acquisition it stands under, not yet given back.\<close>

definition under_claim :: "string \<Rightarrow> session_key \<Rightarrow> place_event list \<Rightarrow> bool" where
  "under_claim holder k pre \<longleftrightarrow>
     (\<exists>pre1 q mid. pre = pre1 @ EvAcquire q None # mid \<and> cl_key q = k \<and> cl_holder q = holder \<and>
        (\<forall>e \<in> set mid. \<not> claim_event e))"

definition claims_taken :: "place_event list \<Rightarrow> nat" where
  "claims_taken cs = length (filter (\<lambda>e. case e of EvAcquire q None \<Rightarrow> True | _ \<Rightarrow> False) cs)"

definition claims_given :: "place_event list \<Rightarrow> nat" where
  "claims_given cs = length (filter (\<lambda>e. case e of EvRelease k h \<Rightarrow> True | _ \<Rightarrow> False) cs)"

definition claim_trace :: "string \<Rightarrow> session_key option \<Rightarrow> place_event list \<Rightarrow> bool" where
  "claim_trace holder s cs \<longleftrightarrow>
     (\<forall>k. s = Some k \<longrightarrow> under_claim holder k cs) \<and>
     claims_taken cs = claims_given cs + (if s = None then 0 else 1) \<and>
     (\<forall>pre e post. cs = pre @ e # post \<longrightarrow> acting e \<or> (\<exists>k h. e = EvRelease k h) \<longrightarrow> (\<exists>k. under_claim holder k pre))"

lemma under_claim_snoc: "under_claim holder k cs \<Longrightarrow> \<not> claim_event e \<Longrightarrow> under_claim holder k (cs @ [e])"
  unfolding under_claim_def by fastforce

lemma claim_trace_step:
  assumes "claim_trace holder s cs" "claim_track holder s e = Some s'"
  shows "claim_trace holder s' (cs @ [e])"
proof -
  have old: "cs = pre @ x # post \<Longrightarrow> acting x \<or> (\<exists>k h. x = EvRelease k h) \<Longrightarrow> \<exists>k. under_claim holder k pre" for pre x post
    using assms(1) unfolding claim_trace_def by blast
  have under: "s = Some k \<Longrightarrow> under_claim holder k cs" for k
    using assms(1) unfolding claim_trace_def by blast
  have kept: "claims_taken cs = claims_given cs + (if s = None then 0 else 1)"
    using assms(1) unfolding claim_trace_def by blast
  have "acting e \<or> (\<exists>k h. e = EvRelease k h) \<Longrightarrow> s \<noteq> None"
    using assms(2) by (auto simp: claim_track_def acting_def split: place_event.splits if_splits)
  then have new: "acting e \<or> (\<exists>k h. e = EvRelease k h) \<Longrightarrow> \<exists>k. under_claim holder k cs"
    using under by blast
  have count: "claims_taken (cs @ [e]) = claims_given (cs @ [e]) + (if s' = None then 0 else 1)"
    using kept assms(2) by (cases e) (auto simp: claim_track_def claims_taken_def claims_given_def split: if_splits option.splits)
  have held: "s' = Some k \<Longrightarrow> under_claim holder k (cs @ [e])" for k
  proof (cases "claim_event e")
    case True
    moreover assume "s' = Some k"
    ultimately obtain q where "e = EvAcquire q None" "cl_key q = k" "cl_holder q = holder"
      using assms(2) by (auto simp: claim_track_def claim_event_def split: place_event.splits if_splits)
    then show ?thesis unfolding under_claim_def by fastforce
  next
    case False
    moreover assume "s' = Some k"
    ultimately have "s = Some k"
      using assms(2) by (auto simp: claim_track_def claim_event_def split: place_event.splits if_splits)
    with under False show ?thesis by (simp add: under_claim_snoc)
  qed
  have "cs @ [e] = pre @ x # post \<Longrightarrow> acting x \<or> (\<exists>k h. x = EvRelease k h) \<Longrightarrow> \<exists>k. under_claim holder k pre" for pre x post
    using old [of pre x "butlast post"] new by (cases post rule: rev_cases) auto
  with count held show ?thesis unfolding claim_trace_def by blast
qed

lemma run_claim_trace:
  assumes "run_monitor (claim_track holder) None cs = Some s'"
  shows "claim_trace holder s' cs"
  by (rule run_monitor_invariant [OF assms, of "claim_trace holder"])
    (simp add: claim_trace_def claims_taken_def claims_given_def, rule claim_trace_step)

lemma obeys_claim_trace:
  assumes "obeys (claim_track holder) None m (\<lambda>_ s. s = None)" "run_state m (v, []) = (x, (v', cs))"
  shows "claim_trace holder None cs"
  using obeys_run_Nil [OF assms] run_claim_trace by metis

end
