(* ===== verification/Gates.thy ===== *)
theory Gates
  imports Rotor
begin

text \<open>
  The gate sweep of \<open>internal/reconcile/gates.go\<close>: one control shard per pass, the stale gate
  deadline intents of its due view are retired and a gate that is still open is only counted.
  The authorizer, the due view, the retirement and the clock are seams over an arbitrary world;
  the bounds of the page limit and of the shard count are constants of the store.
\<close>

section \<open>Data\<close>

record remnant =
  rm_tenant :: tenant_id
  rm_session :: session_id
  rm_gate :: string
  rm_revision :: u64

text \<open>A page of the due view: its rows are the remnants, and it has the gates still open.\<close>

record gates_page = "remnant due_page" +
  gp_gates :: "string list"

record ('w, 'p) gate_config =
  gc_authorize :: "'p \<Rightarrow> ('w, cerr option) state"
  gc_shards :: "('w, int) state"
  gc_list :: "due_request \<Rightarrow> ('w, cerr + gates_page) state"
  gc_retire :: "remnant \<Rightarrow> ('w, cerr option) state"
  gc_now :: "('w, time) state"
  gc_page_limit :: int
  gc_max_pages :: int
  gc_least :: int \<comment> \<open>the least number of control shards of the store\<close>

datatype gate_disposition = GateRetired | GateTooSoon | GateReopened | GateRaceLost | GateAbsent

definition gate_disposition_string :: "gate_disposition \<Rightarrow> string" where
  "gate_disposition_string d =
     (case d of
        GateRetired \<Rightarrow> ''retired''
      | GateTooSoon \<Rightarrow> ''too_soon''
      | GateReopened \<Rightarrow> ''reopened''
      | GateRaceLost \<Rightarrow> ''race_lost''
      | GateAbsent \<Rightarrow> ''absent'')"

record gate_result =
  gr_shard :: int
  gr_pages :: int
  gr_examined :: int
  gr_unreadable :: int
  gr_remnants :: int
  gr_open :: int
  gr_retired :: int
  gr_dispositions :: "gate_disposition \<Rightarrow> int"
  gr_queries :: int
  gr_resumed :: bool
  gr_exhausted :: bool
  gr_truncated :: bool

definition zero_gate_result :: gate_result where
  "zero_gate_result =
     \<lparr>gr_shard = 0, gr_pages = 0, gr_examined = 0, gr_unreadable = 0, gr_remnants = 0, gr_open = 0,
      gr_retired = 0, gr_dispositions = \<lambda>_. 0, gr_queries = 0, gr_resumed = False, gr_exhausted = False,
      gr_truncated = False\<rparr>"

record gate_sweeper =
  gs_next :: int
  gs_cursors :: "int \<Rightarrow> cursor option"

definition new_gate_sweeper ::
  "int \<Rightarrow> bool \<Rightarrow> bool \<Rightarrow> bool \<Rightarrow> bool \<Rightarrow> int \<Rightarrow> int \<Rightarrow> cerr + gate_sweeper" where
  \<comment> \<open>The first argument is the storage module's page bound; the flags say which seams were supplied.\<close>
  "new_gate_sweeper max_page authorizer due intents clock page_limit max_pages =
     (if \<not> authorizer then Inl (Wrapped [Sentinel ErrInvalidGateSweeperConfig])
      else if \<not> due then Inl (Wrapped [Sentinel ErrInvalidGateSweeperConfig])
      else if \<not> intents then Inl (Wrapped [Sentinel ErrInvalidGateSweeperConfig])
      else if \<not> clock then Inl (Wrapped [Sentinel ErrInvalidGateSweeperConfig])
      else if page_limit < 1 \<or> page_limit > max_page then Inl (Wrapped [Sentinel ErrInvalidGateSweeperConfig])
      else if max_pages < 1 then Inl (Wrapped [Sentinel ErrInvalidGateSweeperConfig])
      else Inr \<lparr>gs_next = 0, gs_cursors = \<lambda>_. None\<rparr>)"

section \<open>The rotor\<close>

definition gate_begin :: "int \<Rightarrow> int \<Rightarrow> gate_sweeper \<Rightarrow> (cerr + int \<times> cursor) \<times> gate_sweeper" where
  "gate_begin least shards s =
     (if shards < least then (Inl (Opaque ''no shard can be swept''), s)
      else
        let s1 = (if gs_next s \<ge> shards then s\<lparr>gs_next := 0\<rparr> else s);
            s2 = s1\<lparr>gs_cursors := \<lambda>shard. if shard \<ge> shards then None else gs_cursors s1 shard\<rparr>;
            shard = gs_next s2;
            s3 = s2\<lparr>gs_next := (shard + 1) mod shards\<rparr>
        in (Inr (shard, kept_or_head (gs_cursors s3 shard)), s3))"

definition gate_commit :: "int \<Rightarrow> cursor \<Rightarrow> gate_sweeper \<Rightarrow> gate_sweeper" where
  "gate_commit shard cursor s =
     (if cursor = [] then s\<lparr>gs_cursors := (gs_cursors s)(shard := None)\<rparr>
      else s\<lparr>gs_cursors := (gs_cursors s)(shard \<mapsto> cursor)\<rparr>)"

section \<open>Retirement\<close>

definition classify_retirement :: "cerr option \<Rightarrow> gate_disposition option" where
  "classify_retirement e =
     (case e of
        None \<Rightarrow> Some GateRetired
      | Some err \<Rightarrow>
          (case errors_as control_catalog err of
             None \<Rightarrow> None
           | Some (code, field) \<Rightarrow>
               if code = CatalogTooSoon then Some GateTooSoon
               else if code = CatalogConflict \<and> field = ''gate_id'' then Some GateReopened
               else if code = CatalogConflict \<and> field = ''gate_intent'' then Some GateRaceLost
               else if code = CatalogNotFound \<and> field = ''gate_intent'' then Some GateAbsent
               else None))"

definition gate_refused_cursor :: "cerr \<Rightarrow> bool" where
  "gate_refused_cursor err \<longleftrightarrow> map_option fst (errors_as control_catalog err) = Some CatalogCursor"

definition note_disposition :: "gate_disposition \<Rightarrow> gate_result \<Rightarrow> gate_result" where
  "note_disposition d res =
     (let res1 = res\<lparr>gr_dispositions := (gr_dispositions res)(d := gr_dispositions res d + 1)\<rparr>
      in if d = GateRetired then res1\<lparr>gr_retired := gr_retired res1 + 1\<rparr> else res1)"

lemma note_disposition_simps [simp]:
  "gr_shard (note_disposition d res) = gr_shard res" "gr_resumed (note_disposition d res) = gr_resumed res"
  "gr_queries (note_disposition d res) = gr_queries res" "gr_pages (note_disposition d res) = gr_pages res"
  "gr_remnants (note_disposition d res) = gr_remnants res" "gr_open (note_disposition d res) = gr_open res"
  "gr_retired (note_disposition d res) = gr_retired res + (if d = GateRetired then 1 else 0)"
  "gr_dispositions (note_disposition d res) = (gr_dispositions res)(d := gr_dispositions res d + 1)"
  by (simp_all add: note_disposition_def Let_def)

definition retire_gate ::
  "('w, 'p) gate_config \<Rightarrow> remnant \<Rightarrow> gate_result \<Rightarrow> ('w, cerr option \<times> gate_result) state" where
  "retire_gate cfg rem res = do {
     let res1 = res\<lparr>gr_queries := gr_queries res + 1\<rparr>;
     e \<leftarrow> gc_retire cfg rem;
     case classify_retirement e of
       None \<Rightarrow> ret (Some (Wrapped [the e]), res1)
     | Some d \<Rightarrow> ret (None, note_disposition d res1)
   }"

fun retire_all ::
  "('w, 'p) gate_config \<Rightarrow> remnant list \<Rightarrow> gate_result \<Rightarrow> ('w, cerr option \<times> gate_result) state" where
  "retire_all cfg [] res = ret (None, res)"
| "retire_all cfg (rem # rems) res = do {
     x \<leftarrow> retire_gate cfg rem res;
     case x of
       (Some err, res1) \<Rightarrow> ret (Some err, res1)
     | (None, res1) \<Rightarrow> retire_all cfg rems res1
   }"

section \<open>A pass\<close>

definition gates_request :: "('w, 'p) gate_config \<Rightarrow> int \<Rightarrow> time \<Rightarrow> cursor \<Rightarrow> due_request" where
  "gates_request cfg shard now cursor =
     \<lparr>dq_shard = shard, dq_limit = gc_page_limit cfg, dq_cursor = cursor,
      dq_bound = (if cursor = [] then Some now else None)\<rparr>"

definition note_page :: "gates_page \<Rightarrow> gate_result \<Rightarrow> gate_result" where
  "note_page p res =
     res\<lparr>gr_pages := gr_pages res + 1, gr_examined := gr_examined res + dp_examined p,
         gr_unreadable := gr_unreadable res + dp_unreadable p,
         gr_remnants := gr_remnants res + int (length (dp_rows p)),
         gr_open := gr_open res + int (length (gp_gates p))\<rparr>"

fun gate_page_loop ::
  "('w, 'p) gate_config \<Rightarrow> int \<Rightarrow> time \<Rightarrow> nat \<Rightarrow> cursor \<Rightarrow> gate_result \<Rightarrow>
   ('w, (cursor \<times> cerr option) \<times> gate_result) state" where
  "gate_page_loop cfg shard now 0 cursor res = ret ((cursor, None), res\<lparr>gr_truncated := True\<rparr>)"
| "gate_page_loop cfg shard now (Suc pages) cursor res = do {
     let res1 = res\<lparr>gr_queries := gr_queries res + 1\<rparr>;
     r \<leftarrow> gc_list cfg (gates_request cfg shard now cursor);
     case r of
       Inl err \<Rightarrow>
         if gate_refused_cursor err then ret (([], Some (Wrapped [err])), res1)
         else ret ((cursor, Some (Wrapped [err])), res1)
     | Inr p \<Rightarrow> do {
         x \<leftarrow> retire_all cfg (dp_rows p) (note_page p res1);
         case x of
           (Some err, res2) \<Rightarrow> ret ((cursor, Some err), res2)
         | (None, res2) \<Rightarrow>
             if dp_next p = [] then ret (([], None), res2\<lparr>gr_exhausted := True\<rparr>)
             else gate_page_loop cfg shard now pages (dp_next p) res2
       }
   }"

definition gate_page ::
  "('w, 'p) gate_config \<Rightarrow> int \<Rightarrow> cursor \<Rightarrow> gate_result \<Rightarrow> ('w, (cursor \<times> cerr option) \<times> gate_result) state" where
  "gate_page cfg shard cursor res = do {
     now \<leftarrow> gc_now cfg;
     gate_page_loop cfg shard now (nat (gc_max_pages cfg)) cursor res
   }"

definition gate_sweep ::
  "('w, 'p) gate_config \<Rightarrow> 'p \<Rightarrow> gate_sweeper \<Rightarrow> ('w, (gate_result \<times> cerr option) \<times> gate_sweeper) state" where
  "gate_sweep cfg who s = do {
     auth \<leftarrow> gc_authorize cfg who;
     case auth of
       Some err \<Rightarrow> ret ((zero_gate_result, Some err), s)
     | None \<Rightarrow> do {
         shards \<leftarrow> gc_shards cfg;
         case gate_begin (gc_least cfg) shards s of
           (Inl err, s1) \<Rightarrow> ret ((zero_gate_result, Some err), s1)
         | (Inr (shard, cursor), s1) \<Rightarrow> do {
             x \<leftarrow> gate_page cfg shard cursor (zero_gate_result\<lparr>gr_shard := shard, gr_resumed := (cursor \<noteq> [])\<rparr>);
             ret ((snd x, snd (fst x)), gate_commit shard (fst (fst x)) s1)
           }
       }
   }"

interpretation gate_rotor: shard_rotor gate_begin gate_commit gs_next gs_cursors
  by unfold_locales (auto simp: gate_begin_def gate_commit_def turn_def kept_or_head_def Let_def)

text \<open>The shard a result is about is the one the pass began with.\<close>

lemma retire_all_shard: "gr_shard res = k \<Longrightarrow> yields (retire_all cfg rems res) (\<lambda>x. gr_shard (snd x) = k)"
proof (induction rems arbitrary: res)
  case Nil
  then show ?case by (simp add: yields_ret)
next
  case (Cons rem rems)
  then have "yields (retire_gate cfg rem res) (\<lambda>x. gr_shard (snd x) = k)"
    unfolding retire_gate_def by (intro yields_intro) simp_all
  then show ?case unfolding retire_all.simps
    by (rule yields_sub) (intro yields_case_prod yields_case_option yields_ret Cons.IH; simp)
qed

lemma gate_page_loop_shard:
  "gr_shard res = k \<Longrightarrow> yields (gate_page_loop cfg shard now n cursor res) (\<lambda>x. gr_shard (snd x) = k)"
proof (induction n arbitrary: cursor res)
  case 0
  then show ?case by (simp add: yields_ret)
next
  case (Suc n)
  show ?case unfolding gate_page_loop.simps Let_def
  proof (rule yields_bind, rule yields_case_sum)
    fix r err
    show "yields (if gate_refused_cursor err then ret (([], Some (Wrapped [err])), res\<lparr>gr_queries := gr_queries res + 1\<rparr>)
        else ret ((cursor, Some (Wrapped [err])), res\<lparr>gr_queries := gr_queries res + 1\<rparr>)) (\<lambda>x. gr_shard (snd x) = k)"
      using Suc.prems by (simp add: yields_ret)
  next
    fix r p
    have "yields (retire_all cfg (dp_rows p) (note_page p (res\<lparr>gr_queries := gr_queries res + 1\<rparr>))) (\<lambda>x. gr_shard (snd x) = k)"
      by (rule retire_all_shard) (simp add: Suc.prems note_page_def)
    then show "yields (retire_all cfg (dp_rows p) (note_page p (res\<lparr>gr_queries := gr_queries res + 1\<rparr>)) \<bind>
        (\<lambda>x. case x of (None, res2) \<Rightarrow> if dp_next p = [] then ret (([], None), res2\<lparr>gr_exhausted := True\<rparr>)
              else gate_page_loop cfg shard now n (dp_next p) res2
            | (Some err, res2) \<Rightarrow> ret ((cursor, Some err), res2))) (\<lambda>x. gr_shard (snd x) = k)"
      by (rule yields_sub) (intro yields_case_prod yields_case_option yields_if yields_ret Suc.IH; simp)
  qed
qed

text \<open>An authorized sweep of a store that reports its shards is one pass of the rotor.\<close>

lemma gate_sweep_pass:
  assumes "gc_authorize cfg = (\<lambda>_. ret None)" "gc_shards cfg = ret n" "gc_least cfg \<le> n"
    "run_state (gate_sweep cfg who s) w = ((x, s'), w')"
  shows "\<exists>c0 s1 c. gate_begin (gc_least cfg) n s = (Inr (gr_shard (fst x), c0), s1) \<and>
    s' = gate_commit (gr_shard (fst x)) c s1"
proof -
  obtain shard c0 s1 where b: "gate_begin (gc_least cfg) n s = (Inr (shard, c0), s1)"
    using gate_rotor.begin_shard [OF assms(3), of s] by (metis prod.collapse)
  have "yields (gate_page cfg shard c0 (zero_gate_result\<lparr>gr_shard := shard, gr_resumed := (c0 \<noteq> [])\<rparr>)) (\<lambda>x. gr_shard (snd x) = shard)"
    unfolding gate_page_def by (intro yields_bind gate_page_loop_shard) simp
  then have "yields (gate_sweep cfg who s) (\<lambda>y. gr_shard (fst (fst y)) = shard \<and> (\<exists>c. snd y = gate_commit shard c s1))"
    unfolding gate_sweep_def assms(1,2) bind_left_identity option.simps b prod.case sum.case
    by (rule yields_sub) (auto intro!: yields_ret)
  from yields_run [OF this assms(4)] show ?thesis using b by auto
qed

interpretation gate_sweeps: shard_sweep gate_begin gate_commit gs_next gs_cursors
  "\<lambda>least n. gate_sweep (cfg\<lparr>gc_authorize := \<lambda>_. ret None, gc_shards := ret n, gc_least := least\<rparr>) who"
  "\<lambda>x. gr_shard (fst x)"
  for cfg :: "('w, 'p) gate_config" and who :: 'p
proof (unfold_locales, goal_cases)
  case (1 least n r w x r' w')
  from gate_sweep_pass [OF _ _ _ 1(2)] 1(1) show ?case by simp
qed

section \<open>The calls of a sweep\<close>

datatype gate_event =
    GvAuth "cerr option"
  | GvShards int
  | GvNow time
  | GvList due_request "cerr + gates_page"
  | GvRetire remnant "cerr option"

definition logged_gates :: "('w, 'p) gate_config \<Rightarrow> ('w \<times> gate_event list, 'p) gate_config" where
  "logged_gates cfg =
     \<lparr>gc_authorize = \<lambda>who. logged GvAuth (gc_authorize cfg who),
      gc_shards = logged GvShards (gc_shards cfg),
      gc_list = \<lambda>q. logged (GvList q) (gc_list cfg q),
      gc_retire = \<lambda>rem. logged (GvRetire rem) (gc_retire cfg rem),
      gc_now = logged GvNow (gc_now cfg),
      gc_page_limit = gc_page_limit cfg, gc_max_pages = gc_max_pages cfg, gc_least = gc_least cfg\<rparr>"

lemma logged_gates_simps [simp]:
  "gc_authorize (logged_gates cfg) who = logged GvAuth (gc_authorize cfg who)"
  "gc_shards (logged_gates cfg) = logged GvShards (gc_shards cfg)"
  "gc_list (logged_gates cfg) q = logged (GvList q) (gc_list cfg q)"
  "gc_retire (logged_gates cfg) rem = logged (GvRetire rem) (gc_retire cfg rem)"
  "gc_now (logged_gates cfg) = logged GvNow (gc_now cfg)"
  "gc_page_limit (logged_gates cfg) = gc_page_limit cfg"
  "gc_max_pages (logged_gates cfg) = gc_max_pages cfg"
  "gc_least (logged_gates cfg) = gc_least cfg"
  "gates_request (logged_gates cfg) = gates_request cfg"
  by (simp_all add: logged_gates_def gates_request_def [abs_def])

text \<open>
  What a pass does, without its counters: from a position and with so many pages left, the
  calls it makes and the position it keeps. A page is dealt with when every one of its
  remnants was answered in a way the sweep understands.
\<close>

definition understood :: "cerr option \<Rightarrow> bool" where
  "understood e \<longleftrightarrow> classify_retirement e \<noteq> None"

definition retirements :: "remnant list \<Rightarrow> cerr option list \<Rightarrow> gate_event list" where
  "retirements rems es = map2 GvRetire rems es"

inductive gate_pass :: "(cursor \<Rightarrow> due_request) \<Rightarrow> nat \<Rightarrow> cursor \<Rightarrow> gate_event list \<Rightarrow> cursor \<Rightarrow> bool \<Rightarrow> bool"
  for rq :: "cursor \<Rightarrow> due_request" where
  truncated: "gate_pass rq 0 c [] c True"
| list_failed: "gate_pass rq (Suc n) c [GvList (rq c) (Inl e)] (if gate_refused_cursor e then [] else c) False"
| retire_failed: "length es < length (dp_rows p) \<Longrightarrow> list_all understood es \<Longrightarrow> \<not> understood e \<Longrightarrow>
    gate_pass rq (Suc n) c (GvList (rq c) (Inr p) # retirements (dp_rows p) (es @ [e])) c False"
| exhausted: "length es = length (dp_rows p) \<Longrightarrow> list_all understood es \<Longrightarrow> dp_next p = [] \<Longrightarrow>
    gate_pass rq (Suc n) c (GvList (rq c) (Inr p) # retirements (dp_rows p) es) [] True"
| next_page: "length es = length (dp_rows p) \<Longrightarrow> list_all understood es \<Longrightarrow> dp_next p \<noteq> [] \<Longrightarrow>
    gate_pass rq n (dp_next p) cs c' ok \<Longrightarrow>
    gate_pass rq (Suc n) c (GvList (rq c) (Inr p) # retirements (dp_rows p) es @ cs) c' ok"

text \<open>The counters of a result, from the calls.\<close>

definition answers :: "gate_event list \<Rightarrow> cerr option list" where
  "answers cs = concat (map (\<lambda>ev. case ev of GvRetire r e \<Rightarrow> [e] | _ \<Rightarrow> []) cs)"

definition pages_read :: "gate_event list \<Rightarrow> gates_page list" where
  "pages_read cs = concat (map (\<lambda>ev. case ev of GvList q (Inr p) \<Rightarrow> [p] | _ \<Rightarrow> []) cs)"

definition counted :: "gate_result \<Rightarrow> gate_event list \<Rightarrow> gate_result \<Rightarrow> bool" where
  "counted res cs res' \<longleftrightarrow>
     gr_shard res' = gr_shard res \<and> gr_resumed res' = gr_resumed res \<and>
     gr_queries res' = gr_queries res + int (length cs) \<and>
     gr_pages res' = gr_pages res + int (length (pages_read cs)) \<and>
     gr_remnants res' = gr_remnants res + (\<Sum>p \<leftarrow> pages_read cs. int (length (dp_rows p))) \<and>
     gr_open res' = gr_open res + (\<Sum>p \<leftarrow> pages_read cs. int (length (gp_gates p))) \<and>
     gr_retired res' = gr_retired res + int (length (filter (\<lambda>e. e = None) (answers cs))) \<and>
     (\<forall>d. gr_dispositions res' d =
        gr_dispositions res d + int (length (filter (\<lambda>e. classify_retirement e = Some d) (answers cs))))"

lemma answers_simps [simp]:
  "answers [] = []" "answers (cs @ ds) = answers cs @ answers ds" "answers (GvRetire r e # cs) = e # answers cs"
  "answers (GvList q x # cs) = answers cs"
  by (simp_all add: answers_def)

lemma pages_read_simps [simp]:
  "pages_read [] = []" "pages_read (cs @ ds) = pages_read cs @ pages_read ds" "pages_read (GvRetire r e # cs) = pages_read cs"
  "pages_read (GvList q (Inr p) # cs) = p # pages_read cs" "pages_read (GvList q (Inl err) # cs) = pages_read cs"
  by (simp_all add: pages_read_def)

lemma classify_None [simp]: "classify_retirement None = Some GateRetired"
  by (simp add: classify_retirement_def)

lemma classify_GateRetired: "classify_retirement e = Some GateRetired \<longleftrightarrow> e = None"
  by (auto simp: classify_retirement_def split: option.splits if_splits prod.splits)

lemma not_understood: "classify_retirement e = None \<Longrightarrow> e \<noteq> None"
  by (cases e) simp_all

lemma counted_Nil: "counted res [] res"
  by (simp add: counted_def)

lemma counted_append: "counted res cs res1 \<Longrightarrow> counted res1 ds res2 \<Longrightarrow> counted res (cs @ ds) res2"
  by (simp add: counted_def)

lemma retire_gate_emits:
  "emits (retire_gate (logged_gates cfg) rem res)
     (\<lambda>x cs. \<exists>e. cs = [GvRetire rem e] \<and> (fst x = None \<longleftrightarrow> understood e) \<and> counted res cs (snd x))"
  unfolding retire_gate_def Let_def logged_gates_simps
  by (intro emits_intro) (auto simp: counted_def understood_def classify_GateRetired dest: not_understood)

lemma retire_all_emits:
  "emits (retire_all (logged_gates cfg) rems res)
     (\<lambda>x cs. \<exists>es. cs = retirements rems es \<and> counted res cs (snd x) \<and>
        (if fst x = None then length es = length rems \<and> list_all understood es
         else \<exists>es' e. es = es' @ [e] \<and> length es' < length rems \<and> list_all understood es' \<and> \<not> understood e))"
proof (induction rems arbitrary: res)
  case Nil
  show ?case by (simp, rule emits_ret) (simp add: retirements_def counted_Nil)
next
  case (Cons rem rems)
  show ?case unfolding retire_all.simps
  proof (rule emits_sub [OF retire_gate_emits], elim exE conjE)
    fix x :: "cerr option \<times> gate_result" and cs e
    assume x: "cs = [GvRetire rem e]" "(fst x = None) = understood e" "counted res cs (snd x)"
    show "emits (case x of (None, res1) \<Rightarrow> retire_all (logged_gates cfg) rems res1 | (Some err, res1) \<Rightarrow> ret (Some err, res1))
      (\<lambda>y ds. \<exists>es. cs @ ds = retirements (rem # rems) es \<and> counted res (cs @ ds) (snd y) \<and>
        (if fst y = None then length es = length (rem # rems) \<and> list_all understood es
         else \<exists>es' e. es = es' @ [e] \<and> length es' < length (rem # rems) \<and> list_all understood es' \<and> \<not> understood e))"
    proof (cases "fst x")
      case None
      then obtain res1 where x': "x = (None, res1)" by (cases x) simp
      show ?thesis unfolding x' prod.case option.case
      proof (rule emits_weaken [OF Cons.IH], elim exE conjE)
        fix y ds es
        assume y: "ds = retirements rems es" "counted res1 ds (snd y)"
          "if fst y = None then length es = length rems \<and> list_all understood es
           else \<exists>es' e. es = es' @ [e] \<and> length es' < length rems \<and> list_all understood es' \<and> \<not> understood e"
        have u: "understood e" using x(2) None by simp
        have "counted res (cs @ ds) (snd y)" using counted_append [OF x(3)] y(2) x' by simp
        moreover have "if fst y = None then length (e # es) = length (rem # rems) \<and> list_all understood (e # es)
           else \<exists>es' e'. e # es = es' @ [e'] \<and> length es' < length (rem # rems) \<and> list_all understood es' \<and> \<not> understood e'"
        proof (cases "fst y")
          case (Some err)
          with y(3) obtain es' e' where "es = es' @ [e']" "length es' < length rems" "list_all understood es'" "\<not> understood e'"
            by auto
          with Some u show ?thesis by (auto intro!: exI [of _ "e # es'"])
        qed (use y(3) u in simp)
        ultimately show "\<exists>es. cs @ ds = retirements (rem # rems) es \<and> counted res (cs @ ds) (snd y) \<and>
           (if fst y = None then length es = length (rem # rems) \<and> list_all understood es
            else \<exists>es' e. es = es' @ [e] \<and> length es' < length (rem # rems) \<and> list_all understood es' \<and> \<not> understood e)"
          using x(1) y(1) by (intro exI [of _ "e # es"]) (simp add: retirements_def)
      qed
    next
      case (Some err)
      then obtain res1 where x': "x = (Some err, res1)" by (cases x) simp
      have "[e] = [] @ [e]" "\<not> understood e" using x(2) Some by simp_all
      with x(1,3) show ?thesis unfolding x' prod.case option.case
        by (intro emits_ret exI [of _ "[e]"]) (force simp: retirements_def x')
    qed
  qed
qed

lemma note_page_counted:
  "counted (note_page p (res\<lparr>gr_queries := gr_queries res + 1\<rparr>)) cs res' \<Longrightarrow> counted res (GvList q (Inr p) # cs) res'"
  by (simp add: counted_def note_page_def algebra_simps)

lemma counted_flags [simp]:
  "counted res cs (res'\<lparr>gr_exhausted := b\<rparr>) = counted res cs res'"
  "counted res cs (res'\<lparr>gr_truncated := b\<rparr>) = counted res cs res'"
  by (simp_all add: counted_def)

text \<open>The page loop implements the abstract pass, and its counters are those of its calls.\<close>

lemma gate_page_loop_emits:
  "emits (gate_page_loop (logged_gates cfg) shard now n cursor res)
     (\<lambda>x cs. gate_pass (gates_request cfg shard now) n cursor cs (fst (fst x)) (snd (fst x) = None) \<and> counted res cs (snd x))"
proof (induction n arbitrary: cursor res)
  case 0
  show ?case by (simp, rule emits_ret) (simp add: gate_pass.truncated counted_Nil)
next
  case (Suc n)
  let ?rq = "gates_request cfg shard now"
  let ?res = "res\<lparr>gr_queries := gr_queries res + 1\<rparr>"
  show ?case unfolding gate_page_loop.simps Let_def logged_gates_simps
  proof (rule emits_call, rule emits_case_sum)
    fix r :: "cerr + gates_page" and err
    assume r: "r = Inl err"
    show "emits (if gate_refused_cursor err then ret (([], Some (Wrapped [err])), ?res) else ret ((cursor, Some (Wrapped [err])), ?res))
      (\<lambda>x cs. gate_pass ?rq (Suc n) cursor (GvList (?rq cursor) r # cs) (fst (fst x)) (snd (fst x) = None) \<and>
        counted res (GvList (?rq cursor) r # cs) (snd x))"
      using gate_pass.list_failed [of ?rq n cursor err]
      by (intro emits_if emits_ret) (simp_all add: r counted_def)
  next
    fix r :: "cerr + gates_page" and p
    assume r: "r = Inr p"
    show "emits (retire_all (logged_gates cfg) (dp_rows p) (note_page p ?res) \<bind>
        (\<lambda>x. case x of (None, res2) \<Rightarrow> if dp_next p = [] then ret (([], None), res2\<lparr>gr_exhausted := True\<rparr>)
              else gate_page_loop (logged_gates cfg) shard now n (dp_next p) res2
            | (Some err, res2) \<Rightarrow> ret ((cursor, Some err), res2)))
      (\<lambda>x cs. gate_pass ?rq (Suc n) cursor (GvList (?rq cursor) r # cs) (fst (fst x)) (snd (fst x) = None) \<and>
        counted res (GvList (?rq cursor) r # cs) (snd x))"
    proof (rule emits_sub [OF retire_all_emits], elim exE conjE, rule emits_case_prod, rule emits_case_option)
      fix x :: "cerr option \<times> gate_result" and cs es a res2
      assume x: "cs = retirements (dp_rows p) es" "counted (note_page p ?res) cs (snd x)" "x = (a, res2)" "a = None"
        "if fst x = None then length es = length (dp_rows p) \<and> list_all understood es
         else \<exists>es' e. es = es' @ [e] \<and> length es' < length (dp_rows p) \<and> list_all understood es' \<and> \<not> understood e"
      then have es: "length es = length (dp_rows p)" "list_all understood es" by simp_all
      have cnt: "counted res (GvList (?rq cursor) r # cs) res2" unfolding r by (rule note_page_counted) (use x in simp)
      show "emits (if dp_next p = [] then ret (([], None), res2\<lparr>gr_exhausted := True\<rparr>)
          else gate_page_loop (logged_gates cfg) shard now n (dp_next p) res2)
        (\<lambda>y ds. gate_pass ?rq (Suc n) cursor (GvList (?rq cursor) r # cs @ ds) (fst (fst y)) (snd (fst y) = None) \<and>
          counted res (GvList (?rq cursor) r # cs @ ds) (snd y))"
      proof (rule emits_if)
        assume "dp_next p = []"
        then show "emits (ret (([], None), res2\<lparr>gr_exhausted := True\<rparr>))
          (\<lambda>y ds. gate_pass ?rq (Suc n) cursor (GvList (?rq cursor) r # cs @ ds) (fst (fst y)) (snd (fst y) = None) \<and>
            counted res (GvList (?rq cursor) r # cs @ ds) (snd y))"
          using gate_pass.exhausted [OF es, of ?rq n cursor] cnt by (intro emits_ret) (simp add: r x(1))
      next
        assume "dp_next p \<noteq> []"
        then show "emits (gate_page_loop (logged_gates cfg) shard now n (dp_next p) res2)
          (\<lambda>y ds. gate_pass ?rq (Suc n) cursor (GvList (?rq cursor) r # cs @ ds) (fst (fst y)) (snd (fst y) = None) \<and>
            counted res (GvList (?rq cursor) r # cs @ ds) (snd y))"
          using gate_pass.next_page [OF es] counted_append [OF cnt]
          by (intro emits_weaken [OF Suc.IH]) (auto simp: r x(1))
      qed
    next
      fix x :: "cerr option \<times> gate_result" and cs es a res2 err
      assume x: "cs = retirements (dp_rows p) es" "counted (note_page p ?res) cs (snd x)" "x = (a, res2)" "a = Some err"
        "if fst x = None then length es = length (dp_rows p) \<and> list_all understood es
         else \<exists>es' e. es = es' @ [e] \<and> length es' < length (dp_rows p) \<and> list_all understood es' \<and> \<not> understood e"
      then obtain es' e where es: "es = es' @ [e]" "length es' < length (dp_rows p)" "list_all understood es'" "\<not> understood e"
        by auto
      have "counted res (GvList (?rq cursor) r # cs) res2" unfolding r by (rule note_page_counted) (use x in simp)
      then show "emits (ret ((cursor, Some err), res2))
        (\<lambda>y ds. gate_pass ?rq (Suc n) cursor (GvList (?rq cursor) r # cs @ ds) (fst (fst y)) (snd (fst y) = None) \<and>
          counted res (GvList (?rq cursor) r # cs @ ds) (snd y))"
        using gate_pass.retire_failed [OF es(2-4), of ?rq n cursor] by (intro emits_ret) (simp add: r x(1) es(1))
    qed
  qed
qed

section \<open>What a pass promises\<close>

lemma retirements_mem: "GvRetire rem e \<in> set (retirements rems es) \<Longrightarrow> rem \<in> set rems"
  by (auto simp: retirements_def dest: set_zip_leftD)

lemma retirements_all:
  assumes "length es = length rems" "list_all understood es" "rem \<in> set rems"
  shows "\<exists>e. understood e \<and> GvRetire rem e \<in> set (retirements rems es)"
proof -
  from assms(3) obtain i where i: "i < length rems" "rem = rems ! i" by (metis in_set_conv_nth)
  then have "understood (es ! i)" "GvRetire rem (es ! i) \<in> set (retirements rems es)"
    using assms(1,2) by (force simp: list_all_length retirements_def in_set_conv_nth)+
  then show ?thesis by blast
qed

lemma list_not_retirement [simp]: "GvList q x \<notin> set (retirements rems es)"
  by (auto simp: retirements_def)

text \<open>A retirement is of a remnant of a page read before it.\<close>

lemma gate_pass_retires:
  assumes "gate_pass rq n c cs c' ok" "cs = pre @ GvRetire rem e # post"
  shows "\<exists>p \<in> set (pages_read pre). rem \<in> set (dp_rows p)"
  using assms
proof (induction arbitrary: pre rule: gate_pass.induct)
  case (retire_failed es p e' n c)
  then obtain pre' where "pre = GvList (rq c) (Inr p) # pre'"
    "retirements (dp_rows p) (es @ [e']) = pre' @ GvRetire rem e # post" by (auto simp: Cons_eq_append_conv)
  with retirements_mem [of rem e "dp_rows p" "es @ [e']"] show ?case by auto
next
  case (exhausted es p n c)
  then obtain pre' where "pre = GvList (rq c) (Inr p) # pre'"
    "retirements (dp_rows p) es = pre' @ GvRetire rem e # post" by (auto simp: Cons_eq_append_conv)
  with retirements_mem [of rem e "dp_rows p" es] show ?case by auto
next
  case (next_page es p n cs c' ok c)
  then obtain pre' where pre: "pre = GvList (rq c) (Inr p) # pre'"
    "retirements (dp_rows p) es @ cs = pre' @ GvRetire rem e # post" by (auto simp: Cons_eq_append_conv)
  then consider us where "retirements (dp_rows p) es = pre' @ us" "us @ cs = GvRetire rem e # post"
    | us where "pre' = retirements (dp_rows p) es @ us" "cs = us @ GvRetire rem e # post"
    by (auto simp: append_eq_append_conv2)
  then show ?case
  proof cases
    case 1
    then have "us = [] \<Longrightarrow> False" using next_page.IH [of "[]"] by auto
    with 1 have "GvRetire rem e \<in> set (retirements (dp_rows p) es)" by (cases us) auto
    with retirements_mem pre(1) show ?thesis by auto
  next
    case 2
    with next_page.IH pre(1) show ?thesis by auto
  qed
qed (auto simp: Cons_eq_append_conv)

text \<open>No remnant is passed over: a page with one left is the page the next pass begins at.\<close>

lemma gate_pass_complete:
  assumes "gate_pass rq n c cs c' ok" "GvList q (Inr p) \<in> set cs"
  shows "(\<forall>rem \<in> set (dp_rows p). \<exists>e. understood e \<and> GvRetire rem e \<in> set cs) \<or> (\<exists>c1. q = rq c1 \<and> c' = c1)"
  using assms
proof (induction rule: gate_pass.induct)
  case (exhausted es p' n c)
  then show ?case using retirements_all [OF exhausted(1,2)] by auto
next
  case (next_page es p' n cs c' ok c)
  then show ?case using retirements_all [OF next_page(1,2)] by fastforce
qed (auto simp: list_not_retirement)

lemma gate_pass_bounded:
  assumes "gate_pass rq n c cs c' ok"
  shows "length (pages_read cs) \<le> n"
proof -
  have [simp]: "pages_read (retirements rems es) = []" for rems es
    by (auto simp: retirements_def pages_read_def)
  from assms show ?thesis by (induction rule: gate_pass.induct) auto
qed

section \<open>Whole sweeps\<close>

lemma gate_sweep_emits:
  "emits (gate_sweep (logged_gates cfg) who s) (\<lambda>y cs.
     ((\<exists>e. cs = [GvAuth (Some e)]) \<or> (\<exists>n. cs = [GvAuth None, GvShards n])) \<and> fst (fst y) = zero_gate_result \<or>
     (\<exists>n now shard c c' ok s1 ds. cs = [GvAuth None, GvShards n, GvNow now] @ ds \<and>
        gate_begin (gc_least cfg) n s = (Inr (shard, c), s1) \<and>
        gate_pass (gates_request cfg shard now) (nat (gc_max_pages cfg)) c ds c' ok \<and>
        counted (zero_gate_result\<lparr>gr_shard := shard, gr_resumed := (c \<noteq> [])\<rparr>) ds (fst (fst y)) \<and>
        (snd (fst y) = None \<longleftrightarrow> ok) \<and> snd y = gate_commit shard c' s1))"
  unfolding gate_sweep_def logged_gates_simps gate_page_def bind_assoc
proof (intro emits_call emits_case_option emits_case_prod emits_case_sum, goal_cases)
  case (1 auth n p s1 err)
  then show ?case by (intro emits_ret) simp
next
  case (2 auth n p s1 q shard c now)
  then show ?case
    by (intro emits_sub [OF gate_page_loop_emits] emits_ret) (simp, blast)
next
  case (3 auth err)
  then show ?case by (intro emits_ret) simp
qed

text \<open>A small store: two remnants on the first page of a shard, one more on the second, whose retirement faults.\<close>

definition sample_remnant :: "string \<Rightarrow> remnant" where
  "sample_remnant g = \<lparr>rm_tenant = ''t'', rm_session = ''s'', rm_gate = g, rm_revision = 1\<rparr>"

definition sample_gates :: "(nat, unit) gate_config" where
  "sample_gates =
     \<lparr>gc_authorize = \<lambda>_. ret None, gc_shards = ret 2,
      gc_list = \<lambda>q. ret (Inr (if dq_cursor q = []
        then \<lparr>dp_rows = [sample_remnant ''g1'', sample_remnant ''g2''], dp_examined = 3, dp_unreadable = 0, dp_next = ''p2'',
              gp_gates = [''open'']\<rparr>
        else \<lparr>dp_rows = [sample_remnant ''g3''], dp_examined = 1, dp_unreadable = 0, dp_next = [], gp_gates = []\<rparr>)),
      gc_retire = \<lambda>r. ret (if rm_gate r = ''g3'' then Some (Opaque ''provider fault'')
        else if rm_gate r = ''g2'' then Some (Sentinel (ControlStore (CatalogError CatalogTooSoon []))) else None),
      gc_now = ret 100, gc_page_limit = 10, gc_max_pages = 4, gc_least = 1\<rparr>"

definition sample_gate_sweeper :: gate_sweeper where
  "sample_gate_sweeper = \<lparr>gs_next = 0, gs_cursors = \<lambda>_. None\<rparr>"



end
