(* ===== verification/Expiry.thy ===== *)
theory Expiry
  imports Rotor "HOL-Library.Multiset"
begin

text \<open>
  The deadline sweeps of \<open>internal/admission\<close>: \<open>reconciler.go\<close> settles expired commands of the
  legacy family, \<open>dispositions.go\<close> those of the disposition family. Both take a short claim per
  session through one claimant, reject what nobody may still apply, and give every claim back.
  The two configurations have the same members, so they are one record over the rows and the
  reply of the settlement. The iteration over the memo of claims is in the order of an
  argument, as a Go map's is in no order.
\<close>

section \<open>Data\<close>

record reject_request =
  rj_tenant :: tenant_id
  rj_session :: session_id
  rj_command :: command_id
  rj_revision :: u64
  rj_rejection :: "error_code option"

record ('w, 'p, 'row, 'ans) expiry_config =
  xc_authorize :: "'p \<Rightarrow> ('w, cerr option) state"
  xc_shards :: "('w, int) state"
  xc_list :: "due_request \<Rightarrow> ('w, cerr + 'row due_page) state"
  xc_reject :: "reject_request \<Rightarrow> ('w, 'ans) state"
  xc_acquire :: "claim_request \<Rightarrow> ('w, cerr option) state"
  xc_release :: "session_key \<Rightarrow> string \<Rightarrow> ('w, cerr option) state"
  xc_now :: "('w, time) state"
  xc_holder :: string
  xc_ttl :: int
  xc_page_limit :: int
  xc_max_pages :: int
  xc_least :: int \<comment> \<open>the least number of control shards of the store\<close>

datatype disposition =
    DispSettleable | DispRejected | DispUnexpired | DispClaimLive | DispApplying | DispTerminal
  | DispEvidence | DispRaceLost | DispDeferred | DispUnrecognized

definition disposition_string :: "disposition \<Rightarrow> string" where
  "disposition_string d =
     (case d of
        DispSettleable \<Rightarrow> ''settleable''
      | DispRejected \<Rightarrow> ''rejected''
      | DispUnexpired \<Rightarrow> ''unexpired''
      | DispClaimLive \<Rightarrow> ''claim_live''
      | DispApplying \<Rightarrow> ''applying''
      | DispTerminal \<Rightarrow> ''terminal''
      | DispEvidence \<Rightarrow> ''evidence''
      | DispRaceLost \<Rightarrow> ''race_lost''
      | DispDeferred \<Rightarrow> ''deferred''
      | DispUnrecognized \<Rightarrow> ''unrecognized_state'')"

record sweep_result =
  sr_shard :: int
  sr_pages :: int
  sr_examined :: int
  sr_unreadable :: int
  sr_due :: int
  sr_rejected :: int
  sr_claimed :: int
  sr_released :: int
  sr_dispositions :: "disposition \<Rightarrow> int"
  sr_queries :: int
  sr_release_failures :: int
  sr_truncated :: bool
  sr_resumed :: bool

definition zero_sweep :: sweep_result where
  "zero_sweep =
     \<lparr>sr_shard = 0, sr_pages = 0, sr_examined = 0, sr_unreadable = 0, sr_due = 0, sr_rejected = 0, sr_claimed = 0,
      sr_released = 0, sr_dispositions = \<lambda>_. 0, sr_queries = 0, sr_release_failures = 0, sr_truncated = False,
      sr_resumed = False\<rparr>"

text \<open>The memo of claims: the answer of each session asked for, in the order of asking.\<close>

type_synonym held = "(session_key \<times> bool) list"
type_synonym sweep_pass = "sweep_result \<times> held"

definition expiry_config_error ::
  "int \<Rightarrow> int \<Rightarrow> bool \<Rightarrow> bool \<Rightarrow> bool \<Rightarrow> bool \<Rightarrow> bool \<Rightarrow> string \<Rightarrow> int \<Rightarrow> int \<Rightarrow> int \<Rightarrow> cerr option" where
  \<comment> \<open>The bounds are constants of the store and of the storage module; the flags say which
     seams were supplied. Both constructors have these checks in this order.\<close>
  "expiry_config_error max_ttl max_page authorizer due settlement claims clock holder ttl page_limit max_pages =
     (if \<not> authorizer then Some (Wrapped [Sentinel ErrInvalidReconcilerConfig])
      else if \<not> due then Some (Wrapped [Sentinel ErrInvalidReconcilerConfig])
      else if \<not> settlement then Some (Wrapped [Sentinel ErrInvalidReconcilerConfig])
      else if \<not> claims then Some (Wrapped [Sentinel ErrInvalidReconcilerConfig])
      else if \<not> clock then Some (Wrapped [Sentinel ErrInvalidReconcilerConfig])
      else if holder = [] then Some (Wrapped [Sentinel ErrInvalidReconcilerConfig])
      else if ttl \<le> 0 \<or> ttl > max_ttl then Some (Wrapped [Sentinel ErrInvalidReconcilerConfig])
      else if page_limit < 1 \<or> page_limit > max_page then Some (Wrapped [Sentinel ErrInvalidReconcilerConfig])
      else if max_pages < 1 then Some (Wrapped [Sentinel ErrInvalidReconcilerConfig])
      else None)"

definition note_outcome :: "disposition \<Rightarrow> sweep_result \<Rightarrow> sweep_result" where
  "note_outcome d res = res\<lparr>sr_dispositions := (sr_dispositions res)(d := sr_dispositions res d + 1)\<rparr>"

definition queried :: "sweep_result \<Rightarrow> sweep_result" where
  "queried res = res\<lparr>sr_queries := sr_queries res + 1\<rparr>"

section \<open>The claimant\<close>

text \<open>The attempts left and the error of the last one; two attempts are made.\<close>

definition claim_failed :: "cerr \<Rightarrow> cerr + bool" where
  "claim_failed err =
     (if errors_as control_reconcile err = Some ReconcileConflict then Inr False else Inl (Wrapped [err]))"

fun claim_loop ::
  "('w, 'p, 'row, 'ans) expiry_config \<Rightarrow> session_key \<Rightarrow> time \<Rightarrow> nat \<Rightarrow> cerr \<Rightarrow> sweep_result \<Rightarrow>
   ('w, (cerr + bool) \<times> sweep_result) state" where
  "claim_loop cfg key now 0 err res = ret (claim_failed err, res)"
| "claim_loop cfg key now (Suc n) err res = do {
     let res1 = queried res;
     e \<leftarrow> xc_acquire cfg \<lparr>cl_key = key, cl_holder = xc_holder cfg, cl_expires = now + xc_ttl cfg\<rparr>;
     case e of
       None \<Rightarrow> ret (Inr True, res1\<lparr>sr_claimed := sr_claimed res1 + 1\<rparr>)
     | Some err1 \<Rightarrow>
         (case errors_as control_reconcile err1 of
            Some ReconcileHeld \<Rightarrow> ret (Inr False, res1)
          | Some ReconcileConflict \<Rightarrow> claim_loop cfg key now n err1 res1
          | _ \<Rightarrow> ret (claim_failed err1, res1))
   }"

definition claim_session ::
  "('w, 'p, 'row, 'ans) expiry_config \<Rightarrow> session_key \<Rightarrow> time \<Rightarrow> sweep_pass \<Rightarrow> ('w, (cerr + bool) \<times> sweep_pass) state" where
  "claim_session cfg key now st =
     (case map_of (snd st) key of
        Some answer \<Rightarrow> ret (Inr answer, st)
      | None \<Rightarrow> do {
          x \<leftarrow> claim_loop cfg key now 2 (Opaque []) (fst st);
          case x of
            (Inl err, res) \<Rightarrow> ret (Inl err, (res, snd st))
          | (Inr answer, res) \<Rightarrow> ret (Inr answer, (res, (snd st) @ [(key, answer)]))
        })"

fun release_claims ::
  "('w, 'p, 'row, 'ans) expiry_config \<Rightarrow> held \<Rightarrow> sweep_result \<Rightarrow> ('w, sweep_result) state" where
  "release_claims cfg [] res = ret res"
| "release_claims cfg ((key, taken) # ks) res =
     (if \<not> taken then release_claims cfg ks res
      else do {
        let res1 = queried res;
        e \<leftarrow> xc_release cfg key (xc_holder cfg);
        case e of
          Some err \<Rightarrow> release_claims cfg ks (res1\<lparr>sr_release_failures := sr_release_failures res1 + 1\<rparr>)
        | None \<Rightarrow> release_claims cfg ks (res1\<lparr>sr_released := sr_released res1 + 1\<rparr>)
      })"

section \<open>The legacy sweep\<close>

definition settleable :: "legacy_entry \<Rightarrow> time \<Rightarrow> disposition" where
  "settleable e now =
     (if le_state e = StateApplied \<or> le_state e = StateRejected then DispTerminal
      else if le_state e = StateApplying then DispApplying
      else if now < le_claim e then DispClaimLive
      else if now < le_deadline e then DispUnexpired
      else DispSettleable)"

definition settlement_refusal :: "cerr \<Rightarrow> disposition option" where
  "settlement_refusal err =
     (case errors_as control_inbox err of
        Some InboxEvidence \<Rightarrow> Some DispEvidence
      | Some InboxClaimHeld \<Rightarrow> Some DispClaimLive
      | Some InboxClaimLost \<Rightarrow> Some DispApplying
      | Some InboxConflict \<Rightarrow> Some DispRaceLost
      | Some InboxTerminal \<Rightarrow> Some DispTerminal
      | Some InboxNotFound \<Rightarrow> Some DispTerminal
      | Some InboxDeleted \<Rightarrow> Some DispTerminal
      | _ \<Rightarrow> None)"

definition expired_rejection :: error_code where
  "expired_rejection = CodeRuntimeUnavailable"

definition legacy_key :: "legacy_entry \<Rightarrow> session_key" where
  "legacy_key e = \<lparr>sk_tenant = le_tenant e, sk_session = le_session e\<rparr>"

definition legacy_reject :: "legacy_entry \<Rightarrow> reject_request" where
  "legacy_reject e =
     \<lparr>rj_tenant = le_tenant e, rj_session = le_session e, rj_command = le_command e, rj_revision = le_revision e,
      rj_rejection = Some expired_rejection\<rparr>"

definition settle ::
  "('w, 'p, legacy_entry, cerr option) expiry_config \<Rightarrow> legacy_entry \<Rightarrow> time \<Rightarrow> sweep_pass \<Rightarrow>
   ('w, cerr option \<times> sweep_pass) state" where
  "settle cfg entry now st =
     (if settleable entry now \<noteq> DispSettleable
      then ret (None, apfst (note_outcome (settleable entry now)) st)
      else do {
        c \<leftarrow> claim_session cfg (legacy_key entry) now st;
        case c of
          (Inl err, st1) \<Rightarrow> ret (Some err, st1)
        | (Inr claimed, st1) \<Rightarrow>
            if \<not> claimed then ret (None, apfst (note_outcome DispDeferred) st1)
            else do {
              let st2 = apfst queried st1;
              e \<leftarrow> xc_reject cfg (legacy_reject entry);
              case e of
                None \<Rightarrow>
                  ret (None, apfst (\<lambda>res. note_outcome DispRejected (res\<lparr>sr_rejected := sr_rejected res + 1\<rparr>)) st2)
              | Some err \<Rightarrow>
                  (case settlement_refusal err of
                     Some d \<Rightarrow> ret (None, apfst (note_outcome d) st2)
                   | None \<Rightarrow> ret (Some (Wrapped [err]), st2))
            }
      })"

text \<open>The range over the rows of a page, for either family.\<close>

fun settle_rows ::
  "('row \<Rightarrow> sweep_pass \<Rightarrow> ('w, cerr option \<times> sweep_pass) state) \<Rightarrow> 'row list \<Rightarrow> sweep_pass \<Rightarrow>
   ('w, cerr option \<times> sweep_pass) state" where
  "settle_rows f [] st = ret (None, st)"
| "settle_rows f (row # rows) st = do {
     x \<leftarrow> f row st;
     case x of
       (Some err, st1) \<Rightarrow> ret (Some err, st1)
     | (None, st1) \<Rightarrow> settle_rows f rows st1
   }"

definition due_request_at ::
  "('w, 'p, 'row, 'ans) expiry_config \<Rightarrow> int \<Rightarrow> time \<Rightarrow> cursor \<Rightarrow> due_request" where
  "due_request_at cfg shard now cursor =
     \<lparr>dq_shard = shard, dq_limit = xc_page_limit cfg, dq_cursor = cursor,
      dq_bound = (if cursor = [] then Some now else None)\<rparr>"

definition note_due_page :: "'row due_page \<Rightarrow> sweep_result \<Rightarrow> sweep_result" where
  "note_due_page p res =
     res\<lparr>sr_pages := sr_pages res + 1, sr_examined := sr_examined res + dp_examined p,
         sr_unreadable := sr_unreadable res + dp_unreadable p, sr_due := sr_due res + int (length (dp_rows p))\<rparr>"

fun legacy_page_loop ::
  "('w, 'p, legacy_entry, cerr option) expiry_config \<Rightarrow> int \<Rightarrow> time \<Rightarrow> nat \<Rightarrow> cursor \<Rightarrow> sweep_pass \<Rightarrow>
   ('w, cerr option \<times> sweep_pass) state" where
  "legacy_page_loop cfg shard now 0 cursor st = ret (None, apfst (\<lambda>res. res\<lparr>sr_truncated := True\<rparr>) st)"
| "legacy_page_loop cfg shard now (Suc pages) cursor st = do {
     let st1 = apfst queried st;
     r \<leftarrow> xc_list cfg (due_request_at cfg shard now cursor);
     case r of
       Inl err \<Rightarrow> ret (Some (Wrapped [err]), st1)
     | Inr p \<Rightarrow> do {
         x \<leftarrow> settle_rows (\<lambda>row. settle cfg row now) (dp_rows p) (apfst (note_due_page p) st1);
         case x of
           (Some err, st2) \<Rightarrow> ret (Some err, st2)
         | (None, st2) \<Rightarrow>
             if dp_next p = [] then ret (None, st2)
             else legacy_page_loop cfg shard now pages (dp_next p) st2
       }
   }"

definition legacy_page ::
  "('w, 'p, legacy_entry, cerr option) expiry_config \<Rightarrow> int \<Rightarrow> sweep_pass \<Rightarrow> ('w, cerr option \<times> sweep_pass) state" where
  "legacy_page cfg shard st = do {
     now \<leftarrow> xc_now cfg;
     legacy_page_loop cfg shard now (nat (xc_max_pages cfg)) [] st
   }"

definition legacy_sweep ::
  "(held \<Rightarrow> held) \<Rightarrow> ('w, 'p, legacy_entry, cerr option) expiry_config \<Rightarrow> 'p \<Rightarrow> rotor \<Rightarrow>
   ('w, (sweep_result \<times> cerr option) \<times> rotor) state" where
  "legacy_sweep order cfg who r = do {
     auth \<leftarrow> xc_authorize cfg who;
     case auth of
       Some err \<Rightarrow> ret ((zero_sweep, Some err), r)
     | None \<Rightarrow> do {
         shards \<leftarrow> xc_shards cfg;
         case rotate_shard (xc_least cfg) shards r of
           (Inl err, r1) \<Rightarrow> ret ((zero_sweep, Some err), r1)
         | (Inr shard, r1) \<Rightarrow> do {
             x \<leftarrow> legacy_page cfg shard (zero_sweep\<lparr>sr_shard := shard\<rparr>, []);
             res \<leftarrow> release_claims cfg (order (snd (snd x))) (fst (snd x));
             ret ((res, fst x), r1)
           }
       }
   }"

section \<open>The disposition sweep\<close>

definition disposition_settleable :: "disposition_entry \<Rightarrow> time \<Rightarrow> disposition" where
  "disposition_settleable e now =
     (case ib_state e of
        StateApplied \<Rightarrow> DispTerminal
      | StateRejected \<Rightarrow> DispTerminal
      | StateApplying \<Rightarrow> DispApplying
      | OtherState _ \<Rightarrow> DispUnrecognized
      | _ \<Rightarrow>
          if ib_attempt e then DispApplying
          else if (case ib_claim e of Some expires \<Rightarrow> now < expires | None \<Rightarrow> False) then DispClaimLive
          else if now < ib_deadline e then DispUnexpired
          else DispSettleable)"

definition disposition_refusal :: "cerr \<Rightarrow> disposition option" where
  "disposition_refusal err =
     (if session_absent err then Some DispTerminal
      else case errors_as control_inbox err of
        Some InboxState \<Rightarrow> Some DispApplying
      | Some InboxClaimHeld \<Rightarrow> Some DispClaimLive
      | Some InboxConflict \<Rightarrow> Some DispRaceLost
      | Some InboxTerminal \<Rightarrow> Some DispTerminal
      | Some InboxNotFound \<Rightarrow> Some DispTerminal
      | Some InboxDeleted \<Rightarrow> Some DispTerminal
      | _ \<Rightarrow> None)"

definition refused_disposition_cursor :: "cerr \<Rightarrow> bool" where
  "refused_disposition_cursor err \<longleftrightarrow> errors_as control_inbox err = Some InboxCursor"

definition entry_key :: "disposition_entry \<Rightarrow> session_key" where
  "entry_key e = \<lparr>sk_tenant = ib_tenant e, sk_session = ib_session e\<rparr>"

definition disposition_reject :: "disposition_entry \<Rightarrow> reject_request" where
  "disposition_reject e =
     \<lparr>rj_tenant = ib_tenant e, rj_session = ib_session e, rj_command = ib_command e, rj_revision = ib_revision e,
      rj_rejection = None\<rparr>"

definition settle_disposition ::
  "('w, 'p, disposition_entry, cerr + bool) expiry_config \<Rightarrow> disposition_entry \<Rightarrow> time \<Rightarrow> sweep_pass \<Rightarrow>
   ('w, cerr option \<times> sweep_pass) state" where
  "settle_disposition cfg entry now st =
     (if disposition_settleable entry now \<noteq> DispSettleable
      then ret (None, apfst (note_outcome (disposition_settleable entry now)) st)
      else do {
        c \<leftarrow> claim_session cfg (entry_key entry) now st;
        case c of
          (Inl err, st1) \<Rightarrow> ret (Some err, st1)
        | (Inr claimed, st1) \<Rightarrow>
            if \<not> claimed then ret (None, apfst (note_outcome DispDeferred) st1)
            else do {
              let st2 = apfst queried st1;
              r \<leftarrow> xc_reject cfg (disposition_reject entry);
              case r of
                Inr rejected \<Rightarrow>
                  if \<not> rejected then ret (None, apfst (note_outcome DispTerminal) st2)
                  else ret (None, apfst (\<lambda>res. note_outcome DispRejected (res\<lparr>sr_rejected := sr_rejected res + 1\<rparr>)) st2)
              | Inl err \<Rightarrow>
                  (case disposition_refusal err of
                     Some d \<Rightarrow> ret (None, apfst (note_outcome d) st2)
                   | None \<Rightarrow> ret (Some (Wrapped [err]), st2))
            }
      })"

fun disposition_page_loop ::
  "('w, 'p, disposition_entry, cerr + bool) expiry_config \<Rightarrow> int \<Rightarrow> time \<Rightarrow> nat \<Rightarrow> cursor \<Rightarrow> sweep_pass \<Rightarrow>
   ('w, (cursor \<times> cerr option) \<times> sweep_pass) state" where
  "disposition_page_loop cfg shard now 0 cursor st =
     ret ((cursor, None), apfst (\<lambda>res. res\<lparr>sr_truncated := True\<rparr>) st)"
| "disposition_page_loop cfg shard now (Suc pages) cursor st = do {
     let st1 = apfst queried st;
     r \<leftarrow> xc_list cfg (due_request_at cfg shard now cursor);
     case r of
       Inl err \<Rightarrow>
         if refused_disposition_cursor err then ret (([], Some (Wrapped [err])), st1)
         else ret ((cursor, Some (Wrapped [err])), st1)
     | Inr p \<Rightarrow> do {
         x \<leftarrow> settle_rows (\<lambda>row. settle_disposition cfg row now) (dp_rows p) (apfst (note_due_page p) st1);
         case x of
           (Some err, st2) \<Rightarrow> ret ((cursor, Some err), st2)
         | (None, st2) \<Rightarrow>
             if dp_next p = [] then ret (([], None), st2)
             else disposition_page_loop cfg shard now pages (dp_next p) st2
       }
   }"

definition disposition_page ::
  "('w, 'p, disposition_entry, cerr + bool) expiry_config \<Rightarrow> int \<Rightarrow> cursor \<Rightarrow> sweep_pass \<Rightarrow>
   ('w, (cursor \<times> cerr option) \<times> sweep_pass) state" where
  "disposition_page cfg shard cursor st = do {
     now \<leftarrow> xc_now cfg;
     disposition_page_loop cfg shard now (nat (xc_max_pages cfg)) cursor st
   }"

definition disposition_sweep ::
  "(held \<Rightarrow> held) \<Rightarrow> ('w, 'p, disposition_entry, cerr + bool) expiry_config \<Rightarrow> 'p \<Rightarrow> rotor \<Rightarrow>
   ('w, (sweep_result \<times> cerr option) \<times> rotor) state" where
  "disposition_sweep order cfg who r = do {
     auth \<leftarrow> xc_authorize cfg who;
     case auth of
       Some err \<Rightarrow> ret ((zero_sweep, Some err), r)
     | None \<Rightarrow> do {
         shards \<leftarrow> xc_shards cfg;
         case rotor_begin (xc_least cfg) shards r of
           (Inl err, r1) \<Rightarrow> ret ((zero_sweep, Some err), r1)
         | (Inr (shard, cursor), r1) \<Rightarrow> do {
             x \<leftarrow> disposition_page cfg shard cursor (zero_sweep\<lparr>sr_shard := shard, sr_resumed := (cursor \<noteq> [])\<rparr>, []);
             res \<leftarrow> release_claims cfg (order (snd (snd x))) (fst (snd x));
             ret ((res, snd (fst x)), rotor_commit shard (fst (fst x)) r1)
           }
       }
   }"

section \<open>The order of the calls\<close>

datatype ('row, 'ans) expiry_event =
    XvAuth "cerr option"
  | XvShards int
  | XvNow time
  | XvList due_request "cerr + 'row due_page"
  | XvAcquire claim_request "cerr option"
  | XvReject reject_request 'ans
  | XvRelease session_key "cerr option"

definition logged_expiry ::
  "('w, 'p, 'row, 'ans) expiry_config \<Rightarrow> ('w \<times> ('row, 'ans) expiry_event list, 'p, 'row, 'ans) expiry_config" where
  "logged_expiry cfg =
     \<lparr>xc_authorize = \<lambda>who. logged XvAuth (xc_authorize cfg who),
      xc_shards = logged XvShards (xc_shards cfg),
      xc_list = \<lambda>q. logged (XvList q) (xc_list cfg q),
      xc_reject = \<lambda>q. logged (XvReject q) (xc_reject cfg q),
      xc_acquire = \<lambda>q. logged (XvAcquire q) (xc_acquire cfg q),
      xc_release = \<lambda>k h. logged (XvRelease k) (xc_release cfg k h),
      xc_now = logged XvNow (xc_now cfg), xc_holder = xc_holder cfg, xc_ttl = xc_ttl cfg,
      xc_page_limit = xc_page_limit cfg, xc_max_pages = xc_max_pages cfg, xc_least = xc_least cfg\<rparr>"

lemma logged_expiry_simps [simp]:
  "xc_authorize (logged_expiry cfg) who = logged XvAuth (xc_authorize cfg who)"
  "xc_shards (logged_expiry cfg) = logged XvShards (xc_shards cfg)"
  "xc_list (logged_expiry cfg) q = logged (XvList q) (xc_list cfg q)"
  "xc_reject (logged_expiry cfg) rq = logged (XvReject rq) (xc_reject cfg rq)"
  "xc_acquire (logged_expiry cfg) cq = logged (XvAcquire cq) (xc_acquire cfg cq)"
  "xc_release (logged_expiry cfg) k h = logged (XvRelease k) (xc_release cfg k h)"
  "xc_now (logged_expiry cfg) = logged XvNow (xc_now cfg)"
  "xc_holder (logged_expiry cfg) = xc_holder cfg" "xc_ttl (logged_expiry cfg) = xc_ttl cfg"
  "xc_page_limit (logged_expiry cfg) = xc_page_limit cfg" "xc_max_pages (logged_expiry cfg) = xc_max_pages cfg"
  "xc_least (logged_expiry cfg) = xc_least cfg"
  "due_request_at (logged_expiry cfg) = due_request_at cfg"
  by (simp_all add: logged_expiry_def due_request_at_def [abs_def])

text \<open>
  A monitor of a sweep: the instant it works at, the rows it was shown, the claims it holds and
  those it gave back. A rejection is allowed only for a row shown that may be settled at that
  instant, under the claim of its session; a claim is taken once and given back only while it
  is held.
\<close>

record 'row sweep_monitor =
  xm_now :: "time option"
  xm_rows :: "'row set"
  xm_taken :: "session_key set"
  xm_back :: "session_key set"

definition sweep_track ::
  "('row \<Rightarrow> time \<Rightarrow> bool) \<Rightarrow> ('row \<Rightarrow> session_key) \<Rightarrow> ('row \<Rightarrow> reject_request) \<Rightarrow>
   'row sweep_monitor \<Rightarrow> ('row, 'ans) expiry_event \<Rightarrow> 'row sweep_monitor option" where
  "sweep_track may key rq s ev =
     (case ev of
        XvAuth e \<Rightarrow> Some s
      | XvShards n \<Rightarrow> Some s
      | XvNow t \<Rightarrow> Some (s\<lparr>xm_now := Some t\<rparr>)
      | XvList q r \<Rightarrow> Some (case r of Inl e \<Rightarrow> s | Inr p \<Rightarrow> s\<lparr>xm_rows := xm_rows s \<union> set (dp_rows p)\<rparr>)
      | XvAcquire q e \<Rightarrow>
          if cl_key q \<in> xm_taken s \<union> xm_back s then None
          else Some (if e = None then s\<lparr>xm_taken := insert (cl_key q) (xm_taken s)\<rparr> else s)
      | XvReject q a \<Rightarrow>
          if \<exists>row now. row \<in> xm_rows s \<and> xm_now s = Some now \<and> q = rq row \<and> may row now \<and> key row \<in> xm_taken s
          then Some s else None
      | XvRelease k e \<Rightarrow>
          if k \<in> xm_taken s then Some (s\<lparr>xm_taken := xm_taken s - {k}, xm_back := insert k (xm_back s)\<rparr>) else None)"

lemma sweep_track_simps [simp]:
  "sweep_track may key rq s (XvAuth e) = Some s"
  "sweep_track may key rq s (XvShards n) = Some s"
  "sweep_track may key rq s (XvNow t) = Some (s\<lparr>xm_now := Some t\<rparr>)"
  "sweep_track may key rq s (XvList q (Inl le)) = Some s"
  "sweep_track may key rq s (XvList q (Inr p)) = Some (s\<lparr>xm_rows := xm_rows s \<union> set (dp_rows p)\<rparr>)"
  "sweep_track may key rq s (XvAcquire cq ae) =
     (if cl_key cq \<in> xm_taken s \<union> xm_back s then None
      else Some (if ae = None then s\<lparr>xm_taken := insert (cl_key cq) (xm_taken s)\<rparr> else s))"
  "sweep_track may key rq s (XvReject jq a) =
     (if \<exists>row now. row \<in> xm_rows s \<and> xm_now s = Some now \<and> jq = rq row \<and> may row now \<and> key row \<in> xm_taken s
      then Some s else None)"
  "sweep_track may key rq s (XvRelease k re) =
     (if k \<in> xm_taken s then Some (s\<lparr>xm_taken := xm_taken s - {k}, xm_back := insert k (xm_back s)\<rparr>) else None)"
  by (simp_all add: sweep_track_def)

definition no_claims :: "'row sweep_monitor" where
  "no_claims = \<lparr>xm_now = None, xm_rows = {}, xm_taken = {}, xm_back = {}\<rparr>"

text \<open>The memo is true: it has each session once, with the claims this sweep holds.\<close>

definition memo_true :: "held \<Rightarrow> 'row sweep_monitor \<Rightarrow> bool" where
  "memo_true held s \<longleftrightarrow>
     distinct (map fst held) \<and> xm_taken s = {k. (k, True) \<in> set held} \<and> xm_back s = {}"

text \<open>What a step of a pass keeps: the instant and the rows shown.\<close>

definition working :: "time \<Rightarrow> 'row set \<Rightarrow> sweep_pass \<Rightarrow> 'row sweep_monitor \<Rightarrow> bool" where
  "working now rows st s \<longleftrightarrow> memo_true (snd st) s \<and> xm_now s = Some now \<and> rows \<subseteq> xm_rows s"

lemma working_apfst [simp]: "working now rows (apfst f st) s \<longleftrightarrow> working now rows st s"
  by (simp add: working_def)

lemma claim_loop_obeys:
  assumes "key \<notin> xm_taken s" "key \<notin> xm_back s"
  shows "obeys (sweep_track may rk rq) s (claim_loop (logged_expiry cfg) key now n err res)
     (\<lambda>x s'. s' = (if fst x = Inr True then s\<lparr>xm_taken := insert key (xm_taken s)\<rparr> else s))"
proof (induction n arbitrary: err res)
  case 0
  show ?case by (simp, rule obeys_ret) (simp add: claim_failed_def)
next
  case (Suc n)
  show ?case unfolding claim_loop.simps Let_def logged_expiry_simps
  proof (rule obeys_call)
    fix e
    show "\<exists>s1. sweep_track may rk rq s (XvAcquire \<lparr>cl_key = key, cl_holder = xc_holder cfg, cl_expires = now + xc_ttl cfg\<rparr> e) = Some s1 \<and>
      obeys (sweep_track may rk rq) s1
        (case e of None \<Rightarrow> ret (Inr True, (queried res)\<lparr>sr_claimed := sr_claimed (queried res) + 1\<rparr>)
         | Some err1 \<Rightarrow> (case errors_as control_reconcile err1 of
              Some ReconcileHeld \<Rightarrow> ret (Inr False, queried res)
            | Some ReconcileConflict \<Rightarrow> claim_loop (logged_expiry cfg) key now n err1 (queried res)
            | _ \<Rightarrow> ret (claim_failed err1, queried res)))
        (\<lambda>x s'. s' = (if fst x = Inr True then s\<lparr>xm_taken := insert key (xm_taken s)\<rparr> else s))"
      using assms Suc.IH
      by (auto simp: claim_failed_def intro!: obeys_ret split: option.splits reconcile_code.splits)
  qed
qed

lemma claim_session_obeys:
  assumes "working now rows st s"
  shows "obeys (sweep_track may rk rq) s (claim_session (logged_expiry cfg) key now st)
     (\<lambda>x s'. working now rows (snd x) s' \<and> (fst x = Inr True \<longrightarrow> key \<in> xm_taken s'))"
proof (cases "map_of (snd st) key")
  case (Some answer)
  then show ?thesis using assms
    by (auto simp: claim_session_def working_def memo_true_def dest: map_of_SomeD intro!: obeys_ret)
next
  case None
  then have fresh: "key \<notin> fst ` set (snd st)" by (simp add: map_of_eq_None_iff)
  then have "key \<notin> xm_taken s" "key \<notin> xm_back s" using assms by (force simp: working_def memo_true_def)+
  from claim_loop_obeys [OF this]
  show ?thesis unfolding claim_session_def None option.case
  proof (rule obeys_sub, goal_cases)
    case (1 x s')
    have "working now rows (snd x', snd st @ [(key, answer)]) (if answer then s\<lparr>xm_taken := insert key (xm_taken s)\<rparr> else s)" for x' answer
      using assms fresh by (auto simp: working_def memo_true_def)
    with 1 show ?case using assms
      by (intro obeys_case_prod obeys_case_sum obeys_ret) (auto simp: working_def split: if_splits)
  qed
qed

lemma working_sub: "working now rows st s \<Longrightarrow> row \<in> rows \<Longrightarrow> row \<in> xm_rows s \<and> xm_now s = Some now"
  by (auto simp: working_def)

text \<open>What may be settled: the safety predicate of each family, at an instant.\<close>

definition legacy_may :: "legacy_entry \<Rightarrow> time \<Rightarrow> bool" where
  "legacy_may e now \<longleftrightarrow>
     le_state e \<notin> {StateApplied, StateRejected, StateApplying} \<and> le_claim e \<le> now \<and> le_deadline e \<le> now"

definition disposition_may :: "disposition_entry \<Rightarrow> time \<Rightarrow> bool" where
  "disposition_may e now \<longleftrightarrow>
     (ib_state e = StatePending \<or> ib_state e = StateClaimed) \<and> \<not> ib_attempt e \<and>
     (\<forall>expires. ib_claim e = Some expires \<longrightarrow> expires \<le> now) \<and> ib_deadline e \<le> now"

lemma settleable_iff: "settleable e now = DispSettleable \<longleftrightarrow> legacy_may e now"
  by (auto simp: settleable_def legacy_may_def)

lemma disposition_settleable_iff: "disposition_settleable e now = DispSettleable \<longleftrightarrow> disposition_may e now"
  by (auto simp: disposition_settleable_def disposition_may_def split: inbox_state.splits option.splits)

text \<open>The claim, and under it the rejection of one row; \<open>k\<close> is what the reply does to the pass.\<close>

lemma claimed_reject_obeys:
  fixes cfg :: "('w, 'p, 'row, 'ans) expiry_config"
  assumes "working now rows st s" "row \<in> rows" "may row now"
    "\<And>st1 a s'. working now rows st1 s' \<Longrightarrow> obeys (sweep_track may key rq) s' (k st1 a) (\<lambda>x s'. working now rows (snd x) s')"
  shows "obeys (sweep_track may key rq) s
     (claim_session (logged_expiry cfg) (key row) now st \<bind>
      (\<lambda>c. case c of (Inl err, st1) \<Rightarrow> ret (Some err, st1)
        | (Inr claimed, st1) \<Rightarrow> if \<not> claimed then ret (None, apfst (note_outcome DispDeferred) st1)
            else logged (XvReject (rq row)) (xc_reject cfg (rq row)) \<bind> k st1))
     (\<lambda>x s'. working now rows (snd x) s')"
proof (rule obeys_sub [OF claim_session_obeys [OF assms(1)]], goal_cases)
  case (1 c s')
  obtain a st1 where c: "c = (a, st1)" by (rule prod.exhaust)
  with 1 have w: "working now rows st1 s'" "a = Inr True \<Longrightarrow> key row \<in> xm_taken s'" by simp_all
  have "\<exists>s''. sweep_track may key rq s' (XvReject (rq row) ans) = Some s'' \<and>
      obeys (sweep_track may key rq) s'' (k st1 ans) (\<lambda>x s'. working now rows (snd x) s')" if "a = Inr True" for ans
    using working_sub [OF w(1) assms(2)] assms(3,4) w that by auto
  with w(1) show ?case unfolding c prod.case
    by (intro obeys_case_sum obeys_if obeys_ret obeys_call) simp_all
qed

lemma settle_obeys:
  assumes "working now rows st s" "row \<in> rows"
  shows "obeys (sweep_track legacy_may legacy_key legacy_reject) s (settle (logged_expiry cfg) row now st)
     (\<lambda>x s'. working now rows (snd x) s')"
  unfolding settle_def logged_expiry_simps Let_def
  by (intro obeys_if obeys_ret claimed_reject_obeys [where may = legacy_may, OF assms] obeys_case_option)
    (use assms in \<open>simp_all add: settleable_iff\<close>)

lemma settle_disposition_obeys:
  assumes "working now rows st s" "row \<in> rows"
  shows "obeys (sweep_track disposition_may entry_key disposition_reject) s (settle_disposition (logged_expiry cfg) row now st)
     (\<lambda>x s'. working now rows (snd x) s')"
  unfolding settle_disposition_def logged_expiry_simps Let_def
  by (intro obeys_if obeys_ret claimed_reject_obeys [where may = disposition_may, OF assms] obeys_case_option obeys_case_sum)
    (use assms in \<open>simp_all add: disposition_settleable_iff\<close>)

lemma settle_rows_obeys:
  assumes "\<And>row st s. row \<in> set xs \<Longrightarrow> working now rows st s \<Longrightarrow> obeys t s (f row st) (\<lambda>x s'. working now rows (snd x) s')"
    "working now rows st s"
  shows "obeys t s (settle_rows f xs st) (\<lambda>x s'. working now rows (snd x) s')"
  using assms
proof (induction xs arbitrary: st s)
  case Nil
  then show ?case by (simp add: obeys_ret)
next
  case (Cons row xs)
  have "obeys t s (f row st) (\<lambda>x s'. working now rows (snd x) s')" using Cons.prems by simp
  then show ?case unfolding settle_rows.simps
    by (rule obeys_sub) (intro obeys_case_prod obeys_case_option obeys_ret Cons.IH; use Cons.prems(1) in simp)
qed

lemma working_list:
  "working now {} st s \<Longrightarrow> working now (set xs) st (s\<lparr>xm_rows := xm_rows s \<union> set xs\<rparr>)"
  by (auto simp: working_def memo_true_def)

lemma working_empty: "working now rows st s \<Longrightarrow> working now {} st s"
  by (auto simp: working_def)

text \<open>One page: its rows are settled, and the loop goes on or ends.\<close>

lemma page_obeys:
  assumes "working now {} st s"
    "\<And>row st s. row \<in> set (dp_rows p) \<Longrightarrow> working now (set (dp_rows p)) st s \<Longrightarrow>
       obeys (sweep_track may key rq) s (f row st) (\<lambda>x s'. working now (set (dp_rows p)) (snd x) s')"
    "\<And>x s'. working now {} (snd x) s' \<Longrightarrow> obeys (sweep_track may key rq) s' (k x) Q"
  shows "\<exists>s1. sweep_track may key rq s (XvList q (Inr p)) = Some s1 \<and>
    obeys (sweep_track may key rq) s1 (settle_rows f (dp_rows p) (apfst g st) \<bind> k) Q"
proof -
  let ?s = "s\<lparr>xm_rows := xm_rows s \<union> set (dp_rows p)\<rparr>"
  have "working now (set (dp_rows p)) (apfst g st) ?s" using working_list [OF assms(1)] by simp
  then have "obeys (sweep_track may key rq) ?s (settle_rows f (dp_rows p) (apfst g st)) (\<lambda>x s'. working now (set (dp_rows p)) (snd x) s')"
    by (intro settle_rows_obeys assms(2))
  then have "obeys (sweep_track may key rq) ?s (settle_rows f (dp_rows p) (apfst g st) \<bind> k) Q"
    by (rule obeys_sub) (rule assms(3), rule working_empty)
  then show ?thesis by simp
qed

lemma legacy_page_loop_obeys:
  assumes "working now {} st s"
  shows "obeys (sweep_track legacy_may legacy_key legacy_reject) s (legacy_page_loop (logged_expiry cfg) shard now n cursor st)
     (\<lambda>x s'. working now {} (snd x) s')"
  using assms
proof (induction n arbitrary: cursor st s)
  case 0
  then show ?case by (simp add: obeys_ret)
next
  case (Suc n)
  show ?case unfolding legacy_page_loop.simps Let_def logged_expiry_simps
  proof (rule obeys_call, goal_cases)
    case (1 r)
    show ?case
    proof (cases r)
      case (Inl err)
      then show ?thesis using Suc.prems by (simp add: obeys_ret)
    next
      case (Inr p)
      show ?thesis unfolding Inr sum.case
        by (rule page_obeys [where now = now], use Suc.prems in simp, rule settle_obeys, assumption, assumption,
          intro obeys_case_prod obeys_case_option obeys_if obeys_ret Suc.IH; simp)
    qed
  qed
qed

lemma disposition_page_loop_obeys:
  assumes "working now {} st s"
  shows "obeys (sweep_track disposition_may entry_key disposition_reject) s
     (disposition_page_loop (logged_expiry cfg) shard now n cursor st) (\<lambda>x s'. working now {} (snd x) s')"
  using assms
proof (induction n arbitrary: cursor st s)
  case 0
  then show ?case by (simp add: obeys_ret)
next
  case (Suc n)
  show ?case unfolding disposition_page_loop.simps Let_def logged_expiry_simps
  proof (rule obeys_call, goal_cases)
    case (1 r)
    show ?case
    proof (cases r)
      case (Inl err)
      then show ?thesis using Suc.prems by (simp add: obeys_ret)
    next
      case (Inr p)
      show ?thesis unfolding Inr sum.case
        by (rule page_obeys [where now = now], use Suc.prems in simp, rule settle_disposition_obeys, assumption, assumption,
          intro obeys_case_prod obeys_case_option obeys_if obeys_ret Suc.IH; simp)
    qed
  qed
qed

text \<open>The release gives back exactly what the memo says was taken.\<close>

lemma release_claims_obeys:
  assumes "distinct (map fst ks)" "xm_taken s = {k. (k, True) \<in> set ks}"
  shows "obeys (sweep_track may key rq) s (release_claims (logged_expiry cfg) ks res) (\<lambda>x s'. xm_taken s' = {})"
  using assms
proof (induction ks arbitrary: res s)
  case Nil
  then show ?case by (simp add: obeys_ret)
next
  case (Cons kt ks)
  obtain k taken where kt: "kt = (k, taken)" by (rule prod.exhaust)
  show ?case
  proof (cases taken)
    case False
    with Cons show ?thesis by (simp add: kt)
  next
    case True
    have "xm_taken s = insert k {k. (k, True) \<in> set ks}" "k \<notin> {k. (k, True) \<in> set ks}"
      using Cons.prems by (force simp: kt True)+
    then have "obeys (sweep_track may key rq) (s\<lparr>xm_taken := xm_taken s - {k}, xm_back := insert k (xm_back s)\<rparr>)
        (release_claims (logged_expiry cfg) ks res1) (\<lambda>x s'. xm_taken s' = {})" "k \<in> xm_taken s" for res1
      using Cons.prems(1) by (auto intro!: Cons.IH simp: kt)
    then show ?thesis unfolding kt release_claims.simps Let_def logged_expiry_simps
      using True by (auto intro!: obeys_call split: option.splits)
  qed
qed

lemma memo_release:
  assumes "working now {} st s" "mset (order (snd st)) = mset (snd st)"
  shows "distinct (map fst (order (snd st)))" "xm_taken s = {k. (k, True) \<in> set (order (snd st))}"
proof -
  have "mset (map fst (order (snd st))) = mset (map fst (snd st))" using assms(2) by simp
  then show "distinct (map fst (order (snd st)))" using assms(1) by (metis mset_eq_imp_distinct_iff working_def memo_true_def)
  show "xm_taken s = {k. (k, True) \<in> set (order (snd st))}"
    using assms(1) mset_eq_setD [OF assms(2)] by (simp add: working_def memo_true_def)
qed

lemma working_start: "working now {} (res, []) (no_claims\<lparr>xm_now := Some now\<rparr>)"
  by (simp add: working_def memo_true_def no_claims_def)

text \<open>The end of a sweep, once its pages are dealt with.\<close>

lemma release_memo_obeys:
  assumes "\<And>h. mset (order h) = mset h" "working now {} st s" "\<And>res. \<exists>y. k res = ret y"
  shows "obeys (sweep_track may key rq) s (release_claims (logged_expiry cfg) (order (snd st)) (fst st) \<bind> k) (\<lambda>x s'. xm_taken s' = {})"
proof -
  note memo = memo_release [where order = order, OF assms(2) assms(1)]
  show ?thesis
  proof (rule obeys_sub [OF release_claims_obeys [OF memo]], goal_cases)
    case (1 res s')
    obtain y where "k res = ret y" using assms(3) by blast
    with 1 show ?case by (simp add: obeys_ret)
  qed
qed

lemma begin_sweep_obeys:
  "(\<And>x. obeys (sweep_track may key rq) s (f1 x) Q) \<Longrightarrow> obeys (sweep_track may key rq) s (logged XvAuth m1 \<bind> f1) Q"
  "(\<And>x. obeys (sweep_track may key rq) s (f2 x) Q) \<Longrightarrow> obeys (sweep_track may key rq) s (logged XvShards m2 \<bind> f2) Q"
  "(\<And>x. obeys (sweep_track may key rq) (s\<lparr>xm_now := Some x\<rparr>) (f3 x) Q) \<Longrightarrow> obeys (sweep_track may key rq) s (logged XvNow m3 \<bind> f3) Q"
  by (rule obeys_step, rule sweep_track_simps, assumption)+

lemma legacy_sweep_obeys:
  assumes "\<And>h. mset (order h) = mset h"
  shows "obeys (sweep_track legacy_may legacy_key legacy_reject) no_claims (legacy_sweep order (logged_expiry cfg) who r)
    (\<lambda>x s'. xm_taken s' = {})"
  unfolding legacy_sweep_def legacy_page_def logged_expiry_simps bind_assoc
  by (intro begin_sweep_obeys obeys_case_option obeys_case_prod obeys_case_sum obeys_ret obeys_sub [OF legacy_page_loop_obeys [OF working_start]] release_memo_obeys assms)
    (auto simp: no_claims_def)

lemma disposition_sweep_obeys:
  assumes "\<And>h. mset (order h) = mset h"
  shows "obeys (sweep_track disposition_may entry_key disposition_reject) no_claims (disposition_sweep order (logged_expiry cfg) who r)
    (\<lambda>x s'. xm_taken s' = {})"
  unfolding disposition_sweep_def disposition_page_def logged_expiry_simps bind_assoc
  by (intro begin_sweep_obeys obeys_case_option obeys_case_prod obeys_case_sum obeys_ret obeys_sub [OF disposition_page_loop_obeys [OF working_start]] release_memo_obeys assms)
    (auto simp: no_claims_def)

section \<open>What a deadline sweep promises\<close>

definition acquired :: "('row, 'ans) expiry_event list \<Rightarrow> session_key list" where
  "acquired cs = concat (map (\<lambda>ev. case ev of XvAcquire q None \<Rightarrow> [cl_key q] | _ \<Rightarrow> []) cs)"

definition given_back :: "('row, 'ans) expiry_event list \<Rightarrow> session_key list" where
  "given_back cs = concat (map (\<lambda>ev. case ev of XvRelease k e \<Rightarrow> [k] | _ \<Rightarrow> []) cs)"

definition shown :: "('row, 'ans) expiry_event list \<Rightarrow> 'row set" where
  "shown cs = (\<Union>ev \<in> set cs. case ev of XvList q (Inr p) \<Rightarrow> set (dp_rows p) | _ \<Rightarrow> {})"

text \<open>The state of the monitor, from the calls it has seen.\<close>

definition monitored :: "'row sweep_monitor \<Rightarrow> ('row, 'ans) expiry_event list \<Rightarrow> bool" where
  "monitored s cs \<longleftrightarrow>
     (\<forall>t. xm_now s = Some t \<longrightarrow> XvNow t \<in> set cs) \<and> xm_rows s = shown cs \<and>
     distinct (acquired cs) \<and> distinct (given_back cs) \<and>
     set (acquired cs) = xm_taken s \<union> xm_back s \<and> set (given_back cs) = xm_back s \<and> xm_taken s \<inter> xm_back s = {}"

lemma run_monitored:
  fixes cs :: "('row, 'ans) expiry_event list"
  assumes "run_monitor (sweep_track may key rq) no_claims cs = Some s"
  shows "monitored s cs"
  using assms
proof (rule run_monitor_invariant)
  show "monitored no_claims []"
    by (simp add: monitored_def no_claims_def acquired_def given_back_def shown_def)
next
  fix s1 s2 and ev :: "('row, 'ans) expiry_event" and pre :: "('row, 'ans) expiry_event list"
  assume s1: "monitored s1 pre" and t: "sweep_track may key rq s1 ev = Some s2"
  show "monitored s2 (pre @ [ev])"
  proof (cases ev)
    case (XvList q r)
    with s1 t show ?thesis
      by (cases r) (auto simp: monitored_def acquired_def given_back_def shown_def)
  next
    case (XvAcquire q e)
    with s1 t show ?thesis
      by (cases e) (auto simp: monitored_def acquired_def given_back_def shown_def split: if_splits)
  qed (use s1 t in \<open>auto simp: monitored_def acquired_def given_back_def shown_def split: if_splits\<close>)
qed

lemma sweep_contract:
  assumes "run_monitor (sweep_track may key rq) no_claims cs = Some s'" "xm_taken s' = {}"
  shows "distinct (acquired cs)" "mset (given_back cs) = mset (acquired cs)"
    "cs = pre @ XvReject q a # post \<Longrightarrow> \<exists>row now. row \<in> shown pre \<and> XvNow now \<in> set pre \<and> q = rq row \<and> may row now \<and>
      key row \<in> set (acquired pre) \<and> key row \<notin> set (given_back pre)"
proof -
  from run_monitored [OF assms(1)] have m: "monitored s' cs" .
  then show "distinct (acquired cs)" by (simp add: monitored_def)
  show "mset (given_back cs) = mset (acquired cs)"
    using m assms(2) by (auto simp: monitored_def set_eq_iff_mset_eq_distinct [symmetric])
  assume cs: "cs = pre @ XvReject q a # post"
  from run_monitor_split [OF assms(1) [unfolded cs]] obtain s1 s2 where
    s1: "run_monitor (sweep_track may key rq) no_claims pre = Some s1" "sweep_track may key rq s1 (XvReject q a) = Some s2" .
  from run_monitored [OF s1(1)] s1(2)
  show "\<exists>row now. row \<in> shown pre \<and> XvNow now \<in> set pre \<and> q = rq row \<and> may row now \<and>
      key row \<in> set (acquired pre) \<and> key row \<notin> set (given_back pre)"
    by (fastforce simp: monitored_def split: if_splits)
qed

lemma legacy_sweep_contract:
  assumes "\<And>h. mset (order h) = mset h"
    "run_state (legacy_sweep order (logged_expiry cfg) who r) (w, []) = (x, (w', cs))"
  shows "distinct (acquired cs) \<and> mset (given_back cs) = mset (acquired cs) \<and>
    (\<forall>pre q a post. cs = pre @ XvReject q a # post \<longrightarrow>
      (\<exists>row now. row \<in> shown pre \<and> XvNow now \<in> set pre \<and> q = legacy_reject row \<and> legacy_may row now \<and>
        legacy_key row \<in> set (acquired pre) \<and> legacy_key row \<notin> set (given_back pre)))"
proof -
  obtain s' where s: "run_monitor (sweep_track legacy_may legacy_key legacy_reject) no_claims cs = Some s'" "xm_taken s' = {}"
    using obeys_run_Nil [OF legacy_sweep_obeys [OF assms(1)] assms(2)] .
  show ?thesis using sweep_contract [OF s] by blast
qed

text \<open>
  C13. A deadline sweep settles only what nobody may still apply, and leaves no claim behind. In
  any run of the disposition sweep, each rejection names a row a page showed it by tenant, session
  and command, at that row's revision, that is pending or claimed, carries no attempt, is under no live claim and is past
  its apply deadline at the instant of the sweep; the sweep then holds the reconciliation
  claim of that session. Each session is claimed at most once, and every claim taken has been
  given back exactly once when the sweep ends, whatever failed and in whatever order the memo
  is walked.
\<close>

theorem disposition_sweep_rejects_expired_under_claim:
  assumes "\<And>h. mset (order h) = mset h"
    "run_state (disposition_sweep order (logged_expiry cfg) who r) (w, []) = (x, (w', cs))"
  shows "distinct (acquired cs) \<and> mset (given_back cs) = mset (acquired cs) \<and>
    (\<forall>pre q a post. cs = pre @ XvReject q a # post \<longrightarrow>
      (\<exists>row now. row \<in> shown pre \<and> XvNow now \<in> set pre \<and>
        rj_tenant q = ib_tenant row \<and> rj_session q = ib_session row \<and>
        rj_command q = ib_command row \<and> rj_revision q = ib_revision row \<and>
        (ib_state row = StatePending \<or> ib_state row = StateClaimed) \<and> \<not> ib_attempt row \<and>
        (\<forall>expires. ib_claim row = Some expires \<longrightarrow> expires \<le> now) \<and> ib_deadline row \<le> now \<and>
        \<lparr>sk_tenant = rj_tenant q, sk_session = rj_session q\<rparr> \<in> set (acquired pre) \<and>
        \<lparr>sk_tenant = rj_tenant q, sk_session = rj_session q\<rparr> \<notin> set (given_back pre)))"
proof -
  obtain s' where s: "run_monitor (sweep_track disposition_may entry_key disposition_reject) no_claims cs = Some s'" "xm_taken s' = {}"
    using obeys_run_Nil [OF disposition_sweep_obeys [OF assms(1)] assms(2)] .
  note c = sweep_contract [OF s]
  have "\<exists>row now. row \<in> shown pre \<and> XvNow now \<in> set pre \<and>
        rj_tenant q = ib_tenant row \<and> rj_session q = ib_session row \<and>
        rj_command q = ib_command row \<and> rj_revision q = ib_revision row \<and>
        (ib_state row = StatePending \<or> ib_state row = StateClaimed) \<and> \<not> ib_attempt row \<and>
        (\<forall>expires. ib_claim row = Some expires \<longrightarrow> expires \<le> now) \<and> ib_deadline row \<le> now \<and>
        \<lparr>sk_tenant = rj_tenant q, sk_session = rj_session q\<rparr> \<in> set (acquired pre) \<and>
        \<lparr>sk_tenant = rj_tenant q, sk_session = rj_session q\<rparr> \<notin> set (given_back pre)"
    if "cs = pre @ XvReject q a # post" for pre q a post
    using c(3) [OF that] by (fastforce simp: disposition_reject_def disposition_may_def entry_key_def)
  with c(1,2) show ?thesis by blast
qed

text \<open>Two sessions with an expired command each, one claimed elsewhere, and a row that is being applied.\<close>

definition sample_row :: "session_id \<Rightarrow> command_id \<Rightarrow> inbox_state \<Rightarrow> disposition_entry" where
  "sample_row s c state =
     \<lparr>ib_tenant = ''t'', ib_session = s, ib_command = c, ib_kind = KindInput, ib_object = False, ib_principal = False,
      ib_metadata = False, ib_state = state, ib_attempt = False, ib_claim = None, ib_deadline = 50, ib_revision = 7, ib_order = 1\<rparr>"

definition sample_expiry :: "(nat, unit, disposition_entry, cerr + bool) expiry_config" where
  "sample_expiry =
     \<lparr>xc_authorize = \<lambda>_. ret None, xc_shards = ret 2,
      xc_list = \<lambda>q. ret (Inr \<lparr>dp_rows = [sample_row ''s1'' ''c1'' StateApplying, sample_row ''s1'' ''c2'' StatePending,
          sample_row ''s2'' ''c3'' StatePending], dp_examined = 3, dp_unreadable = 0, dp_next = []\<rparr>),
      xc_reject = \<lambda>q. ret (Inr True),
      xc_acquire = \<lambda>q. ret (if sk_session (cl_key q) = ''s2''
         then Some (Sentinel (ControlStore (ReconcileError ReconcileHeld 90))) else None),
      xc_release = \<lambda>k h. ret None, xc_now = ret 60, xc_holder = ''me'', xc_ttl = 10, xc_page_limit = 10,
      xc_max_pages = 2, xc_least = 1\<rparr>"

theorem disposition_sweep_rejects_expired_under_claim_witness:
  "\<exists>x w' cs pre a post. run_state (disposition_sweep rev (logged_expiry sample_expiry) () new_rotor) (0, []) = (x, (w', cs)) \<and>
     acquired cs = [\<lparr>sk_tenant = ''t'', sk_session = ''s1''\<rparr>] \<and> given_back cs = acquired cs \<and>
     cs = pre @ XvReject (disposition_reject (sample_row ''s1'' ''c2'' StatePending)) a # post \<and>
     (\<exists>row now. row \<in> shown pre \<and> XvNow now \<in> set pre \<and> ib_command row = ''c2'' \<and> ib_deadline row \<le> now)"
proof -
  let ?run = "run_state (disposition_sweep rev (logged_expiry sample_expiry) () new_rotor) (0, [])"
  let ?q = "disposition_reject (sample_row ''s1'' ''c2'' StatePending)"
  obtain x w' cs where run: "?run = (x, (w', cs))" by (metis prod.exhaust)
  have "acquired (snd (snd ?run)) = [\<lparr>sk_tenant = ''t'', sk_session = ''s1''\<rparr>]"
    "snd (snd ?run) = take 5 (snd (snd ?run)) @ XvReject ?q (Inr True) # drop 6 (snd (snd ?run))"
    by code_simp+
  with run have a: "acquired cs = [\<lparr>sk_tenant = ''t'', sk_session = ''s1''\<rparr>]"
    and cs: "cs = take 5 cs @ XvReject ?q (Inr True) # drop 6 cs" by simp_all
  have "mset (rev h) = mset h" for h :: held by simp
  from disposition_sweep_rejects_expired_under_claim [OF this run] cs
  have "mset (given_back cs) = mset (acquired cs)"
    "\<exists>row now. row \<in> shown (take 5 cs) \<and> XvNow now \<in> set (take 5 cs) \<and> rj_command ?q = ib_command row \<and> ib_deadline row \<le> now"
    by blast+
  moreover from this(1) a have "given_back cs = acquired cs" by simp
  moreover have "rj_command ?q = ''c2''" by (simp add: disposition_reject_def sample_row_def)
  ultimately show ?thesis using run a cs by metis
qed

section \<open>The rotor\<close>

text \<open>The shard a result is about is the one the pass began with.\<close>

lemma claim_loop_shard:
  "sr_shard res = k \<Longrightarrow> yields (claim_loop cfg key now n err res) (\<lambda>x. sr_shard (snd x) = k)"
proof (induction n arbitrary: err res)
  case 0
  then show ?case by (simp add: yields_ret)
next
  case (Suc n)
  show ?case unfolding claim_loop.simps Let_def
  proof (rule yields_bind, goal_cases)
    case (1 e)
    show ?case using Suc by (cases e) (auto simp: queried_def intro!: yields_ret Suc.IH split: option.splits reconcile_code.splits)
  qed
qed

lemma claim_session_shard:
  assumes "sr_shard (fst st) = k"
  shows "yields (claim_session cfg key now st) (\<lambda>x. sr_shard (fst (snd x)) = k)"
proof (cases "map_of (snd st) key")
  case None
  show ?thesis unfolding claim_session_def None option.case
    by (rule yields_sub [OF claim_loop_shard [OF assms]]) (intro yields_case_prod yields_case_sum yields_ret; simp)
qed (use assms in \<open>simp add: claim_session_def yields_ret\<close>)

lemma settle_disposition_shard:
  assumes "sr_shard (fst st) = k"
  shows "yields (settle_disposition cfg row now st) (\<lambda>x. sr_shard (fst (snd x)) = k)"
  unfolding settle_disposition_def Let_def
proof (rule yields_if)
  show "yields (ret (None, apfst (note_outcome (disposition_settleable row now)) st)) (\<lambda>x. sr_shard (fst (snd x)) = k)"
    using assms by (cases st) (simp add: yields_ret note_outcome_def)
qed (rule yields_sub [OF claim_session_shard [OF assms]],
     intro yields_case_prod yields_case_sum yields_if yields_ret yields_bind yields_case_option;
     auto simp: note_outcome_def queried_def)

lemma settle_rows_shard:
  assumes "\<And>row st. sr_shard (fst st) = k \<Longrightarrow> yields (f row st) (\<lambda>x. sr_shard (fst (snd x)) = k)" "sr_shard (fst st) = k"
  shows "yields (settle_rows f xs st) (\<lambda>x. sr_shard (fst (snd x)) = k)"
  using assms(2)
proof (induction xs arbitrary: st)
  case (Cons row xs)
  from assms(1) [OF Cons.prems] show ?case unfolding settle_rows.simps
    by (rule yields_sub) (intro yields_case_prod yields_case_option yields_ret Cons.IH; simp)
qed (simp add: yields_ret)

lemma release_claims_shard: "sr_shard res = k \<Longrightarrow> yields (release_claims cfg ks res) (\<lambda>x. sr_shard x = k)"
proof (induction ks arbitrary: res)
  case (Cons kt ks)
  then show ?case
    by (cases kt) (auto simp: queried_def Let_def intro!: yields_bind yields_case_option Cons.IH)
qed (simp add: yields_ret)

lemma disposition_page_loop_shard:
  "sr_shard (fst st) = k \<Longrightarrow>
   yields (disposition_page_loop cfg shard now n cursor st) (\<lambda>x. sr_shard (fst (snd x)) = k)"
proof (induction n arbitrary: cursor st)
  case 0
  then show ?case by (cases st) (simp add: yields_ret)
next
  case (Suc n)
  have page: "yields (settle_rows (\<lambda>row. settle_disposition cfg row now) (dp_rows p) (apfst (note_due_page p) (apfst queried st)))
      (\<lambda>x. sr_shard (fst (snd x)) = k)" for p
    by (rule settle_rows_shard [OF settle_disposition_shard])
      (use Suc.prems in \<open>cases st, simp_all add: note_due_page_def queried_def\<close>)
  show ?case unfolding disposition_page_loop.simps Let_def
  proof (rule yields_bind, rule yields_case_sum, goal_cases)
    case (1 r err)
    then show ?case using Suc.prems by (cases st) (simp add: yields_ret queried_def)
  next
    case (2 r p)
    show ?case by (rule yields_sub [OF page]) (intro yields_case_prod yields_case_option yields_if yields_ret Suc.IH; simp)
  qed
qed

lemma disposition_sweep_pass:
  assumes "xc_authorize cfg = (\<lambda>_. ret None)" "xc_shards cfg = ret n" "xc_least cfg \<le> n"
    "run_state (disposition_sweep order cfg who r) w = ((x, r'), w')"
  shows "\<exists>c0 r1 c. rotor_begin (xc_least cfg) n r = (Inr (sr_shard (fst x), c0), r1) \<and>
    r' = rotor_commit (sr_shard (fst x)) c r1"
proof -
  obtain shard c0 r1 where b: "rotor_begin (xc_least cfg) n r = (Inr (shard, c0), r1)"
    using deadline_rotor.begin_shard [OF assms(3), of r] by (metis prod.collapse)
  have "yields (disposition_page cfg shard c0 (zero_sweep\<lparr>sr_shard := shard, sr_resumed := (c0 \<noteq> [])\<rparr>, []))
      (\<lambda>x. sr_shard (fst (snd x)) = shard)"
    unfolding disposition_page_def by (intro yields_bind disposition_page_loop_shard) simp
  then have "yields (disposition_sweep order cfg who r) (\<lambda>y. sr_shard (fst (fst y)) = shard \<and> (\<exists>c. snd y = rotor_commit shard c r1))"
    unfolding disposition_sweep_def assms(1,2) bind_left_identity option.simps b prod.case sum.case
    by (rule yields_sub) (rule yields_sub [OF release_claims_shard], assumption, rule yields_ret, auto)
  from yields_run [OF this assms(4)] show ?thesis using b by auto
qed

interpretation disposition_sweeps: shard_sweep rotor_begin rotor_commit ro_next ro_cursors
  "\<lambda>least n. disposition_sweep order (cfg\<lparr>xc_authorize := \<lambda>_. ret None, xc_shards := ret n, xc_least := least\<rparr>) who"
  "\<lambda>x. sr_shard (fst x)"
  for order and cfg :: "('w, 'p, disposition_entry, cerr + bool) expiry_config" and who :: 'p
proof (unfold_locales, goal_cases)
  case (1 least n r w x r' w')
  from disposition_sweep_pass [OF _ _ _ 1(2)] 1(1) show ?case by simp
qed

end
