(* ===== verification/Admission_Queue.thy ===== *)
theory Admission_Queue
  imports Pending
begin

text \<open>
  The fast path from an admitted command to its placement: the coalescing queue of
  \<open>admission_queue.go\<close> and the workers of \<open>serve.go\<close> that drain it. The queue's operations are
  atomic under its mutex; \<open>ready\<close> is a channel with room for one token. The workers' loops are a
  step function over the shared queue, so a run is any interleaving of admissions,
  cancellation and worker steps.
\<close>

section \<open>The queue\<close>

record queued_admission =
  qa_notice :: admission_notice
  qa_in_flight :: bool
  qa_dirty :: bool

record admission_queue =
  aq_ready :: bool \<comment> \<open>the token in the channel\<close>
  aq_limit :: int
  aq_order :: "session_key list"
  aq_items :: "session_key \<Rightarrow> queued_admission option"

definition new_admission_queue :: "int \<Rightarrow> admission_queue" where
  "new_admission_queue limit = \<lparr>aq_ready = False, aq_limit = limit, aq_order = [], aq_items = \<lambda>_. None\<rparr>"

definition aq_signal :: "admission_queue \<Rightarrow> admission_queue" where
  "aq_signal q = q\<lparr>aq_ready := True\<rparr>"

definition notice_key :: "admission_notice \<Rightarrow> session_key" where
  "notice_key n = \<lparr>sk_tenant = an_tenant n, sk_session = an_session n\<rparr>"

definition aq_enqueue :: "admission_notice \<Rightarrow> admission_queue \<Rightarrow> admission_queue" where
  "aq_enqueue n q =
     (if \<not> an_pending n then q
      else case aq_items q (notice_key n) of
        Some item \<Rightarrow>
          q\<lparr>aq_items := (aq_items q)(notice_key n \<mapsto> item\<lparr>qa_notice := n, qa_dirty := qa_dirty item \<or> qa_in_flight item\<rparr>)\<rparr>
      | None \<Rightarrow>
          if int (length (aq_order q)) \<ge> aq_limit q then q
          else aq_signal (q\<lparr>aq_items := (aq_items q)(notice_key n \<mapsto> \<lparr>qa_notice = n, qa_in_flight = False, qa_dirty = False\<rparr>),
                            aq_order := aq_order q @ [notice_key n]\<rparr>))"

text \<open>
  The locked part of one turn of \<open>next\<close>: the head of the order, or nothing. A head without an
  item would be a nil dereference.
\<close>

datatype taken = Took admission_notice session_key admission_queue | Nothing | NilItem

definition aq_take :: "admission_queue \<Rightarrow> taken" where
  "aq_take q =
     (case aq_order q of
        [] \<Rightarrow> Nothing
      | key # rest \<Rightarrow>
          (case aq_items q key of
             None \<Rightarrow> NilItem
           | Some item \<Rightarrow>
               Took (qa_notice item) key (q\<lparr>aq_order := rest, aq_items := (aq_items q)(key \<mapsto> item\<lparr>qa_in_flight := True\<rparr>)\<rparr>)))"

definition aq_finish :: "session_key \<Rightarrow> admission_queue \<Rightarrow> admission_queue" where
  "aq_finish key q =
     (case aq_items q key of
        None \<Rightarrow> q
      | Some item \<Rightarrow>
          if \<not> qa_dirty item then q\<lparr>aq_items := (aq_items q)(key := None)\<rparr>
          else aq_signal (q\<lparr>aq_items := (aq_items q)(key \<mapsto> item\<lparr>qa_in_flight := False, qa_dirty := False\<rparr>),
                            aq_order := aq_order q @ [key]\<rparr>))"

section \<open>The workers\<close>

text \<open>
  A worker is at the top of \<open>next\<close>'s loop, past the unlock and before or in its select, placing a
  session, or has returned. A runtime that hands a token straight to a parked receiver takes the
  receiver's step at once, which is one of the interleavings.
  A worker that dereferences a nil item crashes the process.
\<close>

datatype worker = Looping | Selecting | Placing session_key | Returned_worker | Crashed

record fast_path =
  fp_queue :: admission_queue
  fp_workers :: "worker list"
  fp_cancelled :: bool
  fp_placed :: "admission_notice list" \<comment> \<open>the notices handed to a placement, in order\<close>

definition start_workers :: "int \<Rightarrow> nat \<Rightarrow> fast_path" where
  "start_workers limit n =
     \<lparr>fp_queue = new_admission_queue limit, fp_workers = replicate n Looping, fp_cancelled = False, fp_placed = []\<rparr>"

text \<open>The turn of one worker. A select with both cases ready may take either.\<close>

datatype action = Admit admission_notice | Cancel | Turn nat | Receive nat | Finish nat

definition set_worker :: "nat \<Rightarrow> worker \<Rightarrow> fast_path \<Rightarrow> fast_path" where
  "set_worker i v s = s\<lparr>fp_workers := (fp_workers s)[i := v]\<rparr>"

definition worker_turn :: "nat \<Rightarrow> fast_path \<Rightarrow> fast_path" where
  "worker_turn i s =
     (if fp_cancelled s then set_worker i Returned_worker s
      else case aq_take (fp_queue s) of
        Took n key q \<Rightarrow> (set_worker i (Placing key) s)\<lparr>fp_queue := q, fp_placed := fp_placed s @ [n]\<rparr>
      | Nothing \<Rightarrow> set_worker i Selecting s
      | NilItem \<Rightarrow> set_worker i Crashed s)"

definition fast_step :: "action \<Rightarrow> fast_path \<Rightarrow> fast_path option" where
  "fast_step a s =
     (case a of
        Admit n \<Rightarrow> Some (s\<lparr>fp_queue := aq_enqueue n (fp_queue s)\<rparr>)
      | Cancel \<Rightarrow> Some (s\<lparr>fp_cancelled := True\<rparr>)
      | Turn i \<Rightarrow>
          if i < length (fp_workers s) \<and> fp_workers s ! i = Looping then Some (worker_turn i s)
          else if i < length (fp_workers s) \<and> fp_workers s ! i = Selecting \<and> fp_cancelled s
          then Some (set_worker i Returned_worker s) else None
      | Receive i \<Rightarrow>
          if i < length (fp_workers s) \<and> fp_workers s ! i = Selecting \<and> aq_ready (fp_queue s)
          then Some ((set_worker i Looping s)\<lparr>fp_queue := (fp_queue s)\<lparr>aq_ready := False\<rparr>\<rparr>) else None
      | Finish i \<Rightarrow>
          if i < length (fp_workers s)
          then (case fp_workers s ! i of
                  Placing key \<Rightarrow> Some ((set_worker i Looping s)\<lparr>fp_queue := aq_finish key (fp_queue s)\<rparr>)
                | _ \<Rightarrow> None)
          else None)"

fun fast_run :: "action list \<Rightarrow> fast_path \<Rightarrow> fast_path option" where
  "fast_run [] s = Some s"
| "fast_run (a # as) s = (case fast_step a s of None \<Rightarrow> None | Some s' \<Rightarrow> fast_run as s')"

section \<open>What is owed\<close>

text \<open>
  The specification: for each session the latest notice not yet handed to a placement. An
  admission replaces it, a take hands it out, a finish changes nothing.
\<close>

definition owed :: "admission_queue \<Rightarrow> session_key \<Rightarrow> admission_notice option" where
  "owed q key =
     (case aq_items q key of
        None \<Rightarrow> None
      | Some item \<Rightarrow> if qa_in_flight item \<and> \<not> qa_dirty item then None else Some (qa_notice item))"

definition aq_accepts :: "admission_notice \<Rightarrow> admission_queue \<Rightarrow> bool" where
  "aq_accepts n q \<longleftrightarrow> an_pending n \<and> (aq_items q (notice_key n) \<noteq> None \<or> int (length (aq_order q)) < aq_limit q)"

section \<open>The invariant\<close>

definition waiting :: "admission_queue \<Rightarrow> session_key set" where
  "waiting q = {k. \<exists>item. aq_items q k = Some item \<and> \<not> qa_in_flight item}"

definition flying :: "admission_queue \<Rightarrow> session_key set" where
  "flying q = {k. \<exists>item. aq_items q k = Some item \<and> qa_in_flight item}"

definition aq_ok :: "admission_queue \<Rightarrow> bool" where
  "aq_ok q \<longleftrightarrow>
     distinct (aq_order q) \<and> set (aq_order q) = waiting q \<and>
     (\<forall>k item. aq_items q k = Some item \<longrightarrow>
        notice_key (qa_notice item) = k \<and> an_pending (qa_notice item) \<and> (qa_dirty item \<longrightarrow> qa_in_flight item))"

fun placing_of :: "worker \<Rightarrow> session_key list" where
  "placing_of (Placing k) = [k]"
| "placing_of _ = []"

definition in_flight :: "fast_path \<Rightarrow> session_key list" where
  "in_flight s = concat (map placing_of (fp_workers s))"

definition busy :: "worker \<Rightarrow> bool" where
  "busy v \<longleftrightarrow> v = Looping \<or> (\<exists>k. v = Placing k)"

definition fast_ok :: "fast_path \<Rightarrow> bool" where
  "fast_ok s \<longleftrightarrow>
     aq_ok (fp_queue s) \<and> distinct (in_flight s) \<and> set (in_flight s) = flying (fp_queue s) \<and>
     Crashed \<notin> set (fp_workers s) \<and>
     (aq_order (fp_queue s) \<noteq> [] \<longrightarrow> aq_ready (fp_queue s) \<or> (\<exists>v \<in> set (fp_workers s). busy v) \<or> fp_cancelled s) \<and>
     (0 \<le> aq_limit (fp_queue s) \<longrightarrow>
        int (length (aq_order (fp_queue s)) + length (in_flight s)) \<le> aq_limit (fp_queue s) + int (length (fp_workers s)))"

lemmas queue_defs = aq_ok_def waiting_def flying_def

lemma session_key_split [simp]: "notice_key n = notice_key n' \<longleftrightarrow> an_tenant n = an_tenant n' \<and> an_session n = an_session n'"
  by (simp add: notice_key_def)

section \<open>The operations keep the queue's invariant\<close>

lemma aq_enqueue_limit [simp]: "aq_limit (aq_enqueue n q) = aq_limit q"
  by (simp add: aq_enqueue_def aq_signal_def split: option.split)

lemma aq_finish_limit [simp]: "aq_limit (aq_finish key q) = aq_limit q"
  by (simp add: aq_finish_def aq_signal_def split: option.split)

lemma aq_enqueue_ok:
  assumes "aq_ok q"
  shows "aq_ok (aq_enqueue n q)" "flying (aq_enqueue n q) = flying q"
proof -
  show "flying (aq_enqueue n q) = flying q"
    by (auto simp: flying_def aq_enqueue_def aq_signal_def split: option.splits)
  show "aq_ok (aq_enqueue n q)"
  proof (cases "aq_items q (notice_key n)")
    case None
    then have "notice_key n \<notin> set (aq_order q)" using assms by (auto simp: queue_defs)
    with None assms show ?thesis by (auto simp: queue_defs aq_enqueue_def aq_signal_def)
  next
    case (Some item)
    with assms show ?thesis by (auto simp: queue_defs aq_enqueue_def)
  qed
qed

lemma enqueue_order:
  "aq_order (aq_enqueue n q) = aq_order q \<and> aq_ready (aq_enqueue n q) = aq_ready q \<or>
   int (length (aq_order q)) < aq_limit q \<and> aq_order (aq_enqueue n q) = aq_order q @ [notice_key n] \<and> aq_ready (aq_enqueue n q)"
  by (auto simp: aq_enqueue_def aq_signal_def split: option.split)

lemma take_ok:
  assumes "aq_ok q" "aq_take q = Took n key q'"
  shows "aq_ok q'" "flying q' = insert key (flying q)" "key \<notin> flying q" "aq_order q = key # aq_order q'"
    "aq_limit q' = aq_limit q" "notice_key n = key" "an_pending n"
proof -
  obtain rest item where o: "aq_order q = key # rest" "aq_items q key = Some item" "n = qa_notice item"
    "q' = q\<lparr>aq_order := rest, aq_items := (aq_items q)(key \<mapsto> item\<lparr>qa_in_flight := True\<rparr>)\<rparr>"
    using assms(2) by (auto simp: aq_take_def split: list.splits option.splits)
  have w: "key \<in> waiting q" "key \<notin> set rest" "set rest \<subseteq> waiting q"
    using assms(1) o(1) by (auto simp: aq_ok_def)
  have nf: "\<not> qa_in_flight item" using w(1) o(2) by (auto simp: waiting_def)
  show "aq_ok q'" using assms(1) o w by (auto simp: queue_defs)
  show "flying q' = insert key (flying q)" "key \<notin> flying q"
    using o nf by (auto simp: flying_def)
  show "aq_order q = key # aq_order q'" "aq_limit q' = aq_limit q" using o by simp_all
  show "notice_key n = key" "an_pending n" using assms(1) o by (auto simp: aq_ok_def)
qed

lemma take_never_nil:
  assumes "aq_ok q"
  shows "aq_take q \<noteq> NilItem"
proof (cases "aq_order q")
  case (Cons key rest)
  with assms have "key \<in> waiting q" by (auto simp: aq_ok_def)
  with Cons show ?thesis by (auto simp: aq_take_def waiting_def)
qed (simp add: aq_take_def)

lemma take_nothing: "aq_take q = Nothing \<longleftrightarrow> aq_order q = []"
  by (auto simp: aq_take_def split: list.splits option.splits)

lemma finish_ok:
  assumes "aq_ok q" "key \<in> flying q"
  shows "aq_ok (aq_finish key q)" "flying (aq_finish key q) = flying q - {key}"
    "length (aq_order (aq_finish key q)) \<le> length (aq_order q) + 1"
    "aq_order (aq_finish key q) = aq_order q \<or> aq_ready (aq_finish key q)"
proof -
  obtain item where i: "aq_items q key = Some item" "qa_in_flight item" using assms(2) by (auto simp: flying_def)
  then have "key \<notin> set (aq_order q)" using assms(1) by (auto simp: queue_defs)
  with i assms(1) show "aq_ok (aq_finish key q)"
    by (auto simp: queue_defs aq_finish_def aq_signal_def)
  show "flying (aq_finish key q) = flying q - {key}"
    using i by (auto simp: flying_def aq_finish_def aq_signal_def)
  show "length (aq_order (aq_finish key q)) \<le> length (aq_order q) + 1"
    "aq_order (aq_finish key q) = aq_order q \<or> aq_ready (aq_finish key q)"
    using i by (auto simp: aq_finish_def aq_signal_def)
qed

section \<open>The operations refine the specification\<close>

lemma owed_enqueue:
  "owed (aq_enqueue n q) = (if aq_accepts n q then (owed q)(notice_key n \<mapsto> n) else owed q)"
  by (rule ext) (auto simp: owed_def aq_accepts_def aq_enqueue_def aq_signal_def split: option.splits)

lemma owed_take:
  assumes "aq_ok q" "aq_take q = Took n key q'"
  shows "owed q key = Some n" "owed q' = (owed q)(key := None)"
proof -
  obtain rest item where o: "aq_order q = key # rest" "aq_items q key = Some item" "n = qa_notice item"
    "q' = q\<lparr>aq_order := rest, aq_items := (aq_items q)(key \<mapsto> item\<lparr>qa_in_flight := True\<rparr>)\<rparr>"
    using assms(2) by (auto simp: aq_take_def split: list.splits option.splits)
  have "key \<in> waiting q" using assms(1) o(1) by (auto simp: aq_ok_def)
  then have f: "\<not> qa_in_flight item" "\<not> qa_dirty item" using o(2) assms(1) by (auto simp: queue_defs)
  show "owed q key = Some n" using o f by (simp add: owed_def)
  show "owed q' = (owed q)(key := None)" using o f by (auto simp: owed_def fun_eq_iff)
qed

lemma owed_finish:
  assumes "aq_ok q" "key \<in> flying q"
  shows "owed (aq_finish key q) = owed q"
  using assms by (auto simp: owed_def aq_finish_def aq_signal_def flying_def fun_eq_iff)

section \<open>Every run keeps the invariant\<close>

lemma worker_at:
  assumes "i < length ws"
  obtains pre post where "ws = pre @ ws ! i # post" "\<And>v. ws[i := v] = pre @ v # post"
  using assms that [of "take i ws" "drop (Suc i) ws"] by (simp add: id_take_nth_drop [symmetric] upd_conv_take_nth_drop)

lemma in_flight_set_worker:
  assumes "i < length (fp_workers s)"
  obtains pre post where "in_flight s = pre @ placing_of (fp_workers s ! i) @ post"
    "\<And>v. in_flight (set_worker i v s) = pre @ placing_of v @ post"
proof -
  obtain p t where w: "fp_workers s = p @ fp_workers s ! i # t" "\<And>v. (fp_workers s)[i := v] = p @ v # t"
    by (rule worker_at [OF assms]) blast
  have "in_flight s = concat (map placing_of (p @ fp_workers s ! i # t))"
    using w(1) unfolding in_flight_def by simp
  then show thesis
    using that [of "concat (map placing_of p)" "concat (map placing_of t)"] w(2)
    by (simp add: in_flight_def set_worker_def)
qed

lemma in_flight_le_workers: "length (in_flight s) \<le> length (fp_workers s)"
proof -
  have "length (concat (map placing_of ws)) \<le> length ws" for ws
  proof (induction ws)
    case (Cons v ws)
    then show ?case by (cases v) simp_all
  qed simp
  then show ?thesis by (simp add: in_flight_def)
qed

lemma in_flight_queue [simp]: "in_flight (s\<lparr>fp_queue := q\<rparr>) = in_flight s"
  "in_flight (s\<lparr>fp_placed := p\<rparr>) = in_flight s" "in_flight (s\<lparr>fp_cancelled := b\<rparr>) = in_flight s"
  by (simp_all add: in_flight_def)

lemma set_worker_simps [simp]:
  "fp_queue (set_worker i v s) = fp_queue s" "fp_placed (set_worker i v s) = fp_placed s"
  "fp_cancelled (set_worker i v s) = fp_cancelled s" "length (fp_workers (set_worker i v s)) = length (fp_workers s)"
  by (simp_all add: set_worker_def)

lemma workers_set_worker: "v' \<in> set (fp_workers (set_worker i v s)) \<Longrightarrow> v' = v \<or> v' \<in> set (fp_workers s)"
  by (auto simp: set_worker_def dest: set_update_subset_insert [THEN subsetD])

lemma worker_set: "i < length (fp_workers s) \<Longrightarrow> v \<in> set (fp_workers (set_worker i v s))"
  by (simp add: set_worker_def set_update_memI)

lemma admit_ok:
  assumes "fast_ok s"
  shows "fast_ok (s\<lparr>fp_queue := aq_enqueue n (fp_queue s)\<rparr>)"
proof -
  have q: "aq_ok (fp_queue s)" using assms by (simp add: fast_ok_def)
  have "length (in_flight s) \<le> length (fp_workers s)" by (rule in_flight_le_workers)
  then show ?thesis
    using assms aq_enqueue_ok [OF q] enqueue_order [of n "fp_queue s"] unfolding fast_ok_def by auto
qed

text \<open>A worker that leaves its place without touching the queue, from or to one that places nothing.\<close>

lemma move_ok:
  assumes "fast_ok s" "i < length (fp_workers s)" "placing_of (fp_workers s ! i) = []" "placing_of v = []" "v \<noteq> Crashed"
    "busy v \<or> \<not> busy (fp_workers s ! i) \<or> fp_cancelled s \<or> aq_order (fp_queue s) = []"
  shows "fast_ok (set_worker i v s)"
proof -
  obtain pre post where fl: "in_flight s = pre @ post" "in_flight (set_worker i v s) = pre @ post"
    using in_flight_set_worker [OF assms(2)] assms(3,4) by (metis append_Nil)
  have "\<exists>v' \<in> set (fp_workers (set_worker i v s)). busy v'"
    if "\<exists>v' \<in> set (fp_workers s). busy v'" "busy v \<or> \<not> busy (fp_workers s ! i)"
  proof (cases "busy v")
    case True
    then show ?thesis using worker_set [OF assms(2)] by blast
  next
    case False
    with that obtain j where "j < length (fp_workers s)" "busy (fp_workers s ! j)" "j \<noteq> i" by (metis in_set_conv_nth)
    then have "(fp_workers (set_worker i v s)) ! j = fp_workers s ! j" "j < length (fp_workers (set_worker i v s))"
      by (simp_all add: set_worker_def)
    with \<open>busy (fp_workers s ! j)\<close> show ?thesis by (metis nth_mem)
  qed
  moreover have "Crashed \<notin> set (fp_workers (set_worker i v s))"
    using assms(1,5) workers_set_worker unfolding fast_ok_def by blast
  ultimately show ?thesis using assms(1,6) fl unfolding fast_ok_def by auto
qed

lemma turn_ok:
  assumes "fast_ok s" "i < length (fp_workers s)" "fp_workers s ! i = Looping"
  shows "fast_ok (worker_turn i s)"
proof (cases "fp_cancelled s")
  case True
  then show ?thesis using move_ok [OF assms(1,2), of Returned_worker] assms(3) by (simp add: worker_turn_def)
next
  case False
  have q: "aq_ok (fp_queue s)" using assms(1) by (simp add: fast_ok_def)
  show ?thesis
  proof (cases "aq_take (fp_queue s)")
    case (Took n key q')
    note t = take_ok [OF q Took]
    obtain pre post where fl: "in_flight s = pre @ post" "in_flight (set_worker i (Placing key) s) = pre @ key # post"
      using in_flight_set_worker [OF assms(2)] assms(3) by (metis append_Cons append_Nil placing_of.simps(1,2))
    have "Crashed \<notin> set (fp_workers (set_worker i (Placing key) s))"
      using assms(1) workers_set_worker unfolding fast_ok_def by blast
    moreover have "\<exists>v \<in> set (fp_workers (set_worker i (Placing key) s)). busy v"
      using worker_set [OF assms(2)] by (auto simp: busy_def)
    ultimately show ?thesis
      using assms(1) t fl False unfolding fast_ok_def worker_turn_def by (auto simp: Took)
  next
    case Nothing
    then have "aq_order (fp_queue s) = []" by (simp add: take_nothing)
    then show ?thesis using move_ok [OF assms(1,2), of Selecting] assms(3) False Nothing by (simp add: worker_turn_def)
  qed (simp add: take_never_nil [OF q])
qed

lemma receive_ok:
  assumes "fast_ok s" "i < length (fp_workers s)" "fp_workers s ! i = Selecting"
  shows "fast_ok ((set_worker i Looping s)\<lparr>fp_queue := (fp_queue s)\<lparr>aq_ready := False\<rparr>\<rparr>)"
proof -
  have "fast_ok (set_worker i Looping s)" using move_ok [OF assms(1,2), of Looping] assms(3) by (simp add: busy_def)
  moreover have "\<exists>v \<in> set (fp_workers (set_worker i Looping s)). busy v"
    using worker_set [OF assms(2)] by (auto simp: busy_def)
  ultimately show ?thesis unfolding fast_ok_def by (auto simp: queue_defs)
qed

lemma finish_step_ok:
  assumes "fast_ok s" "i < length (fp_workers s)" "fp_workers s ! i = Placing key"
  shows "fast_ok ((set_worker i Looping s)\<lparr>fp_queue := aq_finish key (fp_queue s)\<rparr>)"
proof -
  obtain pre post where fl: "in_flight s = pre @ key # post" "in_flight (set_worker i Looping s) = pre @ post"
    using in_flight_set_worker [OF assms(2)] assms(3) by (metis append_Cons append_Nil placing_of.simps(1,2))
  have q: "aq_ok (fp_queue s)" "key \<in> flying (fp_queue s)" using assms(1) fl(1) by (auto simp: fast_ok_def)
  have "Crashed \<notin> set (fp_workers (set_worker i Looping s))"
    using assms(1) workers_set_worker unfolding fast_ok_def by blast
  moreover have "\<exists>v \<in> set (fp_workers (set_worker i Looping s)). busy v"
    using worker_set [OF assms(2)] by (auto simp: busy_def)
  ultimately show ?thesis using assms(1) finish_ok [OF q] fl unfolding fast_ok_def by auto
qed

lemma cancel_ok: "fast_ok s \<Longrightarrow> fast_ok (s\<lparr>fp_cancelled := True\<rparr>)"
  by (simp add: fast_ok_def)

lemma fast_step_ok:
  assumes "fast_ok s" "fast_step a s = Some s'"
  shows "fast_ok s'"
proof (cases a)
  case (Turn i)
  with assms turn_ok [OF assms(1), of i] move_ok [OF assms(1), of i Returned_worker] show ?thesis
    by (auto simp: fast_step_def busy_def split: if_splits)
next
  case (Finish i)
  with assms finish_step_ok [OF assms(1), of i] show ?thesis
    by (auto simp: fast_step_def split: if_splits worker.splits)
qed (use assms admit_ok cancel_ok receive_ok in \<open>auto simp: fast_step_def split: if_splits\<close>)

lemma fast_run_ok: "fast_ok s \<Longrightarrow> fast_run as s = Some s' \<Longrightarrow> fast_ok s'"
  by (induction as arbitrary: s) (auto split: option.splits dest: fast_step_ok)

lemma start_ok: "fast_ok (start_workers limit n)"
  by (auto simp: fast_ok_def start_workers_def new_admission_queue_def queue_defs in_flight_def)

lemma fast_step_static:
  "fast_step a s = Some s' \<Longrightarrow> length (fp_workers s') = length (fp_workers s) \<and> aq_limit (fp_queue s') = aq_limit (fp_queue s)"
  by (auto simp: fast_step_def worker_turn_def aq_take_def split: action.splits if_splits worker.splits taken.splits list.splits option.splits)

lemma fast_run_static:
  "fast_run as s = Some s' \<Longrightarrow> length (fp_workers s') = length (fp_workers s) \<and> aq_limit (fp_queue s') = aq_limit (fp_queue s)"
proof (induction as arbitrary: s)
  case (Cons a as)
  then obtain s1 where "fast_step a s = Some s1" "fast_run as s1 = Some s'" by (auto split: option.splits)
  with Cons.IH fast_step_static [of a s s1] show ?case by simp
qed simp

section \<open>Properties\<close>


definition sample_notice :: "session_id \<Rightarrow> command_id \<Rightarrow> admission_notice" where
  "sample_notice s c = \<lparr>an_tenant = ''t'', an_session = s, an_command = c, an_order = 1, an_deadline = 100, an_pending = True\<rparr>"

definition two_admissions :: "action list" where
  "two_admissions = [Turn 0, Turn 1, Admit (sample_notice ''a'' ''c1''), Admit (sample_notice ''b'' ''c2''), Receive 0, Turn 0]"

definition after_two :: fast_path where
  "after_two = the (fast_run two_admissions (start_workers 8 2))"

lemma after_two:
  "fast_run two_admissions (start_workers 8 2) = Some after_two"
  "fp_workers after_two = [Placing (notice_key (sample_notice ''a'' ''c1'')), Selecting]"
  "aq_order (fp_queue after_two) = [notice_key (sample_notice ''b'' ''c2'')]" "\<not> aq_ready (fp_queue after_two)"
  "\<not> fp_cancelled after_two" "fp_placed after_two = [sample_notice ''a'' ''c1'']"
  by (simp_all add: after_two_def two_admissions_def start_workers_def new_admission_queue_def fast_step_def worker_turn_def
      aq_take_def set_worker_def aq_enqueue_def aq_signal_def sample_notice_def notice_key_def numeral_2_eq_2)




text \<open>
  C40. One token wakes one worker. Two admissions that arrive while both workers have found the
  order empty and have not yet parked on the channel leave a single token: the first worker takes
  it and places the first session, and the second session stays queued with no token while the
  other worker waits in its select, for as long as the first placement lasts. Only a step of the
  busy worker, a further admission or a cancellation moves the path on.
\<close>

theorem second_admission_waits_beside_idle_worker:
  "\<exists>s. fast_run two_admissions (start_workers 8 2) = Some s \<and> aq_order (fp_queue s) \<noteq> [] \<and>
     fp_workers s ! 1 = Selecting \<and> fast_step (Turn 1) s = None \<and> fast_step (Receive 1) s = None \<and>
     (\<forall>a. fast_step a s = None \<or> a = Finish 0 \<or> a = Cancel \<or> (\<exists>n. a = Admit n))"
proof -
  have "a = Finish 0 \<or> a = Cancel \<or> (\<exists>n. a = Admit n)" if "fast_step a after_two = Some s'" for a s'
    using that after_two by (cases a) (auto simp: fast_step_def less_Suc_eq split: if_splits worker.splits)
  then have "fast_step a after_two = None \<or> a = Finish 0 \<or> a = Cancel \<or> (\<exists>n. a = Admit n)" for a
    by (cases "fast_step a after_two") auto
  then show ?thesis
    using after_two by (intro exI [of _ after_two]) (auto simp: fast_step_def)
qed

end
