(* ===== verification/Journal.thy ===== *)
theory Journal
  imports Go_Strings Trace
begin

text \<open>
  The read plane of a Host-owned session's journal, \<open>journal.go\<close>: the read is routed by the
  session's binding, addressed to the runtime session, and its cursors are wrapped so that a
  continuation is good only for the public session and the binding it was issued for. The
  catalog, the legacy reader, the deployment's resolver and SHA-256 are parameters; the value of
  the store's disposition mode is one too.
\<close>

section \<open>Data\<close>

record session_binding =
  sb_storage :: string
  sb_version :: string
  sb_runtime :: string
  sb_mode :: string

datatype journal_error = JournalInvalid string | JournalCursor string | JournalOther store_error

type_synonym jerr = "journal_error go_err"

text \<open>The members of a request and of a page the plane does not look at are carried along.\<close>

record 'q public_read =
  jq_key :: session_key
  jq_cursor :: cursor
  jq_rest :: 'q

record 'p public_page =
  jp_next :: cursor
  jp_previous :: cursor
  jp_rest :: 'p

type_synonym ('w, 'q, 'p) journal_reader = "'q public_read \<Rightarrow> ('w, jerr + 'p public_page) state"

record ('w, 'q, 'p) journal_config =
  jc_binding :: "session_key \<Rightarrow> ('w, jerr + session_binding) state" \<comment> \<open>the binding of the catalog entry\<close>
  jc_legacy :: "('w, 'q, 'p) journal_reader" \<comment> \<open>the composed session reader\<close>
  jc_resolve :: "session_key \<Rightarrow> session_binding \<Rightarrow> ('w, jerr + ('w, 'q, 'p) journal_reader option) state"
  jc_sha :: "bytes \<Rightarrow> bytes"
  jc_disposition :: string

section \<open>Cursors\<close>

definition journal_cursor_version :: string where
  "journal_cursor_version = ''j1''"

definition journal_cursor_domain :: string where
  "journal_cursor_domain = ''looprig/factory/resolved-journal-cursor/v1'' @ [nul]"

definition max_journal_cursor_bytes :: nat where
  "max_journal_cursor_bytes = 8192"

definition scope_parts :: "session_key \<Rightarrow> session_binding \<Rightarrow> bytes list" where
  "scope_parts k b = [sk_tenant k, sk_session k, sb_storage b, sb_version b, sb_runtime b, sb_mode b]"

definition scope_field :: "bytes \<Rightarrow> bytes" where
  "scope_field p = put_uint64 (of_nat (length p)) @ p"

definition scope_preimage :: "session_key \<Rightarrow> session_binding \<Rightarrow> bytes" where
  "scope_preimage k b = journal_cursor_domain @ concat (map scope_field (scope_parts k b))"

definition journal_cursor_scope :: "(bytes \<Rightarrow> bytes) \<Rightarrow> session_key \<Rightarrow> session_binding \<Rightarrow> string" where
  "journal_cursor_scope sha k b = hex_encode (sha (scope_preimage k b))"

definition journal_cursor_error :: jerr where
  "journal_cursor_error = Sentinel (JournalCursor ''cursor'')"

definition wrap_journal_cursor :: "(bytes \<Rightarrow> bytes) \<Rightarrow> session_key \<Rightarrow> session_binding \<Rightarrow> cursor \<Rightarrow> jerr + cursor" where
  "wrap_journal_cursor sha k b inner =
     (if inner = [] then Inr []
      else let token = journal_cursor_version @ ''.'' @ journal_cursor_scope sha k b @ ''.'' @ b64_encode inner
           in if length token > max_journal_cursor_bytes then Inl journal_cursor_error else Inr token)"

definition unwrap_journal_cursor :: "(bytes \<Rightarrow> bytes) \<Rightarrow> session_key \<Rightarrow> session_binding \<Rightarrow> cursor \<Rightarrow> jerr + cursor" where
  "unwrap_journal_cursor sha k b token =
     (if token = [] then Inr []
      else if length token > max_journal_cursor_bytes then Inl journal_cursor_error
      else case split_on CHR ''.'' token of
        [v, scope, body] \<Rightarrow>
          if v \<noteq> journal_cursor_version \<or> scope \<noteq> journal_cursor_scope sha k b \<or> body = [] then Inl journal_cursor_error
          else (case b64_decode body of
                  None \<Rightarrow> Inl journal_cursor_error
                | Some inner \<Rightarrow> if inner = [] then Inl journal_cursor_error else Inr inner)
      | _ \<Rightarrow> Inl journal_cursor_error)"

section \<open>The read\<close>

definition wrap_page ::
  "(bytes \<Rightarrow> bytes) \<Rightarrow> session_key \<Rightarrow> session_binding \<Rightarrow> 'p public_page \<Rightarrow> jerr + 'p public_page" where
  "wrap_page sha k b page =
     (case wrap_journal_cursor sha k b (jp_next page) of
        Inl err \<Rightarrow> Inl err
      | Inr next \<Rightarrow>
          (case wrap_journal_cursor sha k b (jp_previous page) of
             Inl err \<Rightarrow> Inl err
           | Inr prev \<Rightarrow> Inr (page\<lparr>jp_next := next, jp_previous := prev\<rparr>)))"

definition runtime_key :: "session_key \<Rightarrow> session_binding \<Rightarrow> session_key" where
  "runtime_key k b = k\<lparr>sk_session := sb_runtime b\<rparr>"

definition read_public_journal ::
  "('w, 'q, 'p) journal_config \<Rightarrow> 'q public_read \<Rightarrow> ('w, jerr + 'p public_page) state" where
  "read_public_journal cfg req = do {
     e \<leftarrow> jc_binding cfg (jq_key req);
     case e of
       Inl err \<Rightarrow> ret (Inl err)
     | Inr b \<Rightarrow>
         if sb_mode b \<noteq> jc_disposition cfg then jc_legacy cfg req
         else if sb_runtime b = [] then ret (Inl (Wrapped [Sentinel (JournalInvalid ''binding.runtime_session_id'')]))
         else do {
           r \<leftarrow> jc_resolve cfg (jq_key req) b;
           case r of
             Inl err \<Rightarrow> ret (Inl (Wrapped [err]))
           | Inr None \<Rightarrow> ret (Inl (Opaque ''the journal resolver answered no reader''))
           | Inr (Some reader) \<Rightarrow>
               (case unwrap_journal_cursor (jc_sha cfg) (jq_key req) b (jq_cursor req) of
                  Inl err \<Rightarrow> ret (Inl err)
                | Inr inner \<Rightarrow> do {
                    p \<leftarrow> reader (req\<lparr>jq_key := runtime_key (jq_key req) b, jq_cursor := inner\<rparr>);
                    case p of
                      Inl err \<Rightarrow> ret (Inl err)
                    | Inr page \<Rightarrow> ret (wrap_page (jc_sha cfg) (jq_key req) b page)
                  })
         }
   }"

section \<open>The scope of a cursor\<close>

lemma hex_byte_inject: "hex_byte c = hex_byte d \<longleftrightarrow> c = d"
proof
  assume eq: "hex_byte c = hex_byte d"
  have "distinct hex_digits" "length hex_digits = 16" by (simp_all add: hex_digits_def)
  moreover have "(of_char c :: nat) div 16 < 16" "(of_char d :: nat) div 16 < 16"
    using of_char_bound [of c] of_char_bound [of d] by linarith+
  ultimately have "(of_char c :: nat) div 16 = of_char d div 16" "(of_char c :: nat) mod 16 = of_char d mod 16"
    using eq by (simp_all add: hex_byte_def nth_eq_iff_index_eq)
  then have "(of_char c :: nat) = of_char d" by (metis div_mult_mod_eq)
  then show "c = d" by simp
qed simp

lemma hex_encode_inject: "hex_encode as = hex_encode bs \<longleftrightarrow> as = bs"
proof (induction as arbitrary: bs)
  case Nil
  then show ?case by (cases bs) (simp_all add: hex_encode_def hex_byte_def)
next
  case (Cons a as)
  show ?case
  proof (cases bs)
    case (Cons b cs)
    have "length (hex_byte a) = length (hex_byte b)" by (simp add: hex_byte_def)
    then show ?thesis using Cons.IH [of cs] Cons by (simp add: hex_encode_def hex_byte_inject)
  qed (simp add: hex_encode_def hex_byte_def)
qed

lemma scope_field_inject:
  assumes "length p < 2 ^ 64" "length q < 2 ^ 64"
  shows "scope_field p @ x = scope_field q @ y \<longleftrightarrow> p = q \<and> x = y"
proof
  assume "scope_field p @ x = scope_field q @ y"
  then have w: "(of_nat (length p) :: u64) = of_nat (length q)" and pq: "p @ x = q @ y"
    by (simp_all add: scope_field_def put_uint64_inject)
  have "unat (of_nat n :: u64) = n" if "n < 2 ^ 64" for n
    using that by (simp add: unat_of_nat take_bit_nat_eq_self)
  with w assms have "length p = length q" by metis
  with pq show "p = q \<and> x = y" by simp
qed simp

lemma scope_fields_inject:
  assumes "length ps = length qs" "\<forall>p \<in> set ps \<union> set qs. length p < 2 ^ 64"
    "concat (map scope_field ps) = concat (map scope_field qs)"
  shows "ps = qs"
  using assms by (induction ps qs rule: list_induct2) (simp_all add: scope_field_inject)

definition scope_bounded :: "session_key \<Rightarrow> session_binding \<Rightarrow> bool" where
  "scope_bounded k b \<longleftrightarrow> (\<forall>p \<in> set (scope_parts k b). length p < 2 ^ 64)"

lemma scope_preimage_inject:
  assumes "scope_bounded k b" "scope_bounded k' b'" "scope_preimage k b = scope_preimage k' b'"
  shows "k = k' \<and> b = b'"
proof -
  have "scope_parts k b = scope_parts k' b'"
  proof (rule scope_fields_inject)
    show "length (scope_parts k b) = length (scope_parts k' b')" by (simp add: scope_parts_def)
    show "\<forall>p \<in> set (scope_parts k b) \<union> set (scope_parts k' b'). length p < 2 ^ 64"
      using assms(1,2) unfolding scope_bounded_def by blast
  qed (use assms(3) in \<open>simp add: scope_preimage_def\<close>)
  then show ?thesis by (simp add: scope_parts_def)
qed

lemma scope_no_dot: "CHR ''.'' \<notin> set (journal_cursor_scope sha k b)"
  using hex_encode_hex [of "sha (scope_preimage k b)"]
  by (auto simp: journal_cursor_scope_def is_lower_hex_def list_all_iff Let_def)

lemma encoded_no_dot: "CHR ''.'' \<notin> set (b64_encode inner)"
  using b64_encode_chars [of inner] b64_alphabet_facts(3) by blast

text \<open>What a wrapped token splits into.\<close>

lemma split_token:
  "split_on CHR ''.'' (journal_cursor_version @ ''.'' @ journal_cursor_scope sha k b @ ''.'' @ b64_encode inner) =
     [journal_cursor_version, journal_cursor_scope sha k b, b64_encode inner]"
  using split_join [of "[journal_cursor_version, journal_cursor_scope sha k b, b64_encode inner]" "CHR ''.''"]
  by (simp add: scope_no_dot encoded_no_dot journal_cursor_version_def)

lemma unwrap_wrapped:
  assumes "wrap_journal_cursor sha k b inner = Inr token"
  shows "unwrap_journal_cursor sha k' b' token =
    (if inner = [] \<or> journal_cursor_scope sha k b = journal_cursor_scope sha k' b' then Inr inner else Inl journal_cursor_error)"
proof (cases "inner = []")
  case True
  with assms show ?thesis by (simp add: wrap_journal_cursor_def unwrap_journal_cursor_def)
next
  case False
  with assms have t: "token = journal_cursor_version @ ''.'' @ journal_cursor_scope sha k b @ ''.'' @ b64_encode inner"
    "length token \<le> max_journal_cursor_bytes" by (auto simp: wrap_journal_cursor_def Let_def split: if_splits)
  have "token \<noteq> []" "b64_encode inner \<noteq> []" using False by (simp_all add: t(1) b64_encode_Nil)
  moreover have "split_on CHR ''.'' token = [journal_cursor_version, journal_cursor_scope sha k b, b64_encode inner]"
    unfolding t(1) by (rule split_token)
  ultimately show ?thesis using False t(2) by (simp add: unwrap_journal_cursor_def)
qed

section \<open>The calls of a read\<close>

datatype ('q, 'p) journal_event =
    JBinding session_key "jerr + session_binding"
  | JLegacy "'q public_read" "jerr + 'p public_page"
  | JResolve session_key session_binding bool \<comment> \<open>whether a reader was answered\<close>
  | JRead "'q public_read" "jerr + 'p public_page" \<comment> \<open>of the runtime journal\<close>

definition logged_journal ::
  "('w, 'q, 'p) journal_config \<Rightarrow> ('w \<times> ('q, 'p) journal_event list, 'q, 'p) journal_config" where
  "logged_journal cfg =
     \<lparr>jc_binding = \<lambda>k. logged (JBinding k) (jc_binding cfg k),
      jc_legacy = \<lambda>q. logged (JLegacy q) (jc_legacy cfg q),
      jc_resolve = \<lambda>k b. State (\<lambda>(w, l). case run_state (jc_resolve cfg k b) w of
         (Inl err, w') \<Rightarrow> (Inl err, (w', l @ [JResolve k b False]))
       | (Inr None, w') \<Rightarrow> (Inr None, (w', l @ [JResolve k b False]))
       | (Inr (Some reader), w') \<Rightarrow> (Inr (Some (\<lambda>q. logged (JRead q) (reader q))), (w', l @ [JResolve k b True]))),
      jc_sha = jc_sha cfg, jc_disposition = jc_disposition cfg\<rparr>"

lemma logged_journal_simps [simp]:
  "jc_binding (logged_journal cfg) k = logged (JBinding k) (jc_binding cfg k)"
  "jc_legacy (logged_journal cfg) q = logged (JLegacy q) (jc_legacy cfg q)"
  "jc_sha (logged_journal cfg) = jc_sha cfg" "jc_disposition (logged_journal cfg) = jc_disposition cfg"
  by (simp_all add: logged_journal_def)

lemma resolve_emits:
  "emits (jc_resolve (logged_journal cfg) k b) (\<lambda>x cs. \<exists>found. cs = [JResolve k b found] \<and>
     (found \<longleftrightarrow> (\<exists>reader. x = Inr (Some reader))) \<and>
     (\<forall>reader. x = Inr (Some reader) \<longrightarrow> (\<exists>f. reader = (\<lambda>q. logged (JRead q) (f q)))))"
  unfolding emits_def logged_journal_def
  by (auto split: prod.split sum.split option.split)

text \<open>
  Every run is one of these: the binding could not be read; the session is not Host-owned and
  the composed reader answered; no runtime read was made; or one was, of the runtime session,
  under the unwrapped cursor.
\<close>

definition journal_calls ::
  "('w, 'q, 'p) journal_config \<Rightarrow> 'q public_read \<Rightarrow> jerr + 'p public_page \<Rightarrow> ('q, 'p) journal_event list \<Rightarrow> bool" where
  "journal_calls cfg req x cs \<longleftrightarrow>
     (\<exists>err. cs = [JBinding (jq_key req) (Inl err)] \<and> x = Inl err) \<or>
     (\<exists>b r. sb_mode b \<noteq> jc_disposition cfg \<and> cs = [JBinding (jq_key req) (Inr b), JLegacy req r] \<and> x = r) \<or>
     (\<exists>b rest err. sb_mode b = jc_disposition cfg \<and> cs = JBinding (jq_key req) (Inr b) # rest \<and> x = Inl err \<and>
        (rest = [] \<or>
         (\<exists>found. rest = [JResolve (jq_key req) b found] \<and>
            (found \<longrightarrow> unwrap_journal_cursor (jc_sha cfg) (jq_key req) b (jq_cursor req) = Inl err)))) \<or>
     (\<exists>b inner r. sb_mode b = jc_disposition cfg \<and> sb_runtime b \<noteq> [] \<and>
        unwrap_journal_cursor (jc_sha cfg) (jq_key req) b (jq_cursor req) = Inr inner \<and>
        cs = [JBinding (jq_key req) (Inr b), JResolve (jq_key req) b True,
              JRead (req\<lparr>jq_key := runtime_key (jq_key req) b, jq_cursor := inner\<rparr>) r] \<and>
        x = (case r of Inl err \<Rightarrow> Inl err | Inr page \<Rightarrow> wrap_page (jc_sha cfg) (jq_key req) b page))"

lemma read_emits: "emits (read_public_journal (logged_journal cfg) req) (journal_calls cfg req)"
  unfolding read_public_journal_def logged_journal_simps
proof (rule emits_call, rule emits_case_sum, goal_cases)
  case (1 e err)
  then show ?case by (intro emits_ret) (auto simp: journal_calls_def)
next
  case (2 e b)
  show ?case
  proof (rule emits_if, goal_cases)
    case 1
    with 2 show ?case by (intro emits_logged) (auto simp: journal_calls_def)
  next
    case mode: 2
    show ?case
    proof (rule emits_if, goal_cases)
      case 1
      with 2 mode show ?case by (intro emits_ret) (auto simp: journal_calls_def)
    next
      case rt: 2
      show ?case
      proof (rule emits_sub [OF resolve_emits], elim exE conjE, rule emits_case_sum, goal_cases)
        case (1 r cs found err)
        with 2 mode show ?case by (intro emits_ret) (auto simp: journal_calls_def)
      next
        case reader: (2 r cs found o1)
        show ?case
        proof (rule emits_case_option, goal_cases)
          case 1
          with 2 mode reader show ?case by (intro emits_ret) (auto simp: journal_calls_def)
        next
          case some: (2 rd)
          with reader obtain f where rd: "rd = (\<lambda>q. logged (JRead q) (f q))" "found" by blast
          show ?case
          proof (rule emits_case_sum, goal_cases)
            case (1 err)
            with 2 mode reader show ?case by (intro emits_ret) (auto simp: journal_calls_def)
          next
            case inner: (2 inner)
            show ?case unfolding rd(1)
              by (intro emits_call emits_case_sum emits_ret)
                (use 2 mode rt reader inner rd in \<open>auto simp: journal_calls_def\<close>)
          qed
        qed
      qed
    qed
  qed
qed

section \<open>Properties\<close>

text \<open>
  C20. A journal cursor is good for its own session only. A cursor wrapped for a public session and
  its binding unwraps, under the same session and binding, to exactly the runtime store's token;
  under any other tenant, session or binding it is refused as a bad cursor, as long as SHA-256
  tells the two scopes apart. The scope is hashed from length-prefixed members, so no two scopes
  share a preimage.
\<close>

theorem journal_cursor_round_trip:
  assumes "wrap_journal_cursor sha k b inner = Inr token" "inner \<noteq> []" "scope_bounded k b" "scope_bounded k' b'"
    "sha (scope_preimage k b) = sha (scope_preimage k' b') \<Longrightarrow> scope_preimage k b = scope_preimage k' b'"
  shows "unwrap_journal_cursor sha k' b' token = (if k' = k \<and> b' = b then Inr inner else Inl journal_cursor_error)"
proof -
  have "journal_cursor_scope sha k b = journal_cursor_scope sha k' b' \<longleftrightarrow> k' = k \<and> b' = b"
    using assms(5) scope_preimage_inject [OF assms(3,4)] by (auto simp: journal_cursor_scope_def hex_encode_inject)
  with unwrap_wrapped [OF assms(1), of k' b'] assms(2) show ?thesis by simp
qed

definition sample_bound :: session_binding where
  "sample_bound = \<lparr>sb_storage = ''s3'', sb_version = ''1'', sb_runtime = ''rt'', sb_mode = ''disposition''\<rparr>"

definition sample_session :: session_key where
  "sample_session = \<lparr>sk_tenant = ''t'', sk_session = ''s''\<rparr>"

lemma sample_scope: "scope_bounded sample_session sample_bound"
  by (simp add: scope_bounded_def scope_parts_def sample_session_def sample_bound_def)

lemma sample_wrap:
  assumes "length (sha (scope_preimage sample_session sample_bound)) \<le> 4000"
  shows "\<exists>token. wrap_journal_cursor sha sample_session sample_bound ''n'' = Inr token \<and> token \<noteq> []"
proof -
  have "length (b64_encode ''n'') = 2" by (simp add: b64_encode_def)
  with assms show ?thesis
    by (simp add: wrap_journal_cursor_def Let_def journal_cursor_scope_def journal_cursor_version_def max_journal_cursor_bytes_def)
qed

theorem journal_cursor_round_trip_witness:
  "\<exists>token. wrap_journal_cursor id sample_session sample_bound ''n'' = Inr token \<and>
     unwrap_journal_cursor id sample_session sample_bound token = Inr ''n'' \<and>
     unwrap_journal_cursor id (sample_session\<lparr>sk_session := ''other''\<rparr>) sample_bound token = Inl journal_cursor_error"
proof -
  have len: "length (scope_preimage sample_session sample_bound) \<le> 4000"
    by (simp add: scope_preimage_def scope_parts_def scope_field_def journal_cursor_domain_def sample_session_def sample_bound_def)
  have other: "scope_bounded (sample_session\<lparr>sk_session := ''other''\<rparr>) sample_bound"
    by (simp add: scope_bounded_def scope_parts_def sample_session_def sample_bound_def)
  from sample_wrap [of id] len obtain token where t: "wrap_journal_cursor id sample_session sample_bound ''n'' = Inr token"
    by auto
  have "unwrap_journal_cursor id sample_session sample_bound token = Inr ''n''"
    using journal_cursor_round_trip [OF t _ sample_scope sample_scope] by simp
  moreover have "unwrap_journal_cursor id (sample_session\<lparr>sk_session := ''other''\<rparr>) sample_bound token = Inl journal_cursor_error"
    using journal_cursor_round_trip [OF t _ sample_scope other] by (simp add: sample_session_def)
  ultimately show ?thesis using t by blast
qed

text \<open>
  C21. A journal is read where its session keeps it, and a continuation reads on. When the catalog
  answers a binding that is not of the disposition mode, the only further call is the composed
  session reader's, with the caller's request unchanged, and its answer is returned. When
  the binding is of that mode, the composed reader is never called; a page is returned only from
  a runtime journal, read with the caller's request addressed to the runtime session the binding
  names and with the unwrapped cursor, after the resolver answered a reader for exactly that
  session and binding; and the page's cursors are returned wrapped, the rest of it as it is. Asking
  again with the next cursor, when the binding is unchanged and the resolver answers a reader,
  does read the runtime journal, with exactly the token the runtime store gave.
\<close>

theorem journal_continuation_reads_on:
  assumes "run_state (read_public_journal (logged_journal cfg) req) (w, []) = (x, (w', JBinding (jq_key req) (Inr b) # cs))"
  shows "if sb_mode b \<noteq> jc_disposition cfg then \<exists>r. cs = [JLegacy req r] \<and> x = r
    else (\<forall>q r. JLegacy q r \<notin> set cs) \<and>
      (\<forall>page. x = Inr page \<longrightarrow> (\<exists>p inner.
         cs = [JResolve (jq_key req) b True, JRead (req\<lparr>jq_key := runtime_key (jq_key req) b, jq_cursor := inner\<rparr>) (Inr p)] \<and>
         unwrap_journal_cursor (jc_sha cfg) (jq_key req) b (jq_cursor req) = Inr inner \<and> jp_rest page = jp_rest p \<and>
         wrap_journal_cursor (jc_sha cfg) (jq_key req) b (jp_next p) = Inr (jp_next page) \<and>
         wrap_journal_cursor (jc_sha cfg) (jq_key req) b (jp_previous p) = Inr (jp_previous page) \<and>
         (\<forall>v y v' ds. run_state (read_public_journal (logged_journal cfg) (req\<lparr>jq_cursor := jp_next page\<rparr>)) (v, []) =
              (y, (v', JBinding (jq_key req) (Inr b) # JResolve (jq_key req) b True # ds)) \<longrightarrow>
            (\<exists>r. ds = [JRead (req\<lparr>jq_key := runtime_key (jq_key req) b, jq_cursor := jp_next p\<rparr>) r]))))"
proof (cases "sb_mode b = jc_disposition cfg")
  case False
  have "journal_calls cfg req x (JBinding (jq_key req) (Inr b) # cs)" using emits_run_Nil [OF read_emits assms] .
  with False show ?thesis by (auto simp: journal_calls_def)
next
  case True
  have c: "journal_calls cfg req x (JBinding (jq_key req) (Inr b) # cs)" using emits_run_Nil [OF read_emits assms] .
  have quiet: "\<forall>q r. JLegacy q r \<notin> set cs" using c True by (auto simp: journal_calls_def)
  have reads: "\<exists>p inner.
      cs = [JResolve (jq_key req) b True, JRead (req\<lparr>jq_key := runtime_key (jq_key req) b, jq_cursor := inner\<rparr>) (Inr p)] \<and>
      unwrap_journal_cursor (jc_sha cfg) (jq_key req) b (jq_cursor req) = Inr inner \<and>
      Inr page = wrap_page (jc_sha cfg) (jq_key req) b p" if x: "x = Inr page" for page
  proof -
    obtain inner r where "unwrap_journal_cursor (jc_sha cfg) (jq_key req) b (jq_cursor req) = Inr inner"
        "cs = [JResolve (jq_key req) b True, JRead (req\<lparr>jq_key := runtime_key (jq_key req) b, jq_cursor := inner\<rparr>) r]"
        "x = (case r of Inl err \<Rightarrow> Inl err | Inr page \<Rightarrow> wrap_page (jc_sha cfg) (jq_key req) b page)"
      using c True x by (auto simp: journal_calls_def)
    with x show ?thesis by (cases r) auto
  qed
  have wrapped: "jp_rest page = jp_rest p" "wrap_journal_cursor (jc_sha cfg) (jq_key req) b (jp_next p) = Inr (jp_next page)"
      "wrap_journal_cursor (jc_sha cfg) (jq_key req) b (jp_previous p) = Inr (jp_previous page)"
    if "Inr page = wrap_page (jc_sha cfg) (jq_key req) b p" for page p
    using that by (auto simp: wrap_page_def split: sum.splits)
  have again: "\<exists>r. ds = [JRead (req\<lparr>jq_key := runtime_key (jq_key req) b, jq_cursor := jp_next p\<rparr>) r]"
    if next1: "wrap_journal_cursor (jc_sha cfg) (jq_key req) b (jp_next p) = Inr (jp_next page)"
      and run: "run_state (read_public_journal (logged_journal cfg) (req\<lparr>jq_cursor := jp_next page\<rparr>)) (v, []) =
        (y, (v', JBinding (jq_key req) (Inr b) # JResolve (jq_key req) b True # ds))" for page p v y v' ds
  proof -
    have "journal_calls cfg (req\<lparr>jq_cursor := jp_next page\<rparr>) y (JBinding (jq_key req) (Inr b) # JResolve (jq_key req) b True # ds)"
      using emits_run_Nil [OF read_emits run] .
    then show ?thesis using True unwrap_wrapped [OF next1, of "jq_key req" b] by (auto simp: journal_calls_def)
  qed
  from True have mode: "\<not> sb_mode b \<noteq> jc_disposition cfg" by simp
  show ?thesis unfolding if_not_P [OF mode]
  proof (intro conjI allI impI, goal_cases)
    case (2 page)
    from reads [OF 2] obtain p inner where p:
        "cs = [JResolve (jq_key req) b True, JRead (req\<lparr>jq_key := runtime_key (jq_key req) b, jq_cursor := inner\<rparr>) (Inr p)]"
        "unwrap_journal_cursor (jc_sha cfg) (jq_key req) b (jq_cursor req) = Inr inner"
        "Inr page = wrap_page (jc_sha cfg) (jq_key req) b p" by blast
    note w = wrapped [OF p(3)]
    show ?case by (intro exI [of _ p] exI [of _ inner] conjI allI impI p(1,2) w again [OF w(2)])
  qed (use quiet in blast)
qed

definition sample_journal :: "(unit, unit, unit) journal_config" where
  "sample_journal =
     \<lparr>jc_binding = \<lambda>k. ret (Inr sample_bound), jc_legacy = \<lambda>q. ret (Inl (Opaque ''no'')),
      jc_resolve = \<lambda>k b. ret (Inr (Some (\<lambda>q. ret (Inr \<lparr>jp_next = ''n'', jp_previous = [], jp_rest = ()\<rparr>)))),
      jc_sha = \<lambda>_. ''x'', jc_disposition = ''disposition''\<rparr>"

definition sample_read :: "cursor \<Rightarrow> unit public_read" where
  "sample_read c = \<lparr>jq_key = sample_session, jq_cursor = c, jq_rest = ()\<rparr>"

lemma sample_journal_run:
  assumes "unwrap_journal_cursor (\<lambda>_. ''x'') sample_session sample_bound c = Inr inner"
    "wrap_journal_cursor (\<lambda>_. ''x'') sample_session sample_bound ''n'' = Inr token"
  shows "run_state (read_public_journal (logged_journal sample_journal) (sample_read c)) ((), []) =
    (Inr \<lparr>jp_next = token, jp_previous = [], jp_rest = ()\<rparr>,
     ((), [JBinding sample_session (Inr sample_bound), JResolve sample_session sample_bound True,
           JRead \<lparr>jq_key = runtime_key sample_session sample_bound, jq_cursor = inner, jq_rest = ()\<rparr>
             (Inr \<lparr>jp_next = ''n'', jp_previous = [], jp_rest = ()\<rparr>)]))"
proof -
  have "sb_mode sample_bound = ''disposition''" "sb_runtime sample_bound \<noteq> []" by (simp_all add: sample_bound_def)
  with assms show ?thesis
    by (simp add: read_public_journal_def logged_journal_def logged_def sample_journal_def sample_read_def run_state_bind
        wrap_page_def wrap_journal_cursor_def [of _ _ _ "[]"])
qed

theorem journal_continuation_reads_on_witness:
  "\<exists>page cs y ds q. run_state (read_public_journal (logged_journal sample_journal) (sample_read [])) ((), []) = (Inr page, ((), cs)) \<and>
     run_state (read_public_journal (logged_journal sample_journal) (sample_read (jp_next page))) ((), []) = (y, ((), ds)) \<and>
     JRead q (Inr \<lparr>jp_next = ''n'', jp_previous = [], jp_rest = ()\<rparr>) \<in> set ds \<and> jq_cursor q = ''n'' \<and>
     jq_key q = \<lparr>sk_tenant = ''t'', sk_session = ''rt''\<rparr>"
proof -
  from sample_wrap [of "\<lambda>_. ''x''"] obtain token where
    t: "wrap_journal_cursor (\<lambda>_. ''x'') sample_session sample_bound ''n'' = Inr token" by auto
  have u: "unwrap_journal_cursor (\<lambda>_. ''x'') sample_session sample_bound token = Inr ''n''"
    using unwrap_wrapped [OF t] by simp
  have z: "unwrap_journal_cursor (\<lambda>_. ''x'') sample_session sample_bound [] = Inr []"
    by (simp add: unwrap_journal_cursor_def)
  let ?p = "\<lparr>jp_next = ''n'', jp_previous = [], jp_rest = ()\<rparr>" and ?page = "\<lparr>jp_next = token, jp_previous = [], jp_rest = ()\<rparr>"
  let ?q = "\<lambda>c. \<lparr>jq_key = runtime_key sample_session sample_bound, jq_cursor = c, jq_rest = ()\<rparr>"
  have key: "jq_key (sample_read []) = sample_session" by (simp add: sample_read_def)
  note one = sample_journal_run [OF z t] and two = sample_journal_run [OF u t]
  have mode: "sb_mode sample_bound = jc_disposition sample_journal" by (simp add: sample_bound_def sample_journal_def)
  obtain p where p: "[JResolve sample_session sample_bound True, JRead (?q []) (Inr ?p)] =
        [JResolve sample_session sample_bound True, JRead (?q []) (Inr p)]"
      "\<forall>v y v' ds. run_state (read_public_journal (logged_journal sample_journal) ((sample_read [])\<lparr>jq_cursor := jp_next ?page\<rparr>)) (v, []) =
         (y, (v', JBinding sample_session (Inr sample_bound) # JResolve sample_session sample_bound True # ds)) \<longrightarrow>
       (\<exists>r. ds = [JRead ((sample_read [])\<lparr>jq_key := runtime_key sample_session sample_bound, jq_cursor := jp_next p\<rparr>) r])"
    using journal_continuation_reads_on [of sample_journal "sample_read []" "()" "Inr ?page" "()" sample_bound, unfolded key, OF one] mode
    by (auto simp: sample_read_def)
  from p(1) have "p = ?p" by simp
  have "(sample_read [])\<lparr>jq_cursor := jp_next ?page\<rparr> = sample_read token" by (simp add: sample_read_def)
  with p(2) two have "\<exists>r. [JRead (?q ''n'') (Inr ?p)] =
      [JRead ((sample_read [])\<lparr>jq_key := runtime_key sample_session sample_bound, jq_cursor := jp_next p\<rparr>) r]"
    by metis
  then have "?q ''n'' = (sample_read [])\<lparr>jq_key := runtime_key sample_session sample_bound, jq_cursor := ''n''\<rparr>"
    unfolding \<open>p = ?p\<close> by simp
  moreover have "runtime_key sample_session sample_bound = \<lparr>sk_tenant = ''t'', sk_session = ''rt''\<rparr>"
    by (simp add: runtime_key_def sample_session_def sample_bound_def)
  ultimately show ?thesis using one two by fastforce
qed

end
