(* ===== verification/Identity.thy ===== *)
theory Identity
  imports Go_Strings Command Trace
begin

text \<open>
  Who a caller is and what it may do: the principal and credential vocabulary of \<open>identity/\<close>, the
  derivation of a principal from a request or a link token of \<open>internal/identity/http.go\<close>, and the
  tenant boundary of \<open>internal/identity/authorize.go\<close>. The deployment's verifier, the clock and
  Core's identifier checks are parameters. Headers are a map from canonical names to their
  values; cookies are read from the Cookie header as \<open>net/http\<close> does.
\<close>

section \<open>Principals\<close>

definition kind_actor :: string where
  "kind_actor = ''actor''"

definition kind_service :: string where
  "kind_service = ''service''"

record principal_id =
  pn_tenant :: tenant_id
  pn_subject :: string
  pn_kind :: string

definition zero_principal :: principal_id where
  "zero_principal = \<lparr>pn_tenant = [], pn_subject = [], pn_kind = []\<rparr>"

text \<open>Core's checks: the identifiers, the bound on their bytes, and the wire principal.\<close>

record core_identity =
  ci_tenant :: "tenant_id \<Rightarrow> bool"
  ci_session :: "session_id \<Rightarrow> bool"
  ci_max_id :: nat
  ci_wire :: "principal_id \<Rightarrow> bool"

text \<open>
  The errors of the package. \<open>Expired\<close> is the identity of \<open>ErrCredentialExpired\<close>, which wraps
  \<open>ErrUnauthenticated\<close>.
\<close>

datatype identity_error =
    ErrInvalidPrincipal | ErrClientPrincipal | ErrMetadataUnsupported | ErrUnauthenticated
  | ErrUnauthorized | ErrRateLimited | RateLimitedFor int | Expired | ErrInvalidConfig | ErrVerifierUnavailable

type_synonym ierr = "identity_error go_err"

definition err_credential_expired :: ierr where
  "err_credential_expired = Wrapped [Sentinel Expired, Sentinel ErrUnauthenticated]"

definition rate_limited_error :: "int \<Rightarrow> ierr" where
  "rate_limited_error retry_after = Wrapped [Sentinel (RateLimitedFor retry_after), Sentinel ErrRateLimited]"

definition new_principal :: "core_identity \<Rightarrow> tenant_id \<Rightarrow> string \<Rightarrow> string \<Rightarrow> principal_id \<times> ierr option" where
  "new_principal core tenant subject kind =
     (let refuse = (zero_principal, Some (Wrapped [Sentinel ErrInvalidPrincipal]))
      in if tenant = [] then refuse
         else if \<not> ci_tenant core tenant then refuse
         else if subject = [] then refuse
         else if length subject > ci_max_id core then refuse
         else if \<not> utf8_valid subject then refuse
         else if kind \<noteq> kind_actor \<and> kind \<noteq> kind_service then refuse
         else (\<lparr>pn_tenant = tenant, pn_subject = subject, pn_kind = kind\<rparr>, None))"

definition is_service :: "principal_id \<Rightarrow> bool" where
  "is_service p \<longleftrightarrow> pn_kind p = kind_service"

text \<open>The wire record has the same three members, so the conversion is the identity on them.\<close>

definition principal_wire :: "principal_id \<Rightarrow> principal_id" where
  "principal_wire p = \<lparr>pn_tenant = pn_tenant p, pn_subject = pn_subject p, pn_kind = pn_kind p\<rparr>"

definition principal_from_wire :: "core_identity \<Rightarrow> principal_id \<Rightarrow> principal_id \<times> ierr option" where
  "principal_from_wire core wire =
     (if \<not> ci_wire core wire then (zero_principal, Some (Wrapped [Sentinel ErrInvalidPrincipal]))
      else new_principal core (pn_tenant wire) (pn_subject wire) (pn_kind wire))"

section \<open>Credentials\<close>

datatype source = SourceBearer | SourceCookie | SourceLink

definition source_text :: "source \<Rightarrow> string" where
  "source_text s = (case s of SourceBearer \<Rightarrow> ''bearer'' | SourceCookie \<Rightarrow> ''cookie'' | SourceLink \<Rightarrow> ''link'')"

record credential =
  cr_source :: source
  cr_value :: string

definition redacted_placeholder :: string where
  "redacted_placeholder = ''REDACTED''"

definition credential_string :: "credential \<Rightarrow> string" where
  "credential_string c =
     ''identity.Credential{source:'' @ source_text (cr_source c) @ '', value:'' @ redacted_placeholder @ ''}''"

text \<open>What a verified credential asserts; the zero instant is no expiry.\<close>

record claims =
  cm_tenant :: tenant_id
  cm_subject :: string
  cm_kind :: string
  cm_expires :: "time option"

fun redact_secrets :: "string \<Rightarrow> string list \<Rightarrow> string" where
  "redact_secrets message [] = message"
| "redact_secrets message (s # ss) =
     (if s = [] then redact_secrets message ss else redact_secrets (replace_all s redacted_placeholder message) ss)"

section \<open>Requests\<close>

record operation_context =
  oc_principal :: principal_id
  oc_source :: "source option" \<comment> \<open>absent when no credential could be read\<close>
  oc_trace :: string

record http_request =
  hr_method :: string
  hr_host :: string
  hr_header :: "string \<Rightarrow> string list option" \<comment> \<open>by canonical name\<close>
  hr_operation :: "operation_context option" \<comment> \<open>the operation context on the request's context\<close>

definition header_values :: "http_request \<Rightarrow> string \<Rightarrow> string list" where
  "header_values r name = (case hr_header r name of None \<Rightarrow> [] | Some vs \<Rightarrow> vs)"

definition header_get :: "http_request \<Rightarrow> string \<Rightarrow> string" where
  "header_get r name = (case header_values r name of [] \<Rightarrow> [] | v # vs \<Rightarrow> v)"

text \<open>Tokens of RFC 7230.\<close>

definition is_alnum :: "char \<Rightarrow> bool" where
  "is_alnum c \<longleftrightarrow> (let b = (of_char c :: nat) in (97 \<le> b \<and> b \<le> 122) \<or> (65 \<le> b \<and> b \<le> 90) \<or> (48 \<le> b \<and> b \<le> 57))"

definition is_token_byte :: "char \<Rightarrow> bool" where
  "is_token_byte c \<longleftrightarrow> is_alnum c \<or> c \<in> set (''!#$%&'' @ [CHR 0x27] @ ''*+-.^_'' @ [CHR 0x60] @ ''|~'')"

definition is_cookie_token :: "string \<Rightarrow> bool" where
  "is_cookie_token name \<longleftrightarrow> name \<noteq> [] \<and> list_all is_token_byte name"

text \<open>
  The cookies of \<open>net/http\<close>: none when there are more than 3000 parts; else each Cookie line is
  split at semicolons, each part trimmed of white space and cut at the first equals sign; a part
  whose name is no token or whose value has a byte a cookie may not hold is skipped; one pair of
  quotes around a value is dropped.
\<close>

definition is_ascii_space :: "char \<Rightarrow> bool" where
  "is_ascii_space c \<longleftrightarrow> c = CHR '' '' \<or> c = CHR 0x09 \<or> c = CHR 0x0A \<or> c = CHR 0x0D"

definition trim_string :: "string \<Rightarrow> string" where
  "trim_string s = rev (dropWhile is_ascii_space (rev (dropWhile is_ascii_space s)))"

definition cookie_value_byte :: "char \<Rightarrow> bool" where
  "cookie_value_byte c \<longleftrightarrow>
     (let b = (of_char c :: nat) in 32 \<le> b \<and> b < 127 \<and> c \<noteq> CHR 0x22 \<and> c \<noteq> CHR '';'' \<and> c \<noteq> CHR 0x5C)"

definition cookie_value :: "string \<Rightarrow> string option" where
  "cookie_value v =
     (let u = (if length v > 1 \<and> hd v = CHR 0x22 \<and> last v = CHR 0x22 then butlast (tl v) else v)
      in if list_all cookie_value_byte u then Some u else None)"

definition cookie_part :: "string \<Rightarrow> (string \<times> string) option" where
  "cookie_part part =
     (let p = trim_string part
      in if p = [] then None
         else case cut CHR ''='' p of (name, v, _) \<Rightarrow>
           let n = trim_string name
           in if \<not> is_cookie_token n then None
              else (case cookie_value v of None \<Rightarrow> None | Some u \<Rightarrow> Some (n, u)))"

definition request_cookies :: "http_request \<Rightarrow> (string \<times> string) list" where
  "request_cookies r =
     (let parts = concat (map (split_on CHR '';'') (header_values r ''Cookie''))
      in if length parts > 3000 then [] else List.map_filter cookie_part parts)"

definition request_cookie :: "http_request \<Rightarrow> string \<Rightarrow> string option" where
  "request_cookie r name = (if name = [] then None else map_of (request_cookies r) name)"

section \<open>The authenticator\<close>

text \<open>A verifier answers claims, or an error with its text.\<close>

record 'w authenticator =
  au_verify :: "credential \<Rightarrow> ('w, (ierr \<times> string) + claims) state"
  au_now :: "('w, time) state"
  au_cookie :: string
  au_default_tenant :: tenant_id
  au_core :: core_identity

definition default_cookie_name :: string where
  "default_cookie_name = ''factory_session''"

text \<open>The configuration: whether a verifier and a clock are given, else the system clock.\<close>

definition new_authenticator ::
  "core_identity \<Rightarrow> (credential \<Rightarrow> ('w, (ierr \<times> string) + claims) state) option \<Rightarrow> ('w, time) state option \<Rightarrow>
   ('w, time) state \<Rightarrow> string \<Rightarrow> tenant_id \<Rightarrow> ierr + 'w authenticator" where
  "new_authenticator core verifier clock system_clock cookie tenant =
     (case verifier of
        None \<Rightarrow> Inl (Wrapped [Sentinel ErrInvalidConfig])
      | Some verify \<Rightarrow>
          let now = (case clock of None \<Rightarrow> system_clock | Some c \<Rightarrow> c);
              name = (if cookie = [] then default_cookie_name else cookie)
          in if \<not> is_cookie_token name then Inl (Wrapped [Sentinel ErrInvalidConfig])
             else if tenant \<noteq> [] \<and> \<not> ci_tenant core tenant then Inl (Wrapped [Sentinel ErrInvalidConfig])
             else Inr \<lparr>au_verify = verify, au_now = now, au_cookie = name, au_default_tenant = tenant, au_core = core\<rparr>)"

definition is_blank :: "char \<Rightarrow> bool" where
  "is_blank c \<longleftrightarrow> c = CHR '' '' \<or> c = CHR 0x09"

definition bearer_token :: "string \<Rightarrow> string option" where
  "bearer_token header =
     (case cut CHR '' '' header of (scheme, rest, found) \<Rightarrow>
        if \<not> found \<or> \<not> equal_fold scheme ''bearer'' then None
        else let token = trim_left CHR '' '' rest
             in if token = [] \<or> list_ex is_blank token then None else Some token)"

definition unauthenticated :: ierr where
  "unauthenticated = Wrapped [Sentinel ErrUnauthenticated]"

definition presented :: "'w authenticator \<Rightarrow> http_request \<Rightarrow> ierr + credential" where
  "presented a r =
     (case hr_header r ''Authorization'' of
        Some values \<Rightarrow>
          (case values of
             [v] \<Rightarrow> (case bearer_token v of
                      None \<Rightarrow> Inl unauthenticated
                    | Some token \<Rightarrow> Inr \<lparr>cr_source = SourceBearer, cr_value = token\<rparr>)
           | _ \<Rightarrow> Inl unauthenticated)
      | None \<Rightarrow>
          (case request_cookie r (au_cookie a) of
             None \<Rightarrow> Inl unauthenticated
           | Some v \<Rightarrow> Inr \<lparr>cr_source = SourceCookie, cr_value = v\<rparr>))"

definition credential_source :: "'w authenticator \<Rightarrow> http_request option \<Rightarrow> source option" where
  "credential_source a r =
     (case r of
        None \<Rightarrow> None
      | Some q \<Rightarrow> (case presented a q of Inl err \<Rightarrow> None | Inr c \<Rightarrow> Some (cr_source c)))"

definition tenant_for :: "'w authenticator \<Rightarrow> claims \<Rightarrow> ierr + tenant_id" where
  "tenant_for a c =
     (if cm_tenant c \<noteq> [] then Inr (cm_tenant c)
      else if cm_kind c = kind_service then Inl unauthenticated
      else if au_default_tenant a = [] then Inl unauthenticated
      else Inr (au_default_tenant a))"

text \<open>
  The text of the two errors a verifier's failure is reported with is kept: it is the sentinel's
  text followed by the opaque part. The texts of the other refusals hold no verifier text and
  are left out.
\<close>

definition authenticate :: "'w authenticator \<Rightarrow> credential \<Rightarrow> ('w, principal_id \<times> ierr option) state" where
  "authenticate a c =
     (if cr_value c = [] then ret (zero_principal, Some unauthenticated)
      else do {
        v \<leftarrow> au_verify a c;
        case v of
          Inl (err, text) \<Rightarrow>
            (let detail = redact_secrets text [cr_value c]
             in if errors_is ErrUnauthenticated err
                then ret (zero_principal, Some (Wrapped [Sentinel ErrUnauthenticated,
                       Opaque ('': the '' @ source_text (cr_source c) @ '' credential was not verified: '' @ detail)]))
                else ret (zero_principal, Some (Wrapped [Sentinel ErrVerifierUnavailable,
                       Opaque ('': verifying the '' @ source_text (cr_source c) @ '' credential: '' @ detail)])))
        | Inr cm \<Rightarrow>
            (case cm_expires cm of
               None \<Rightarrow> ret (zero_principal, Some unauthenticated)
             | Some expires \<Rightarrow> do {
                 now \<leftarrow> au_now a;
                 if \<not> now < expires then ret (zero_principal, Some (Wrapped [err_credential_expired]))
                 else case tenant_for a cm of
                   Inl err \<Rightarrow> ret (zero_principal, Some err)
                 | Inr tenant \<Rightarrow>
                     (case new_principal (au_core a) tenant (cm_subject cm) (cm_kind cm) of
                        (p, None) \<Rightarrow> ret (p, None)
                      | (p, Some err) \<Rightarrow> ret (zero_principal, Some unauthenticated))
               })
      })"

definition authenticate_request :: "'w authenticator \<Rightarrow> http_request option \<Rightarrow> ('w, principal_id \<times> ierr option) state" where
  "authenticate_request a r =
     (case r of
        None \<Rightarrow> ret (zero_principal, Some unauthenticated)
      | Some q \<Rightarrow> (case presented a q of
                     Inl err \<Rightarrow> ret (zero_principal, Some err)
                   | Inr c \<Rightarrow> authenticate a c))"

definition authenticate_link :: "'w authenticator \<Rightarrow> string \<Rightarrow> ('w, principal_id \<times> ierr option) state" where
  "authenticate_link a token = authenticate a \<lparr>cr_source = SourceLink, cr_value = token\<rparr>"

section \<open>Operation contexts\<close>

definition max_traceparent_bytes :: nat where
  "max_traceparent_bytes = 256"

definition is_all_zero :: "string \<Rightarrow> bool" where
  "is_all_zero s \<longleftrightarrow> trim_byte CHR ''0'' s = []"

text \<open>The fields are those of the split header, at least four of them.\<close>

definition trace_id_fields :: "string list \<Rightarrow> string" where
  "trace_id_fields fs =
     (case fs of
        version # trace # parent # flags # others \<Rightarrow>
          if [] \<in> set fs then []
          else if length version \<noteq> 2 \<or> \<not> is_lower_hex version \<or> version = ''ff'' then []
          else if version = ''00'' \<and> length fs \<noteq> 4 then []
          else if length flags \<noteq> 2 \<or> \<not> is_lower_hex flags then []
          else if length parent \<noteq> 16 \<or> \<not> is_lower_hex parent \<or> is_all_zero parent then []
          else if length trace \<noteq> 32 \<or> \<not> is_lower_hex trace \<or> is_all_zero trace then []
          else trace
      | _ \<Rightarrow> [])"

definition trace_id_from :: "http_request option \<Rightarrow> string" where
  "trace_id_from r =
     (case r of
        None \<Rightarrow> []
      | Some q \<Rightarrow>
          let header = header_get q ''Traceparent''
          in if header = [] then []
             else if length header > max_traceparent_bytes then []
             else trace_id_fields (split_on CHR ''-'' header))"

definition operation_context_with_source :: "http_request option \<Rightarrow> principal_id \<Rightarrow> source option \<Rightarrow> operation_context" where
  "operation_context_with_source r p s = \<lparr>oc_principal = p, oc_source = s, oc_trace = trace_id_from r\<rparr>"

definition new_operation_context :: "'w authenticator \<Rightarrow> http_request option \<Rightarrow> principal_id \<Rightarrow> operation_context" where
  "new_operation_context a r p = operation_context_with_source r p (credential_source a r)"

definition new_link_operation_context :: "principal_id \<Rightarrow> operation_context" where
  "new_link_operation_context p = \<lparr>oc_principal = p, oc_source = Some SourceLink, oc_trace = []\<rparr>"

section \<open>The tenant boundary\<close>

definition authorization_result :: "bool \<Rightarrow> ierr option" where
  "authorization_result allowed = (if \<not> allowed then Some (Sentinel ErrUnauthorized) else None)"

definition authorize_tenant_principal :: "principal_id \<Rightarrow> ierr option" where
  "authorize_tenant_principal p = authorization_result (pn_tenant p \<noteq> [])"

definition authorize_control :: "principal_id \<Rightarrow> session_id \<Rightarrow> command_kind \<Rightarrow> ierr option" where
  "authorize_control p session kind = authorize_tenant_principal p"

definition authorize_session_list :: "principal_id \<Rightarrow> ierr option" where
  "authorize_session_list p = authorize_tenant_principal p"

definition authorize_session_read :: "principal_id \<Rightarrow> session_id \<Rightarrow> ierr option" where
  "authorize_session_read p session = authorize_tenant_principal p"

definition authorize_audit_read :: "principal_id \<Rightarrow> session_id \<Rightarrow> ierr option" where
  "authorize_audit_read p session = authorize_tenant_principal p"

definition authorize_object_read :: "principal_id \<Rightarrow> session_id \<Rightarrow> 'object \<Rightarrow> ierr option" where
  "authorize_object_read p session ref = authorize_tenant_principal p"

definition authorize_service_sweep :: "principal_id \<Rightarrow> ierr option" where
  "authorize_service_sweep p = authorization_result (is_service p)"

record parsed_channel =
  ch_tenant :: tenant_id
  ch_session :: session_id
  ch_valid :: bool

text \<open>
  The pattern: the prefix, then two non-empty segments without a colon. Go matches on code
  points; a byte that is not UTF-8 is one unknown code point and a colon is a single byte, so
  the segments are the same byte strings.
\<close>

definition channel_prefix :: string where
  "channel_prefix = ''session''"

definition parse_session_channel :: "core_identity \<Rightarrow> string \<Rightarrow> parsed_channel" where
  "parse_session_channel core channel =
     (case split_on CHR '':'' channel of
        [p, t, s] \<Rightarrow>
          if p = channel_prefix \<and> t \<noteq> [] \<and> s \<noteq> []
          then \<lparr>ch_tenant = t, ch_session = s, ch_valid = (ci_tenant core t \<and> ci_session core s)\<rparr>
          else \<lparr>ch_tenant = [], ch_session = [], ch_valid = False\<rparr>
      | _ \<Rightarrow> \<lparr>ch_tenant = [], ch_session = [], ch_valid = False\<rparr>)"

definition session_channel_allowed :: "tenant_id \<Rightarrow> parsed_channel \<Rightarrow> bool" where
  "session_channel_allowed tenant p \<longleftrightarrow> ch_valid p \<and> ch_tenant p = tenant"

definition authorize_subscribe :: "core_identity \<Rightarrow> principal_id \<Rightarrow> string \<Rightarrow> ierr option" where
  "authorize_subscribe core p channel =
     authorization_result (session_channel_allowed (pn_tenant p) (parse_session_channel core channel))"

section \<open>Usable principals\<close>

definition usable :: "core_identity \<Rightarrow> principal_id \<Rightarrow> bool" where
  "usable core p \<longleftrightarrow>
     pn_tenant p \<noteq> [] \<and> ci_tenant core (pn_tenant p) \<and> pn_subject p \<noteq> [] \<and> length (pn_subject p) \<le> ci_max_id core \<and>
     utf8_valid (pn_subject p) \<and> pn_kind p \<in> {kind_actor, kind_service}"

text \<open>The outcome of a constructor: a usable principal, or the zero principal with an error.\<close>

definition sound_outcome :: "core_identity \<Rightarrow> principal_id \<times> ierr option \<Rightarrow> bool" where
  "sound_outcome core x \<longleftrightarrow> (snd x = None \<and> usable core (fst x)) \<or> (snd x \<noteq> None \<and> fst x = zero_principal)"

lemma new_principal_sound: "sound_outcome core (new_principal core tenant subject kind)"
  by (auto simp: sound_outcome_def new_principal_def usable_def Let_def)

lemma new_principal_usable:
  "usable core p \<Longrightarrow> new_principal core (pn_tenant p) (pn_subject p) (pn_kind p) = (p, None)"
  by (auto simp: new_principal_def usable_def Let_def)

lemma new_principal_eq:
  "new_principal core t s k = (p, None) \<Longrightarrow> p = \<lparr>pn_tenant = t, pn_subject = s, pn_kind = k\<rparr>"
  by (auto simp: new_principal_def Let_def split: if_splits)

lemma sound_refusal: "sound_outcome core (zero_principal, Some err)"
  by (simp add: sound_outcome_def)

lemma authenticate_sound: "yields (authenticate a c) (sound_outcome (au_core a))"
  unfolding authenticate_def Let_def
  by (intro yields_intro sound_refusal yields_if) (metis new_principal_sound)

lemma authenticate_request_sound: "yields (authenticate_request a r) (sound_outcome (au_core a))"
  unfolding authenticate_request_def
  by (intro yields_intro sound_refusal authenticate_sound)

section \<open>Redaction\<close>

text \<open>A secret that cannot be formed again from the text around a placeholder and the placeholder.\<close>

definition separable :: "string \<Rightarrow> string \<Rightarrow> bool" where
  "separable new secret \<longleftrightarrow> secret \<noteq> [] \<and> hd secret \<notin> set new \<and> last secret \<notin> set new \<and> \<not> sublist new secret"

lemma replaced_prefix:
  assumes "separable new secret"
  shows "suffix u secret \<Longrightarrow> prefix u (replace_all secret new s) \<Longrightarrow> prefix u s"
proof (induction s arbitrary: u rule: length_induct)
  case (1 s)
  have nonempty: "secret \<noteq> []" and clean: "last secret \<notin> set new" "\<not> sublist new secret"
    using assms by (simp_all add: separable_def)
  show ?case
  proof (cases s)
    case Nil
    with 1 show ?thesis by simp
  next
    case (Cons d s')
    show ?thesis
    proof (cases "u = [] \<or> \<not> prefix secret s")
      case True
      with 1 Cons show ?thesis by (cases u) (auto dest: suffix_ConsD)
    next
      case False
      with 1(3) Cons nonempty have "prefix u (new @ replace_all secret new (drop (length secret) s))" by simp
      then consider "prefix u new" | "prefix new u" by (meson prefix_append prefix_prefix prefix_same_cases prefixI)
      then show ?thesis
      proof cases
        case 1
        have "last u = last secret" using False \<open>suffix u secret\<close> by (auto simp: suffix_def)
        moreover have "last u \<in> set new" using 1 False by (auto dest!: set_mono_prefix)
        ultimately show ?thesis using clean(1) by simp
      next
        case 2
        then have "sublist new secret" using \<open>suffix u secret\<close> by (meson prefix_imp_sublist sublist_order.order.trans suffix_imp_sublist)
        then show ?thesis using clean(2) by simp
      qed
    qed
  qed
qed

lemma sublist_after:
  assumes "separable new secret"
  shows "set x \<subseteq> set new \<Longrightarrow> sublist secret (x @ y) \<Longrightarrow> sublist secret y"
proof (induction x)
  case (Cons c x)
  have "\<not> prefix secret (c # x @ y)" using assms Cons.prems(1) by (cases secret) (auto simp: separable_def)
  with Cons show ?case by (simp add: sublist_Cons_right)
qed simp

lemma replaced_clean:
  assumes "separable new secret"
  shows "\<not> sublist secret (replace_all secret new s)"
proof (induction s rule: length_induct)
  case (1 s)
  have nonempty: "secret \<noteq> []" using assms by (simp add: separable_def)
  show ?case
  proof (cases s)
    case Nil
    with nonempty show ?thesis by simp
  next
    case (Cons d s')
    show ?thesis
    proof (cases "prefix secret s")
      case True
      have "length (drop (length secret) s) < length s" using Cons nonempty by simp
      with 1 have "\<not> sublist secret (replace_all secret new (drop (length secret) s))" by blast
      with True Cons nonempty sublist_after [OF assms, of new] show ?thesis by auto
    next
      case False
      have "\<not> prefix secret (d # replace_all secret new s')"
        using replaced_prefix [OF assms, of secret s] False Cons nonempty by auto
      with 1 Cons False nonempty show ?thesis by (simp add: sublist_Cons_right)
    qed
  qed
qed

section \<open>The calls of an authentication\<close>

datatype auth_event = AvVerify credential "(ierr \<times> string) + claims" | AvNow time

definition logged_auth :: "'w authenticator \<Rightarrow> ('w \<times> auth_event list) authenticator" where
  "logged_auth a =
     \<lparr>au_verify = \<lambda>c. logged (AvVerify c) (au_verify a c), au_now = logged AvNow (au_now a),
      au_cookie = au_cookie a, au_default_tenant = au_default_tenant a, au_core = au_core a\<rparr>"

lemma logged_auth_simps [simp]:
  "au_verify (logged_auth a) c = logged (AvVerify c) (au_verify a c)" "au_now (logged_auth a) = logged AvNow (au_now a)"
  "au_cookie (logged_auth a) = au_cookie a" "au_default_tenant (logged_auth a) = au_default_tenant a"
  "au_core (logged_auth a) = au_core a"
  by (simp_all add: logged_auth_def)

lemma presented_logged [simp]: "presented (logged_auth a) r = presented a r"
  unfolding presented_def logged_auth_simps ..

lemma credential_source_logged [simp]: "credential_source (logged_auth a) r = credential_source a r"
  unfolding credential_source_def presented_logged ..

lemma tenant_for_logged [simp]: "tenant_for (logged_auth a) cm = tenant_for a cm"
  by (simp add: tenant_for_def)

text \<open>
  What decides: an admitted caller was verified, is before its expiry, and has the tenant of its
  claims, or the configured one for an actor that names none. A verifier that could not answer
  is the only cause of the unavailable class.
\<close>

definition grounded :: "'w authenticator \<Rightarrow> credential \<Rightarrow> principal_id \<Rightarrow> auth_event list \<Rightarrow> bool" where
  "grounded a c p cs \<longleftrightarrow>
     (\<exists>cm now expires. cs = [AvVerify c (Inr cm), AvNow now] \<and> cm_expires cm = Some expires \<and> now < expires \<and>
        pn_subject p = cm_subject cm \<and> pn_kind p = cm_kind cm \<and>
        (if cm_tenant cm \<noteq> [] then pn_tenant p = cm_tenant cm
         else pn_tenant p = au_default_tenant a \<and> pn_kind p = kind_actor))"

definition undecided :: "credential \<Rightarrow> auth_event list \<Rightarrow> bool" where
  "undecided c cs \<longleftrightarrow> (\<exists>err text. cs = [AvVerify c (Inl (err, text))] \<and> \<not> errors_is ErrUnauthenticated err)"

definition decides :: "'w authenticator \<Rightarrow> credential \<Rightarrow> principal_id \<times> ierr option \<Rightarrow> auth_event list \<Rightarrow> bool" where
  "decides a c x cs \<longleftrightarrow>
     (case snd x of
        None \<Rightarrow> grounded a c (fst x) cs
      | Some err \<Rightarrow>
          (errors_is ErrVerifierUnavailable err \<longleftrightarrow> undecided c cs) \<and>
          (errors_is ErrUnauthenticated err \<longleftrightarrow> \<not> undecided c cs)) \<and>
     (\<forall>c' r. AvVerify c' r \<in> set cs \<longrightarrow> c' = c)"

lemma unauthenticated_is [simp]:
  "errors_is ErrUnauthenticated unauthenticated" "\<not> errors_is ErrVerifierUnavailable unauthenticated"
  "errors_is ErrUnauthenticated err_credential_expired" "\<not> errors_is ErrVerifierUnavailable err_credential_expired"
  by (simp_all add: unauthenticated_def err_credential_expired_def)

lemma tenant_for_cases:
  "tenant_for a cm = Inl err \<Longrightarrow> err = unauthenticated"
  "tenant_for a cm = Inr t \<Longrightarrow> t = (if cm_tenant cm \<noteq> [] then cm_tenant cm else au_default_tenant a) \<and>
     (cm_tenant cm = [] \<longrightarrow> cm_kind cm \<noteq> kind_service)"
  by (auto simp: tenant_for_def split: if_splits)

lemma authenticate_emits: "emits (authenticate (logged_auth a) c) (decides a c)"
proof -
  have made: "decides a c (p, None) [AvVerify c (Inr cm), AvNow now]"
    if "cm_expires cm = Some expires" "now < expires" "tenant_for a cm = Inr t"
      "new_principal (au_core a) t (cm_subject cm) (cm_kind cm) = (p, None)" for cm now expires t p
  proof -
    have "usable (au_core a) p" using new_principal_sound [of "au_core a" t "cm_subject cm" "cm_kind cm"] that(4)
      by (simp add: sound_outcome_def)
    with new_principal_eq [OF that(4)] tenant_for_cases(2) [OF that(3)] that(1,2) show ?thesis
      by (auto simp: decides_def grounded_def usable_def)
  qed
  have refused: "decides a c (zero_principal, Some err) cs"
    if "errors_is ErrUnauthenticated err" "\<not> errors_is ErrVerifierUnavailable err" "\<not> undecided c cs"
      "\<forall>c' r. AvVerify c' r \<in> set cs \<longrightarrow> c' = c" for err cs
    using that by (simp add: decides_def)
  have unknown: "\<not> undecided c (AvVerify c (Inr cm) # cs)" for cm cs by (simp add: undecided_def)
  show ?thesis
    unfolding authenticate_def logged_auth_simps tenant_for_logged Let_def
  proof (rule emits_if, goal_cases)
    case 1
    then show ?case by (intro emits_ret refused) (simp_all add: undecided_def)
  next
    case 2
    show ?case
    proof (rule emits_call, rule emits_case_sum, goal_cases)
      case (1 v e)
      then show ?case by (cases e) (auto simp: decides_def undecided_def intro!: emits_ret)
    next
      case (2 v cm)
      show ?case
      proof (rule emits_case_option, goal_cases)
        case 1
        with 2 show ?case by (intro emits_ret refused) (simp_all add: unknown)
      next
        case (2 expires)
        note e = \<open>v = Inr cm\<close> \<open>cm_expires cm = Some expires\<close>
        show ?case
        proof (rule emits_call, rule emits_if, goal_cases)
          case (1 now)
          with e show ?case by (intro emits_ret refused) (simp_all add: unknown)
        next
          case (2 now)
          show ?case
          proof (rule emits_case_sum, goal_cases)
            case (1 err)
            with e tenant_for_cases(1) [OF 1] show ?case by (intro emits_ret refused) (simp_all add: unknown)
          next
            case tenant: (2 t)
            show ?case
            proof (rule emits_case_prod, rule emits_case_option, goal_cases)
              case (1 p o1)
              with e 2 tenant made show ?case by (intro emits_ret) simp
            next
              case (2 p o1 err)
              with e show ?case by (intro emits_ret refused) (simp_all add: unknown)
            qed
          qed
        qed
      qed
    qed
  qed
qed

text \<open>
  The credential of a request, said without the parser: exactly one Authorization header spelling
  the bearer scheme, spaces and a token without blanks; or no such header at all, and then the
  first cookie of the configured name.
\<close>

definition bears :: "string \<Rightarrow> string \<Rightarrow> bool" where
  "bears v token \<longleftrightarrow>
     (\<exists>scheme n. v = scheme @ replicate (Suc n) CHR '' '' @ token \<and> to_lower scheme = ''bearer'' \<and>
        token \<noteq> [] \<and> CHR '' '' \<notin> set token \<and> CHR 0x09 \<notin> set token)"

definition presents :: "'w authenticator \<Rightarrow> http_request \<Rightarrow> credential \<Rightarrow> bool" where
  "presents a r c \<longleftrightarrow>
     (case hr_header r ''Authorization'' of
        Some vs \<Rightarrow> (\<exists>v. vs = [v] \<and> bears v (cr_value c)) \<and> cr_source c = SourceBearer
      | None \<Rightarrow>
          au_cookie a \<noteq> [] \<and> cr_source c = SourceCookie \<and>
          (\<exists>before after. request_cookies r = before @ (au_cookie a, cr_value c) # after \<and> au_cookie a \<notin> fst ` set before))"

lemma bearer_scheme_plain: "to_lower scheme = ''bearer'' \<Longrightarrow> CHR '' '' \<notin> set scheme"
proof
  assume "to_lower scheme = ''bearer''" "CHR '' '' \<in> set scheme"
  then have "lower_byte CHR '' '' \<in> set ''bearer''" unfolding to_lower_def by (metis imageI list.set_map)
  then show False by (simp add: lower_byte_def)
qed

lemma cut_at: "c \<notin> set x \<Longrightarrow> cut c (x @ c # y) = (x, y, True)"
  by (induction x) (auto simp: cut_def)

lemma trim_left_run: "trim_left c (replicate n c @ x) = trim_left c x"
  by (induction n) (simp_all add: trim_left_def)

lemma trim_left_split: "\<exists>n. x = replicate n c @ trim_left c x"
proof (induction x)
  case (Cons d x)
  then obtain n where n: "x = replicate n c @ trim_left c x" ..
  show ?case
  proof (cases "d = c")
    case True
    then have "d # x = replicate (Suc n) c @ trim_left c (d # x)" using n by (simp add: trim_left_def)
    then show ?thesis ..
  next
    case False
    then show ?thesis by (intro exI [of _ 0]) (simp add: trim_left_def)
  qed
qed (simp add: trim_left_def)

lemma bearer_token_iff: "bearer_token v = Some token \<longleftrightarrow> bears v token"
proof
  assume b: "bearer_token v = Some token"
  define scheme where "scheme = takeWhile (\<lambda>x. x \<noteq> CHR '' '') v"
  define rest where "rest = drop 1 (dropWhile (\<lambda>x. x \<noteq> CHR '' '') v)"
  have t: "CHR '' '' \<in> set v" "equal_fold scheme ''bearer''" "token = trim_left CHR '' '' rest" "token \<noteq> []"
      "\<not> list_ex is_blank token"
    using b by (auto simp: bearer_token_def cut_def scheme_def rest_def Let_def split: if_splits)
  have "dropWhile (\<lambda>x. x \<noteq> CHR '' '') v \<noteq> []" using t(1) by (simp add: dropWhile_eq_Nil_conv)
  then have "dropWhile (\<lambda>x. x \<noteq> CHR '' '') v = CHR '' '' # rest"
    using hd_dropWhile [of "\<lambda>x. x \<noteq> CHR '' ''" v] by (cases "dropWhile (\<lambda>x. x \<noteq> CHR '' '') v") (auto simp: rest_def)
  then have "v = scheme @ CHR '' '' # rest" unfolding scheme_def by (metis takeWhile_dropWhile_id)
  moreover obtain n where "rest = replicate n CHR '' '' @ token"
    unfolding t(3) using trim_left_split [of rest "CHR '' ''"] by blast
  ultimately have "v = scheme @ replicate (Suc n) CHR '' '' @ token" by simp
  moreover have "to_lower scheme = ''bearer''"
    using t(2) by (simp add: equal_fold_def to_lower_def [of "''bearer''"] lower_byte_def)
  ultimately show "bears v token"
    using t(4,5) unfolding bears_def list_ex_iff is_blank_def by blast
next
  assume "bears v token"
  then obtain scheme n where v: "v = scheme @ replicate (Suc n) CHR '' '' @ token" "to_lower scheme = ''bearer''" "token \<noteq> []"
      "CHR '' '' \<notin> set token" "CHR 0x09 \<notin> set token" unfolding bears_def by blast
  have plain: "CHR '' '' \<notin> set scheme" by (rule bearer_scheme_plain [OF v(2)])
  then have "cut CHR '' '' v = (scheme, replicate n CHR '' '' @ token, True)"
    using cut_at [of "CHR '' ''" scheme "replicate n CHR '' '' @ token"] by (simp add: v(1))
  moreover have "trim_left CHR '' '' (replicate n CHR '' '' @ token) = token"
    unfolding trim_left_run using v(3,4) by (cases token) (auto simp: trim_left_def)
  moreover have "equal_fold scheme ''bearer''"
    using v(2) by (simp add: equal_fold_def to_lower_def [of "''bearer''"] lower_byte_def)
  ultimately show "bearer_token v = Some token"
    using v(3-5) by (auto simp: bearer_token_def list_ex_iff is_blank_def)
qed

lemma map_of_first:
  "map_of xs k = Some v \<longleftrightarrow> (\<exists>before after. xs = before @ (k, v) # after \<and> k \<notin> fst ` set before)"
proof
  assume "map_of xs k = Some v"
  then show "\<exists>before after. xs = before @ (k, v) # after \<and> k \<notin> fst ` set before"
  proof (induction xs)
    case (Cons x xs)
    show ?case
    proof (cases "fst x = k")
      case True
      with Cons.prems show ?thesis by (intro exI [of _ "[]"] exI [of _ xs]) (cases x, auto)
    next
      case False
      with Cons obtain before after where "xs = before @ (k, v) # after" "k \<notin> fst ` set before" by auto
      with False show ?thesis by (intro exI [of _ "x # before"] exI [of _ after]) auto
    qed
  qed simp
next
  assume "\<exists>before after. xs = before @ (k, v) # after \<and> k \<notin> fst ` set before"
  then obtain before after where xs: "xs = before @ (k, v) # after" and first: "k \<notin> fst ` set before" by blast
  from first have "map_of before k = None" by (simp add: map_of_eq_None_iff)
  with xs show "map_of xs k = Some v" by (simp add: map_add_def)
qed

lemma presented_iff: "presented a r = Inr c \<longleftrightarrow> presents a r c"
proof (cases "hr_header r ''Authorization''")
  case None
  then show ?thesis
    unfolding presents_def map_of_first [symmetric]
    by (cases c) (auto simp: presented_def request_cookie_def split: option.split)
next
  case (Some vs)
  then show ?thesis
    by (cases c) (auto simp: presented_def presents_def simp flip: bearer_token_iff split: option.split list.split)
qed

lemma presented_refusal: "presented a r = Inl e \<Longrightarrow> e = unauthenticated"
  by (auto simp: presented_def split: option.splits list.splits)

lemma presented_source:
  "presented a r = Inr c \<Longrightarrow> cr_source c = (if hr_header r ''Authorization'' = None then SourceCookie else SourceBearer)"
  by (auto simp: presented_def split: option.splits list.splits)

lemma all_zero_iff: "is_all_zero s \<longleftrightarrow> set s \<subseteq> {CHR ''0''}"
proof -
  have "trim_byte c s = [] \<longleftrightarrow> set s \<subseteq> {c}" for c
  proof (cases "set s \<subseteq> {c}")
    case True
    then have d: "dropWhile (\<lambda>x. x = c) s = []" by (auto simp: dropWhile_eq_Nil_conv)
    show ?thesis unfolding trim_byte_def d using True by simp
  next
    case False
    then have "dropWhile (\<lambda>x. x = c) s \<noteq> []" by (auto simp: dropWhile_eq_Nil_conv)
    moreover from this have "hd (dropWhile (\<lambda>x. x = c) s) \<noteq> c" by (rule hd_dropWhile)
    ultimately have "\<exists>x \<in> set (dropWhile (\<lambda>x. x = c) s). x \<noteq> c" by (metis list.set_sel(1))
    then have "dropWhile (\<lambda>x. x = c) (rev (dropWhile (\<lambda>x. x = c) s)) \<noteq> []" by (auto simp: dropWhile_eq_Nil_conv)
    with False show ?thesis by (simp add: trim_byte_def)
  qed
  then show ?thesis by (simp add: is_all_zero_def)
qed

lemma trace_id_fields_shape:
  "trace_id_fields fs = t \<Longrightarrow> t \<noteq> [] \<Longrightarrow> length t = 32 \<and> is_lower_hex t \<and> \<not> set t \<subseteq> {CHR ''0''}"
  unfolding trace_id_fields_def all_zero_iff by (simp split: list.splits if_splits)

lemma trace_id_shape:
  "trace_id_from r = [] \<or>
   length (trace_id_from r) = 32 \<and> is_lower_hex (trace_id_from r) \<and> \<not> set (trace_id_from r) \<subseteq> {CHR ''0''}"
  using trace_id_fields_shape [OF refl] unfolding trace_id_from_def Let_def by (cases r) (simp_all, blast)

section \<open>Properties\<close>

text \<open>
  C26. A principal is usable or it is nothing. Whether it is built from its parts, read back from the
  wire or derived from a request or a link token, what comes out is either a principal with a
  valid tenant, a bounded UTF-8 subject and one of the two kinds, with no error, or the zero
  principal with one. The zero principal is denied every operation, and a usable one survives
  the trip over the wire unchanged.
\<close>

theorem principals_are_usable_or_zero:
  "sound_outcome core (new_principal core tenant subject kind) \<and> sound_outcome core (principal_from_wire core wire) \<and>
   sound_outcome (au_core a) (fst (run_state (authenticate_request a r) w)) \<and>
   sound_outcome (au_core a) (fst (run_state (authenticate_link a token) w)) \<and>
   authorize_tenant_principal zero_principal \<noteq> None \<and> authorize_service_sweep zero_principal \<noteq> None \<and>
   authorize_subscribe core zero_principal channel \<noteq> None \<and>
   (usable core p \<longrightarrow> authorize_tenant_principal p = None \<and>
      (ci_wire core (principal_wire p) \<longrightarrow> principal_from_wire core (principal_wire p) = (p, None)))"
proof -
  have "sound_outcome core (principal_from_wire core wire)"
    by (simp add: principal_from_wire_def new_principal_sound sound_refusal)
  moreover have "usable core p \<Longrightarrow> ci_wire core (principal_wire p) \<Longrightarrow> principal_from_wire core (principal_wire p) = (p, None)"
    by (simp add: principal_from_wire_def principal_wire_def new_principal_usable)
  moreover have "authorize_subscribe core zero_principal channel \<noteq> None"
    by (auto simp: authorize_subscribe_def authorization_result_def session_channel_allowed_def zero_principal_def
        parse_session_channel_def split: list.splits if_splits)
  ultimately show ?thesis
    using new_principal_sound authenticate_request_sound [of a r] authenticate_sound [of a]
    by (auto simp: yields_def authenticate_link_def authorize_tenant_principal_def authorize_service_sweep_def
        authorization_result_def zero_principal_def is_service_def kind_service_def usable_def)
qed

definition sample_core :: core_identity where
  "sample_core = \<lparr>ci_tenant = \<lambda>t. t \<noteq> [], ci_session = \<lambda>s. s \<noteq> [], ci_max_id = 128, ci_wire = \<lambda>_. True\<rparr>"

definition sample_authenticator :: "unit authenticator" where
  "sample_authenticator =
     \<lparr>au_verify = \<lambda>c. ret (if cr_value c = ''good'' then Inr \<lparr>cm_tenant = [], cm_subject = ''u'', cm_kind = ''actor'', cm_expires = Some 10\<rparr>
        else Inl (Opaque ''down'', ''cannot reach the issuer for good'')),
      au_now = ret 5, au_cookie = ''factory_session'', au_default_tenant = ''local'', au_core = sample_core\<rparr>"

definition sample_http :: "string \<Rightarrow> http_request" where
  "sample_http auth =
     \<lparr>hr_method = ''GET'', hr_host = ''app'', hr_header = (\<lambda>n. if n = ''Authorization'' then Some [auth] else None), hr_operation = None\<rparr>"

theorem principals_are_usable_or_zero_witness:
  "principal_from_wire sample_core (principal_wire \<lparr>pn_tenant = ''t'', pn_subject = ''u'', pn_kind = ''actor''\<rparr>) =
     (\<lparr>pn_tenant = ''t'', pn_subject = ''u'', pn_kind = ''actor''\<rparr>, None)"
proof -
  let ?p = "\<lparr>pn_tenant = ''t'', pn_subject = ''u'', pn_kind = ''actor''\<rparr>"
  have "usable sample_core ?p" "ci_wire sample_core (principal_wire ?p)"
    by (simp_all add: usable_def sample_core_def kind_actor_def)
  then show ?thesis
    using principals_are_usable_or_zero [of sample_core "[]" "[]" "[]" zero_principal sample_authenticator None "()" "[]" "[]" ?p]
    by simp
qed


lemma sample_presented:
  "presented sample_authenticator (sample_http ''Bearer good'') = Inr \<lparr>cr_source = SourceBearer, cr_value = ''good''\<rparr>"
  by code_simp


text \<open>
  C27. A subscription is granted to the caller's own sessions only: exactly the channels that spell the
  prefix, the caller's tenant and a session, both valid identifiers without a colon.
\<close>

theorem subscribe_grants_own_channels:
  "authorize_subscribe core p channel = None \<longleftrightarrow>
     (\<exists>s. (channel = ''session:'' @ pn_tenant p @ '':'' @ s \<and> CHR '':'' \<notin> set (pn_tenant p) \<and> CHR '':'' \<notin> set s) \<and>
        pn_tenant p \<noteq> [] \<and> s \<noteq> [] \<and> ci_tenant core (pn_tenant p) \<and> ci_session core s)"
proof -
  have split: "split_on CHR '':'' channel = [channel_prefix, t, s] \<longleftrightarrow>
      channel = ''session:'' @ t @ '':'' @ s \<and> CHR '':'' \<notin> set t \<and> CHR '':'' \<notin> set s" for t s
  proof
    assume eq: "split_on CHR '':'' channel = [channel_prefix, t, s]"
    then have "channel = join_with CHR '':'' [channel_prefix, t, s]" by (metis join_split)
    moreover have "CHR '':'' \<notin> set t" "CHR '':'' \<notin> set s"
      using split_fields_plain [of _ "CHR '':''" channel] unfolding eq by auto
    ultimately show "channel = ''session:'' @ t @ '':'' @ s \<and> CHR '':'' \<notin> set t \<and> CHR '':'' \<notin> set s"
      by (simp add: channel_prefix_def)
  next
    assume "channel = ''session:'' @ t @ '':'' @ s \<and> CHR '':'' \<notin> set t \<and> CHR '':'' \<notin> set s"
    then show "split_on CHR '':'' channel = [channel_prefix, t, s]"
      using split_join [of "[channel_prefix, t, s]" "CHR '':''"] by (simp add: channel_prefix_def)
  qed
  have "authorize_subscribe core p channel = None \<longleftrightarrow>
    (\<exists>s. split_on CHR '':'' channel = [channel_prefix, pn_tenant p, s] \<and> pn_tenant p \<noteq> [] \<and> s \<noteq> [] \<and>
      ci_tenant core (pn_tenant p) \<and> ci_session core s)"
    by (auto simp: authorize_subscribe_def authorization_result_def session_channel_allowed_def parse_session_channel_def
        split: list.splits if_splits)
  then show ?thesis unfolding split .
qed

text \<open>The texts of the two sentinels a verifier's failure is reported with.\<close>

definition verifier_failure_text :: "bool \<Rightarrow> string" where
  "verifier_failure_text refused =
     (if refused then ''identity: unauthenticated'' else ''identity: credential verifier is unavailable'')"

text \<open>A text that ends in a blank cannot share a word with what follows it.\<close>

lemma sublist_across_blank:
  assumes "CHR '' '' \<notin> set x" "sublist x ((u @ '' '') @ v)" "x \<noteq> []"
  shows "sublist x (u @ '' '') \<or> sublist x v"
proof -
  consider "sublist x (u @ '' '')" | "sublist x v" | x1 x2 where "x = x1 @ x2" "suffix x1 (u @ '' '')" "prefix x2 v"
    using assms(2) sublist_append [of x "u @ '' ''" v] by blast
  then show ?thesis
  proof cases
    case x: 3
    show ?thesis
    proof (cases x1 rule: rev_cases)
      case Nil
      with x have "sublist x v" by (simp add: prefix_imp_sublist)
      then show ?thesis ..
    next
      case (snoc y c)
      with x(2) have "c = CHR '' ''" by (auto simp: suffix_def)
      with x(1) snoc assms(1) show ?thesis by simp
    qed
  qed simp_all
qed



text \<open>Without that condition the replacement can form the credential again.\<close>

lemma redaction_can_leave_the_secret:
  "redact_secrets ''xxREDRED'' [''xRED''] = ''xREDACTEDRED'' \<and> sublist ''xRED'' (redact_secrets ''xxREDRED'' [''xRED''])"
  by (simp add: redacted_placeholder_def sublist_Cons_right)

end
