(* ===== verification/Origin.thy ===== *)
theory Origin
  imports Go_Strings
begin

text \<open>
  Browser origins in the one form a guard may compare, \<open>identity/csrf.go\<close>: the canonical scheme,
  host and port of an origin, the canonical host of an HTTP authority, and the checks of the
  CSRF configuration. Of \<open>net/url\<close> and \<open>net\<close> this models what decides: the scheme and host of a
  bare URL and the host and port of an authority. Whether \<open>net/netip\<close> reads the literal in
  brackets as an IPv6 address is a parameter.
\<close>

section \<open>URLs\<close>

definition is_ctl :: "char \<Rightarrow> bool" where
  "is_ctl c \<longleftrightarrow> (of_char c :: nat) < 32 \<or> (of_char c :: nat) = 127"

definition is_letter :: "char \<Rightarrow> bool" where
  "is_letter c \<longleftrightarrow> (let b = (of_char c :: nat) in (97 \<le> b \<and> b \<le> 122) \<or> (65 \<le> b \<and> b \<le> 90))"

definition is_digit :: "char \<Rightarrow> bool" where
  "is_digit c \<longleftrightarrow> (let b = (of_char c :: nat) in 48 \<le> b \<and> b \<le> 57)"

definition scheme_byte :: "char \<Rightarrow> bool" where
  "scheme_byte c \<longleftrightarrow> is_letter c \<or> is_digit c \<or> c \<in> set ''+-.''"

text \<open>The scheme and the rest; no value is the error of a missing scheme.\<close>

definition get_scheme :: "string \<Rightarrow> (string \<times> string) option" where
  "get_scheme t =
     (let s = takeWhile scheme_byte t; rest = dropWhile scheme_byte t
      in if rest \<noteq> [] \<and> hd rest = CHR '':''
         then (if s = [] then None else if is_letter (hd s) then Some (s, tl rest) else Some ([], t))
         else Some ([], t))"

definition valid_optional_port :: "string \<Rightarrow> bool" where
  "valid_optional_port p \<longleftrightarrow> (case p of [] \<Rightarrow> True | c # ds \<Rightarrow> c = CHR '':'' \<and> list_all is_digit ds)"

text \<open>Before and from the last occurrence of a byte; all is before when there is none.\<close>

definition before_last :: "char \<Rightarrow> string \<Rightarrow> string" where
  "before_last c s = (if c \<in> set s then rev (tl (dropWhile (\<lambda>x. x \<noteq> c) (rev s))) else s)"

definition after_last :: "char \<Rightarrow> string \<Rightarrow> string" where
  "after_last c s = rev (takeWhile (\<lambda>x. x \<noteq> c) (rev s))"

text \<open>A host is a bracketed literal with an optional port, or has at most the colon of its port.\<close>

definition parse_host :: "(string \<Rightarrow> bool) \<Rightarrow> string \<Rightarrow> string option" where
  "parse_host ip6 h =
     (if h \<noteq> [] \<and> hd h = CHR ''[''
      then (if CHR '']'' \<notin> set h then None
            else if valid_optional_port (after_last CHR '']'' h) \<and> ip6 (tl (before_last CHR '']'' h)) then Some h else None)
      else (case cut CHR '':'' h of (host, port, found) \<Rightarrow>
              if found \<and> \<not> list_all is_digit port then None else Some h))"

text \<open>
  The scheme and host of \<open>url.Parse\<close> on ASCII text. A URL that is refused, or one whose host has an
  escape, which is refused or decoded to a shorter text, has no value; neither can be a bare origin.
\<close>

definition url_parse :: "(string \<Rightarrow> bool) \<Rightarrow> string \<Rightarrow> (string \<times> string) option" where
  "url_parse ip6 text =
     (if list_ex is_ctl text then None
      else case get_scheme (takeWhile (\<lambda>c. c \<noteq> CHR ''#'') text) of
        None \<Rightarrow> None
      | Some (s, rest) \<Rightarrow>
          let r = takeWhile (\<lambda>c. c \<noteq> CHR ''?'') rest
          in if s = [] \<or> \<not> prefix ''//'' r then Some (to_lower s, [])
             else let h = after_last CHR ''@'' (takeWhile (\<lambda>c. c \<noteq> CHR ''/'') (drop 2 r))
                  in if CHR ''%'' \<in> set h then None else map_option (Pair (to_lower s)) (parse_host ip6 h))"

text \<open>\<open>URL.Hostname\<close> and \<open>URL.Port\<close>.\<close>

definition split_url_host :: "string \<Rightarrow> string \<times> string" where
  "split_url_host h =
     (let (host, port) = (if CHR '':'' \<in> set h \<and> list_all is_digit (after_last CHR '':'' h)
                          then (before_last CHR '':'' h, after_last CHR '':'' h) else (h, []))
      in (if host \<noteq> [] \<and> hd host = CHR ''['' \<and> last host = CHR '']'' then butlast (tl host) else host, port))"

section \<open>Canonical parts\<close>

datatype origin_error = ErrInvalidOrigin | ErrInvalidCSRFConfig

type_synonym oerr = "origin_error go_err"

definition invalid_origin :: oerr where
  "invalid_origin = Wrapped [Sentinel ErrInvalidOrigin]"

definition is_host_byte :: "char \<Rightarrow> bool" where
  "is_host_byte c \<longleftrightarrow> is_letter c \<or> is_digit c \<or> c = CHR ''-'' \<or> c = CHR ''.'' \<or> c = CHR ''_'' \<or> c = CHR '':''"

definition canonical_hostname :: "string \<Rightarrow> oerr + string" where
  "canonical_hostname host =
     (if host = [] then Inl invalid_origin
      else if last host = CHR ''.'' then Inl invalid_origin
      else if \<not> list_all is_host_byte host then Inl invalid_origin
      else Inr (to_lower host))"

text \<open>The port is the rendering of its number, which \<open>strconv.Atoi\<close> and \<open>Itoa\<close> check.\<close>

definition canonical_port :: "string \<Rightarrow> oerr + string" where
  "canonical_port port =
     (if port = [] then Inr []
      else let n = undecimal port
           in if decimal n \<noteq> port \<or> n < 1 \<or> n > 65535 then Inl invalid_origin else Inr port)"

definition default_port :: "string \<Rightarrow> string" where
  "default_port scheme = (if scheme = ''https'' then ''443'' else ''80'')"

section \<open>Origins\<close>

record origin =
  og_scheme :: string
  og_hostname :: string
  og_port :: string

definition parse_origin :: "(string \<Rightarrow> bool) \<Rightarrow> string \<Rightarrow> oerr + origin" where
  "parse_origin ip6 text =
     (if text = [] \<or> text = ''*'' then Inl invalid_origin
      else if \<not> is_ascii text then Inl invalid_origin
      else case url_parse ip6 text of
        None \<Rightarrow> Inl invalid_origin
      | Some (scheme, host) \<Rightarrow>
          if scheme \<noteq> ''http'' \<and> scheme \<noteq> ''https'' then Inl invalid_origin
          else if host = [] then Inl invalid_origin
          else if \<not> equal_fold text (scheme @ ''://'' @ host) then Inl invalid_origin
          else (case canonical_hostname (fst (split_url_host host)) of
                  Inl err \<Rightarrow> Inl err
                | Inr hostname \<Rightarrow>
                    (case canonical_port (snd (split_url_host host)) of
                       Inl err \<Rightarrow> Inl err
                     | Inr port \<Rightarrow>
                         Inr \<lparr>og_scheme = scheme, og_hostname = hostname,
                              og_port = (if port = default_port scheme then [] else port)\<rparr>)))"

definition origin_host :: "origin \<Rightarrow> string" where
  "origin_host o1 = (if CHR '':'' \<in> set (og_hostname o1) then ''['' @ og_hostname o1 @ '']'' else og_hostname o1)"

definition origin_string :: "origin \<Rightarrow> string" where
  "origin_string o1 =
     (if og_scheme o1 = [] then []
      else if og_port o1 = [] then og_scheme o1 @ ''://'' @ origin_host o1
      else og_scheme o1 @ ''://'' @ origin_host o1 @ '':'' @ og_port o1)"

section \<open>Authorities\<close>

datatype host_port = SplitOk string string | MissingPort | BadAddress

text \<open>\<open>net.SplitHostPort\<close>.\<close>

definition split_host_port :: "string \<Rightarrow> host_port" where
  "split_host_port s =
     (if CHR '':'' \<notin> set s then MissingPort
      else if hd s = CHR ''[''
      then (if CHR '']'' \<notin> set s then BadAddress
            else let inside = tl (takeWhile (\<lambda>c. c \<noteq> CHR '']'') s); rest = tl (dropWhile (\<lambda>c. c \<noteq> CHR '']'') s)
                 in if rest = [] then MissingPort
                    else if hd rest = CHR '':'' \<and> CHR '':'' \<notin> set (tl rest)
                    then (if CHR ''['' \<in> set (inside @ rest) \<or> CHR '']'' \<in> set rest then BadAddress else SplitOk inside (tl rest))
                    else if hd rest = CHR '':'' then BadAddress else MissingPort)
      else if CHR '':'' \<in> set (before_last CHR '':'' s) then BadAddress
      else if CHR ''['' \<in> set s \<or> CHR '']'' \<in> set s then BadAddress
      else SplitOk (before_last CHR '':'' s) (after_last CHR '':'' s))"

definition split_authority_host :: "string \<Rightarrow> oerr + string" where
  "split_authority_host a =
     (case split_host_port a of
        SplitOk host port \<Rightarrow> (case canonical_port port of Inl err \<Rightarrow> Inl invalid_origin | Inr p \<Rightarrow> Inr host)
      | BadAddress \<Rightarrow> Inl invalid_origin
      | MissingPort \<Rightarrow> if a \<noteq> [] \<and> hd a = CHR ''['' \<and> last a = CHR '']'' then Inr (butlast (tl a)) else Inr a)"

definition canonical_authority :: "string \<Rightarrow> oerr + string" where
  "canonical_authority a =
     (if a = [] then Inl invalid_origin
      else if \<not> is_ascii a then Inl invalid_origin
      else case split_authority_host a of Inl err \<Rightarrow> Inl err | Inr host \<Rightarrow> canonical_hostname host)"

section \<open>The configuration\<close>

record csrf_config =
  cs_key :: bytes
  cs_ttl :: int
  cs_origins :: "string list"
  cs_trust_forwarded :: bool

definition min_csrf_key_bytes :: nat where
  "min_csrf_key_bytes = 32"

definition invalid_csrf :: oerr where
  "invalid_csrf = Wrapped [Sentinel ErrInvalidCSRFConfig]"

fun validate_origins :: "(string \<Rightarrow> bool) \<Rightarrow> string list \<Rightarrow> string set \<Rightarrow> oerr option" where
  "validate_origins ip6 [] seen = None"
| "validate_origins ip6 (entry # entries) seen =
     (if entry = [] then Some invalid_csrf
      else case parse_origin ip6 entry of
        Inl err \<Rightarrow> Some (Wrapped [Sentinel ErrInvalidCSRFConfig, err])
      | Inr o1 \<Rightarrow>
          if origin_string o1 \<in> seen then Some invalid_csrf
          else validate_origins ip6 entries (insert (origin_string o1) seen))"

definition validate_csrf :: "(string \<Rightarrow> bool) \<Rightarrow> csrf_config \<Rightarrow> oerr option" where
  "validate_csrf ip6 c =
     (if length (cs_key c) < min_csrf_key_bytes then Some invalid_csrf
      else if cs_ttl c \<le> 0 then Some invalid_csrf
      else if cs_origins c = [] then Some invalid_csrf
      else validate_origins ip6 (cs_origins c) {})"

section \<open>Canonical origins\<close>

lemma before_last_append [simp]: "c \<notin> set y \<Longrightarrow> before_last c (x @ c # y) = x"
proof -
  assume "c \<notin> set y"
  then have "dropWhile (\<lambda>z. z \<noteq> c) (rev y @ c # rev x) = c # rev x"
    by (subst dropWhile_append2) auto
  then show ?thesis by (simp add: before_last_def)
qed

lemma after_last_append [simp]: "c \<notin> set y \<Longrightarrow> after_last c (x @ c # y) = y"
proof -
  assume "c \<notin> set y"
  then have "takeWhile (\<lambda>z. z \<noteq> c) (rev y @ c # rev x) = rev y" by (subst takeWhile_append2) auto
  then show ?thesis by (simp add: after_last_def)
qed

lemma after_last_none [simp]: "c \<notin> set s \<Longrightarrow> after_last c s = s"
proof -
  assume "c \<notin> set s"
  then have "\<forall>x\<in>set (rev s). x \<noteq> c" by auto
  then have "takeWhile (\<lambda>x. x \<noteq> c) (rev s) = rev s" by (simp only: takeWhile_eq_all_conv)
  then show ?thesis by (simp only: after_last_def rev_rev_ident)
qed

lemma last_split: "c \<in> set s \<Longrightarrow> \<exists>x y. s = x @ c # y \<and> c \<notin> set y"
  by (rule split_list_last)

lemma digit_plain: "is_digit c \<Longrightarrow> c \<noteq> CHR '':'' \<and> c \<noteq> CHR '']''"
  by (intro conjI notI) (simp_all add: is_digit_def)

lemma digits_plain: "list_all is_digit ds \<Longrightarrow> CHR '':'' \<notin> set ds \<and> CHR '']'' \<notin> set ds"
  using digit_plain by (auto simp: list_all_iff)

lemma host_byte_lower: "is_host_byte c \<Longrightarrow> is_host_byte (lower_byte c)"
  by (auto simp: is_host_byte_def is_letter_def is_digit_def lower_byte_def Let_def)

text \<open>Host bytes are none of the bytes that end a host.\<close>

lemma host_byte_plain:
  assumes "is_host_byte c"
  shows "c \<notin> set ''[]/?#@%''" "\<not> is_ctl c" "(of_char c :: nat) < 128"
  using assms by (auto simp: is_host_byte_def is_letter_def is_digit_def is_ctl_def Let_def)

definition canonical_origin :: "(string \<Rightarrow> bool) \<Rightarrow> origin \<Rightarrow> bool" where
  "canonical_origin ip6 o1 \<longleftrightarrow>
     og_scheme o1 \<in> {''http'', ''https''} \<and>
     og_hostname o1 \<noteq> [] \<and> last (og_hostname o1) \<noteq> CHR ''.'' \<and> list_all is_host_byte (og_hostname o1) \<and>
     to_lower (og_hostname o1) = og_hostname o1 \<and> (CHR '':'' \<in> set (og_hostname o1) \<longrightarrow> ip6 (og_hostname o1)) \<and>
     canonical_port (og_port o1) = Inr (og_port o1) \<and> og_port o1 \<noteq> default_port (og_scheme o1)"

lemma split_bracketed:
  assumes "p = [] \<or> (\<exists>ds. p = CHR '':'' # ds \<and> list_all is_digit ds)"
  shows "split_url_host (''['' @ lit @ '']'' @ p) = (lit, tl p)"
proof (cases "p = []")
  case True
  have "\<not> list_all is_digit (after_last CHR '':'' (CHR ''['' # lit @ '']''))" if colon: "CHR '':'' \<in> set lit"
  proof -
    obtain x y where "lit = x @ CHR '':'' # y" "CHR '':'' \<notin> set y" using last_split [OF colon] by blast
    then have "after_last CHR '':'' (CHR ''['' # lit @ '']'') = y @ '']''"
      using after_last_append [of "CHR '':''" "y @ '']''" "CHR ''['' # x"] by simp
    then show ?thesis by (simp add: is_digit_def)
  qed
  with True show ?thesis by (auto simp: split_url_host_def)
next
  case False
  with assms obtain ds where p: "p = CHR '':'' # ds" "list_all is_digit ds" by blast
  then have "CHR '':'' \<notin> set ds" using digits_plain by simp
  then have "after_last CHR '':'' (''['' @ lit @ '']'' @ p) = ds" "before_last CHR '':'' (''['' @ lit @ '']'' @ p) = ''['' @ lit @ '']''"
    using after_last_append [of "CHR '':''" ds "''['' @ lit @ '']''"] before_last_append [of "CHR '':''" ds "''['' @ lit @ '']''"]
    by (simp_all add: p)
  with p show ?thesis by (simp add: split_url_host_def)
qed

lemma split_plain:
  assumes "CHR '':'' \<notin> set h" "h = [] \<or> hd h \<noteq> CHR ''[''" "p = [] \<or> (\<exists>ds. p = CHR '':'' # ds \<and> list_all is_digit ds)"
  shows "split_url_host (h @ p) = (h, tl p)"
proof (cases "p = []")
  case True
  with assms show ?thesis by (auto simp: split_url_host_def)
next
  case False
  with assms obtain ds where p: "p = CHR '':'' # ds" "list_all is_digit ds" by blast
  then have "CHR '':'' \<notin> set ds" using digits_plain by simp
  then have "after_last CHR '':'' (h @ p) = ds" "before_last CHR '':'' (h @ p) = h" using p(1) by simp_all
  with p assms(2) show ?thesis by (auto simp: split_url_host_def)
qed

text \<open>The two shapes of a host \<open>url.Parse\<close> accepts.\<close>

lemma parse_host_cases:
  assumes "parse_host ip6 h = Some h'"
  obtains (bracketed) lit p where "h' = h" "h = ''['' @ lit @ '']'' @ p" "p = [] \<or> (\<exists>ds. p = CHR '':'' # ds \<and> list_all is_digit ds)" "ip6 lit"
  | (plain) host p where "h' = h" "h = host @ p" "CHR '':'' \<notin> set host" "h = [] \<or> hd h \<noteq> CHR ''[''"
      "p = [] \<or> (\<exists>ds. p = CHR '':'' # ds \<and> list_all is_digit ds)"
proof (cases "h \<noteq> [] \<and> hd h = CHR ''[''")
  case True
  with assms have a: "h' = h" "CHR '']'' \<in> set h" "valid_optional_port (after_last CHR '']'' h)" "ip6 (tl (before_last CHR '']'' h))"
    by (auto simp: parse_host_def split: if_splits)
  obtain x p where h: "h = x @ CHR '']'' # p" "CHR '']'' \<notin> set p" using last_split [OF a(2)] by blast
  from h True have "x \<noteq> []" "hd x = CHR ''[''" by (cases x; auto)+
  then obtain lit where "x = CHR ''['' # lit" by (cases x) auto
  moreover have "after_last CHR '']'' h = p" "before_last CHR '']'' h = x" using h by simp_all
  ultimately have "h = ''['' @ lit @ '']'' @ p" "after_last CHR '']'' h = p" "before_last CHR '']'' h = CHR ''['' # lit"
    using h(1) by simp_all
  with a bracketed [of lit p] show thesis by (auto simp: valid_optional_port_def split: list.splits)
next
  case False
  with assms have a: "h' = h" "CHR '':'' \<in> set h \<longrightarrow> list_all is_digit (drop 1 (dropWhile (\<lambda>x. x \<noteq> CHR '':'') h))"
    by (auto simp: parse_host_def cut_def split: if_splits)
  let ?host = "takeWhile (\<lambda>x. x \<noteq> CHR '':'') h" and ?p = "dropWhile (\<lambda>x. x \<noteq> CHR '':'') h"
  have "?p = [] \<or> (\<exists>ds. ?p = CHR '':'' # ds \<and> list_all is_digit ds)"
  proof (cases ?p)
    case (Cons c ds)
    then have "c = CHR '':''" using hd_dropWhile [of "\<lambda>x. x \<noteq> CHR '':''" h] by simp
    moreover have "c \<in> set h" using set_dropWhileD [of c "\<lambda>x. x \<noteq> CHR '':''" h] Cons by simp
    ultimately show ?thesis using Cons a(2) by simp
  qed simp
  moreover have "CHR '':'' \<notin> set ?host" by (auto dest: set_takeWhileD)
  ultimately show thesis using a(1) False plain [of ?host ?p] by simp
qed

lemma lower_small:
  assumes "lower_byte c = d" "(of_char d :: nat) < 97"
  shows "c = d"
proof (rule ccontr)
  assume "c \<noteq> d"
  with assms have "d = char_of ((of_char c :: nat) + 32)" "65 \<le> (of_char c :: nat)" "(of_char c :: nat) \<le> 90"
    by (auto simp: lower_byte_def Let_def split: if_splits)
  with assms(2) show False by simp
qed

lemma lower_dot: "lower_byte c = CHR ''.'' \<Longrightarrow> c = CHR ''.''"
  by (rule lower_small) simp_all

lemma lower_colon: "lower_byte c = CHR '':'' \<longleftrightarrow> c = CHR '':''"
proof
  show "c = CHR '':''" if "lower_byte c = CHR '':''" using that by (rule lower_small) simp
qed (simp add: lower_byte_def)

lemma canonical_hostname_Inr:
  assumes "canonical_hostname host = Inr name"
  shows "name = to_lower host" "name \<noteq> []" "last name \<noteq> CHR ''.''" "list_all is_host_byte name" "to_lower name = name"
    "CHR '':'' \<in> set name \<longleftrightarrow> CHR '':'' \<in> set host"
proof -
  have "host \<noteq> [] \<and> last host \<noteq> CHR ''.'' \<and> list_all is_host_byte host \<and> name = to_lower host"
    using assms unfolding canonical_hostname_def by (simp split: if_splits)
  then have a: "host \<noteq> []" "last host \<noteq> CHR ''.''" "list_all is_host_byte host" "name = to_lower host" by blast+
  show "name = to_lower host" by (rule a(4))
  show "name \<noteq> []" "to_lower name = name" using a(1,4) by simp_all
  show "list_all is_host_byte name" using a(3,4) host_byte_lower by (simp add: to_lower_def list_all_iff)
  show "last name \<noteq> CHR ''.''" using a(1,2,4) lower_dot [of "last host"] by (auto simp: to_lower_def last_map)
  show "CHR '':'' \<in> set name \<longleftrightarrow> CHR '':'' \<in> set host"
    unfolding a(4) to_lower_def set_map image_iff by (metis lower_colon)
qed

lemma canonical_port_Inr: "canonical_port p = Inr q \<Longrightarrow> q = p"
  by (auto simp: canonical_port_def Let_def split: if_splits)

lemma url_parse_host:
  assumes "url_parse ip6 text = Some (scheme, host)" "host \<noteq> []"
  shows "parse_host ip6 host = Some host"
proof -
  from assms obtain h where "parse_host ip6 h = Some host"
    by (auto simp: url_parse_def Let_def split: if_splits option.splits)
  then show ?thesis by (auto elim: parse_host_cases)
qed

lemma parse_origin_Inr:
  assumes "parse_origin ip6 text = Inr o1"
  obtains host where "host \<noteq> []" "parse_host ip6 host = Some host" "og_scheme o1 \<in> {''http'', ''https''}"
    "canonical_hostname (fst (split_url_host host)) = Inr (og_hostname o1)"
    "canonical_port (og_port o1) = Inr (og_port o1)" "og_port o1 \<noteq> default_port (og_scheme o1)"
proof -
  from assms obtain scheme host where u: "url_parse ip6 text = Some (scheme, host)" "host \<noteq> []"
    by (auto simp: parse_origin_def split: if_splits option.splits sum.splits)
  with assms have o: "scheme \<in> {''http'', ''https''}" "og_scheme o1 = scheme"
        "canonical_hostname (fst (split_url_host host)) = Inr (og_hostname o1)"
        "canonical_port (snd (split_url_host host)) = Inr (snd (split_url_host host))"
        "og_port o1 = (if snd (split_url_host host) = default_port scheme then [] else snd (split_url_host host))"
    by (auto simp: parse_origin_def split: if_splits option.splits sum.splits dest!: canonical_port_Inr)
  have "canonical_port (og_port o1) = Inr (og_port o1)" "og_port o1 \<noteq> default_port (og_scheme o1)"
    using o by (auto simp: canonical_port_def default_port_def)
  then show thesis using that [OF u(2) url_parse_host [OF u]] o by simp
qed

lemma parsed_is_canonical:
  assumes "parse_origin ip6 text = Inr o1" and fold: "\<And>h. ip6 h \<Longrightarrow> ip6 (to_lower h)"
  shows "canonical_origin ip6 o1"
proof -
  obtain host where host: "host \<noteq> []" "parse_host ip6 host = Some host" and o: "og_scheme o1 \<in> {''http'', ''https''}"
    "canonical_hostname (fst (split_url_host host)) = Inr (og_hostname o1)"
    "canonical_port (og_port o1) = Inr (og_port o1)" "og_port o1 \<noteq> default_port (og_scheme o1)"
    using parse_origin_Inr [OF assms(1)] .
  note name = canonical_hostname_Inr [OF o(2)]
  have "CHR '':'' \<in> set (og_hostname o1) \<longrightarrow> ip6 (og_hostname o1)"
    using host(2)
  proof (cases rule: parse_host_cases)
    case (bracketed lit p)
    then have "fst (split_url_host host) = lit" using split_bracketed [of p lit] by simp
    with bracketed(4) fold name(1) show ?thesis by simp
  next
    case (plain h p)
    then have "h = [] \<or> hd h \<noteq> CHR ''[''" by (cases h) auto
    then have "fst (split_url_host host) = h" using plain(2) split_plain [OF plain(3) _ plain(5)] by simp
    with plain(3) name(6) show ?thesis by simp
  qed
  with o name(2-5) show ?thesis by (simp add: canonical_origin_def)
qed

text \<open>The text of a canonical origin: the parser reads each part back.\<close>

definition origin_authority :: "origin \<Rightarrow> string" where
  "origin_authority o1 = origin_host o1 @ (if og_port o1 = [] then [] else '':'' @ og_port o1)"

lemma origin_string_authority:
  "og_scheme o1 \<noteq> [] \<Longrightarrow> origin_string o1 = og_scheme o1 @ ''://'' @ origin_authority o1"
  by (simp add: origin_string_def origin_authority_def)

lemma digit_is_digit: "n < 10 \<Longrightarrow> is_digit (digit n)"
  using of_char_digit [of n] by (simp add: is_digit_def)

lemma decimal_digits: "list_all is_digit (decimal n)"
  by (induction n rule: decimal.induct) (subst decimal.simps, simp add: digit_is_digit)

lemma canonical_port_digits:
  assumes "canonical_port p = Inr p" "p \<noteq> []"
  shows "list_all is_digit p"
proof -
  from assms have "p = decimal (undecimal p)" by (auto simp: canonical_port_def Let_def split: if_splits)
  then show ?thesis using decimal_digits by metis
qed

lemma authority_port:
  assumes "canonical_port p = Inr p"
  shows "(if p = [] then [] else '':'' @ p) = [] \<or> (\<exists>ds. (if p = [] then [] else '':'' @ p) = CHR '':'' # ds \<and> list_all is_digit ds)"
  using canonical_port_digits [OF assms] by auto

lemma split_authority:
  assumes "canonical_origin ip6 o1"
  shows "split_url_host (origin_authority o1) = (og_hostname o1, og_port o1)"
proof -
  from assms have c: "canonical_port (og_port o1) = Inr (og_port o1)" "list_all is_host_byte (og_hostname o1)"
    by (simp_all add: canonical_origin_def)
  have "og_hostname o1 = [] \<or> hd (og_hostname o1) \<noteq> CHR ''[''"
    using c(2) host_byte_plain(1) [of "CHR ''[''"] by (cases "og_hostname o1") auto
  then show ?thesis
    using split_bracketed [OF authority_port [OF c(1)], of "og_hostname o1"]
      split_plain [OF _ _ authority_port [OF c(1)], of "og_hostname o1"]
    by (cases "og_port o1 = []") (simp_all add: origin_authority_def origin_host_def)
qed

lemma authority_bytes:
  assumes "canonical_origin ip6 o1" "c \<in> set (origin_authority o1)"
  shows "is_host_byte c \<or> c = CHR ''['' \<or> c = CHR '']''"
proof -
  have "c \<in> set (og_port o1) \<Longrightarrow> is_digit c"
    using assms(1) canonical_port_digits [of "og_port o1"] by (cases "og_port o1") (auto simp: canonical_origin_def list_all_iff)
  then show ?thesis
    using assms by (auto simp: canonical_origin_def origin_authority_def origin_host_def list_all_iff is_host_byte_def split: if_splits)
qed

lemma authority_plain:
  assumes "canonical_origin ip6 o1" "c \<in> set (origin_authority o1)"
  shows "c \<noteq> CHR ''/''" "c \<noteq> CHR ''?''" "c \<noteq> CHR ''#''" "c \<noteq> CHR ''@''" "c \<noteq> CHR ''%''" "\<not> is_ctl c" "(of_char c :: nat) < 128"
  using authority_bytes [OF assms] by (auto simp: is_host_byte_def is_letter_def is_digit_def is_ctl_def Let_def)

lemma parse_authority:
  assumes "canonical_origin ip6 o1"
  shows "parse_host ip6 (origin_authority o1) = Some (origin_authority o1)"
proof -
  from assms have c: "canonical_port (og_port o1) = Inr (og_port o1)" "list_all is_host_byte (og_hostname o1)"
      "og_hostname o1 \<noteq> []" "CHR '':'' \<in> set (og_hostname o1) \<longrightarrow> ip6 (og_hostname o1)"
    by (simp_all add: canonical_origin_def)
  define p where "p = (if og_port o1 = [] then [] else '':'' @ og_port o1)"
  from c(1) have p: "valid_optional_port p" "CHR '']'' \<notin> set p"
    using canonical_port_digits [of "og_port o1"] digits_plain by (auto simp: p_def valid_optional_port_def)
  have a: "origin_authority o1 = origin_host o1 @ p" by (simp add: origin_authority_def p_def)
  show ?thesis
  proof (cases "CHR '':'' \<in> set (og_hostname o1)")
    case True
    then have "origin_authority o1 = (''['' @ og_hostname o1) @ CHR '']'' # p" by (simp add: a origin_host_def)
    moreover from this have "after_last CHR '']'' (origin_authority o1) = p" "before_last CHR '']'' (origin_authority o1) = ''['' @ og_hostname o1"
      by (simp_all only: after_last_append [OF p(2)] before_last_append [OF p(2)])
    ultimately show ?thesis using c(4) True p(1) by (simp add: parse_host_def)
  next
    case False
    then have "cut CHR '':'' (og_hostname o1 @ p) = (og_hostname o1, drop 1 p, p \<noteq> [])"
      by (auto simp: cut_def p_def takeWhile_append dropWhile_append)
    moreover have "hd (og_hostname o1 @ p) \<noteq> CHR ''[''"
      using c(2,3) host_byte_plain(1) [of "CHR ''[''"] by (cases "og_hostname o1") auto
    ultimately show ?thesis using False p(1)
      by (auto simp: a origin_host_def parse_host_def valid_optional_port_def split: list.splits)
  qed
qed

lemma takeWhile_all: "\<forall>x\<in>set xs. P x \<Longrightarrow> takeWhile P xs = xs"
  by (simp add: takeWhile_eq_all_conv)

lemma get_scheme_http [simp]:
  "get_scheme (''http'' @ ''://'' @ a) = Some (''http'', ''//'' @ a)"
  "get_scheme (''https'' @ ''://'' @ a) = Some (''https'', ''//'' @ a)"
  by (simp_all add: get_scheme_def scheme_byte_def is_letter_def is_digit_def)

lemma lower_scheme [simp]: "to_lower ''http'' = ''http''" "to_lower ''https'' = ''https''"
  by (simp_all add: to_lower_def lower_byte_def)

lemma parse_canonical:
  assumes "canonical_origin ip6 o1"
  shows "parse_origin ip6 (origin_string o1) = Inr o1"
proof -
  let ?a = "origin_authority o1" and ?s = "og_scheme o1"
  note plain = authority_plain [OF assms]
  from assms have scheme: "?s = ''http'' \<or> ?s = ''https''" by (auto simp: canonical_origin_def)
  then have shape: "origin_string o1 = ?s @ ''://'' @ ?a" by (intro origin_string_authority) auto
  have ne: "?a \<noteq> []" using assms by (auto simp: canonical_origin_def origin_authority_def origin_host_def)
  have "takeWhile (\<lambda>c. c \<noteq> CHR ''#'') ?a = ?a" "takeWhile (\<lambda>c. c \<noteq> CHR ''?'') ?a = ?a" "takeWhile (\<lambda>c. c \<noteq> CHR ''/'') ?a = ?a"
    using plain(1-3) by (auto intro!: takeWhile_all)
  moreover have "\<not> list_ex is_ctl ?a" "CHR ''@'' \<notin> set ?a" "CHR ''%'' \<notin> set ?a"
    using plain(4) [of "CHR ''@''"] plain(5) [of "CHR ''%''"] plain(6) by (auto simp: list_ex_iff)
  ultimately have "url_parse ip6 (origin_string o1) = Some (?s, ?a)"
    using scheme parse_authority [OF assms] get_scheme_http [of ?a]
    by (elim disjE) (simp_all add: shape url_parse_def is_ctl_def takeWhile_all)
  moreover have "is_ascii (origin_string o1)" using plain(7) scheme by (auto simp: shape is_ascii_def)
  moreover have "canonical_hostname (og_hostname o1) = Inr (og_hostname o1)" "canonical_port (og_port o1) = Inr (og_port o1)"
      "og_port o1 \<noteq> default_port ?s"
    using assms by (auto simp: canonical_origin_def canonical_hostname_def)
  moreover have "origin_string o1 \<noteq> []" "origin_string o1 \<noteq> ''*''" using scheme by (auto simp: shape)
  ultimately show ?thesis
    using scheme ne shape by (simp add: parse_origin_def split_authority [OF assms] equal_fold_def)
qed

text \<open>
  C30. An origin that parses has one text: the text of the parsed origin parses to the same origin,
  and two parsed origins have the same text exactly when they are the same scheme, host and port.
  Hence two spellings of an origin that differ in case or in a written default port compare equal,
  and no two different origins do. Of \<open>net/netip\<close> this needs that a literal keeps its meaning in
  lower case, which holds for the hexadecimal digits of an IPv6 address.
\<close>

theorem origin_text_round_trip:
  assumes fold: "\<And>h. ip6 h \<Longrightarrow> ip6 (to_lower h)"
    and parsed: "parse_origin ip6 text = Inr o1" "parse_origin ip6 text' = Inr o2"
  shows "parse_origin ip6 (origin_string o1) = Inr o1 \<and> (origin_string o1 = origin_string o2 \<longleftrightarrow> o1 = o2)"
  using parse_canonical [OF parsed_is_canonical [OF parsed(1) fold]] parse_canonical [OF parsed_is_canonical [OF parsed(2) fold]]
  by (metis sum.inject(2))

text \<open>Two spellings of one origin, and the loopback address as the literal.\<close>

theorem origin_text_round_trip_witness:
  "parse_origin (\<lambda>h. h = ''::1'') ''HTTPS://App.Example:443'' = Inr \<lparr>og_scheme = ''https'', og_hostname = ''app.example'', og_port = []\<rparr> \<and>
   parse_origin (\<lambda>h. h = ''::1'') ''http://[::1]:8080'' = Inr \<lparr>og_scheme = ''http'', og_hostname = ''::1'', og_port = ''8080''\<rparr> \<and>
   origin_string \<lparr>og_scheme = ''http'', og_hostname = ''::1'', og_port = ''8080''\<rparr> \<noteq>
     origin_string \<lparr>og_scheme = ''https'', og_hostname = ''app.example'', og_port = []\<rparr>"
proof -
  let ?o = "\<lparr>og_scheme = ''https'', og_hostname = ''app.example'', og_port = []\<rparr>"
    and ?i = "\<lparr>og_scheme = ''http'', og_hostname = ''::1'', og_port = ''8080''\<rparr>"
  note parts = parse_origin_def url_parse_def get_scheme_def scheme_byte_def is_letter_def is_digit_def is_ctl_def to_lower_def
    lower_byte_def char_of_def bit_0 is_ascii_def parse_host_def after_last_def before_last_def cut_def valid_optional_port_def
    equal_fold_def split_url_host_def canonical_hostname_def is_host_byte_def canonical_port_def default_port_def
    undecimal_def digit_val_def decimal.simps digit_def
  have o: "parse_origin (\<lambda>h. h = ''::1'') ''HTTPS://App.Example:443'' = Inr ?o" by (simp add: parts)
  have i: "parse_origin (\<lambda>h. h = ''::1'') ''http://[::1]:8080'' = Inr ?i" by (simp add: parts)
  have l: "to_lower ''::1'' = ''::1''" by (simp add: parts)
  show ?thesis
    using origin_text_round_trip [of "\<lambda>h. h = ''::1''", OF _ i o] o i l by auto
qed

end
