(* ===== verification/Guard.thy ===== *)
theory Guard
  imports Identity Origin
begin

text \<open>
  The browser guard of \<open>internal/httpapi/guard.go\<close>: the host, origin and token rules every request
  passes, and the stateless tokens they check. A clock reading and the nonce of a token are
  arguments; HMAC-SHA256 under the shared key and netip's reading of an IPv6 literal are
  parameters. Times are nanoseconds since the Unix epoch.
\<close>

section \<open>Folding and white space\<close>

text \<open>
  \<open>strings.TrimSpace\<close>: the ASCII white space and the UTF-8 encodings of Unicode's, at either end.
\<close>

definition space_runes :: "string list" where
  "space_runes =
     map (\<lambda>n. [char_of (n :: nat)]) [9, 10, 11, 12, 13, 32] @
     map (map (char_of :: nat \<Rightarrow> char))
       ([[0xC2, 0x85], [0xC2, 0xA0], [0xE1, 0x9A, 0x80], [0xE2, 0x80, 0xA8], [0xE2, 0x80, 0xA9], [0xE2, 0x80, 0xAF],
         [0xE2, 0x81, 0x9F], [0xE3, 0x80, 0x80]] @ map (\<lambda>n. [0xE2, 0x80, 0x80 + n]) [0..<11])"

definition starts_with_space :: "string \<Rightarrow> string option" where
  "starts_with_space s = find (\<lambda>r. prefix r s) space_runes"

lemma space_runes_ne: "r \<in> set space_runes \<Longrightarrow> r \<noteq> []"
  by (auto simp: space_runes_def)

lemma starts_with_space_Some: "starts_with_space s = Some r \<Longrightarrow> r \<noteq> [] \<and> prefix r s"
  using space_runes_ne by (auto simp: starts_with_space_def find_Some_iff in_set_conv_nth)

function trim_space_left :: "string \<Rightarrow> string" where
  "trim_space_left s =
     (case starts_with_space s of None \<Rightarrow> s | Some r \<Rightarrow> trim_space_left (drop (length r) s))"
  by pat_completeness auto

termination
proof (relation "measure length", simp)
  fix s r
  assume "starts_with_space s = Some r"
  with starts_with_space_Some have "r \<noteq> []" "prefix r s" by blast+
  then show "(drop (length r) s, s) \<in> measure length" using prefix_length_le [of r s] by (cases r) auto
qed

definition ends_with_space :: "string \<Rightarrow> string option" where
  "ends_with_space s = find (\<lambda>r. suffix r s) space_runes"

lemma ends_with_space_Some: "ends_with_space s = Some r \<Longrightarrow> r \<noteq> [] \<and> suffix r s"
  using space_runes_ne by (auto simp: ends_with_space_def find_Some_iff in_set_conv_nth)

function trim_space_right :: "string \<Rightarrow> string" where
  "trim_space_right s =
     (case ends_with_space s of None \<Rightarrow> s | Some r \<Rightarrow> trim_space_right (take (length s - length r) s))"
  by pat_completeness auto

termination
proof (relation "measure length", simp)
  fix s r
  assume "ends_with_space s = Some r"
  with ends_with_space_Some have "r \<noteq> []" "suffix r s" by blast+
  then show "(take (length s - length r) s, s) \<in> measure length" using suffix_length_le [of r s] by (cases r) auto
qed

declare trim_space_left.simps [simp del] trim_space_right.simps [simp del]

definition trim_space :: "string \<Rightarrow> string" where
  "trim_space s = trim_space_right (trim_space_left s)"

text \<open>
  \<open>strings.EqualFold\<close> against lower-case ASCII text: beside the two cases of a letter, the long s
  folds to s and the Kelvin sign to k.
\<close>

fun folds_to :: "string \<Rightarrow> string \<Rightarrow> bool" where
  "folds_to s [] \<longleftrightarrow> s = []"
| "folds_to s (c # cs) \<longleftrightarrow>
     (s \<noteq> [] \<and> lower_byte (hd s) = c \<and> folds_to (tl s) cs) \<or>
     (c = CHR ''s'' \<and> prefix [CHR 0xC5, CHR 0xBF] s \<and> folds_to (drop 2 s) cs) \<or>
     (c = CHR ''k'' \<and> prefix [CHR 0xE2, CHR 0x84, CHR 0xAA] s \<and> folds_to (drop 3 s) cs)"

section \<open>The guard\<close>

datatype reason =
    ReasonNoRequest | ReasonHostNotTrusted | ReasonOriginNotTrusted | ReasonUpgradeOriginMissing | ReasonOriginMissing
  | ReasonUnauthenticated | ReasonCSRFMissing | ReasonCSRFInvalid | ReasonCSRFExpired

definition reason_code :: "reason \<Rightarrow> string" where
  "reason_code r =
     (case r of
        ReasonNoRequest \<Rightarrow> ''no_request''
      | ReasonHostNotTrusted \<Rightarrow> ''host_not_trusted''
      | ReasonOriginNotTrusted \<Rightarrow> ''origin_not_trusted''
      | ReasonUpgradeOriginMissing \<Rightarrow> ''websocket_origin_missing''
      | ReasonOriginMissing \<Rightarrow> ''origin_missing''
      | ReasonUnauthenticated \<Rightarrow> ''unauthenticated''
      | ReasonCSRFMissing \<Rightarrow> ''csrf_token_missing''
      | ReasonCSRFInvalid \<Rightarrow> ''csrf_token_invalid''
      | ReasonCSRFExpired \<Rightarrow> ''csrf_token_expired'')"

definition csrf_header_name :: string where
  "csrf_header_name = ''X-CSRF-Token''"

definition reason_message :: "reason \<Rightarrow> string" where
  "reason_message r =
     (case r of
        ReasonNoRequest \<Rightarrow> ''there is no request to check''
      | ReasonHostNotTrusted \<Rightarrow> ''the request was addressed to a host this deployment does not serve''
      | ReasonOriginNotTrusted \<Rightarrow> ''the request came from an origin this deployment does not trust''
      | ReasonUpgradeOriginMissing \<Rightarrow> ''a WebSocket handshake carrying a browser credential must send an Origin header''
      | ReasonOriginMissing \<Rightarrow> ''a state-changing request carrying a browser credential must send an Origin header''
      | ReasonUnauthenticated \<Rightarrow> ''the request is not authenticated''
      | ReasonCSRFMissing \<Rightarrow> ''the request carries no '' @ csrf_header_name @ '' header''
      | ReasonCSRFInvalid \<Rightarrow> ''the '' @ csrf_header_name @ '' header is not a token this principal holds''
      | ReasonCSRFExpired \<Rightarrow> ''the '' @ csrf_header_name @ '' header holds an expired token'')"

text \<open>The guard; \<open>gd_ip6\<close> and \<open>gd_hmac\<close> are the functions of netip and of crypto it relies on.\<close>

record 'w guard =
  gd_key :: bytes
  gd_ttl :: int
  gd_trust_forwarded :: bool
  gd_origins :: "string set"
  gd_hostnames :: "string set"
  gd_credentials :: "'w authenticator"
  gd_ip6 :: "string \<Rightarrow> bool"
  gd_hmac :: "bytes \<Rightarrow> bytes \<Rightarrow> bytes"

datatype guard_error = ErrInvalidGuardConfig | GuardOrigin origin_error

text \<open>An origin error among the guard's.\<close>

fun guard_origin_error :: "oerr \<Rightarrow> guard_error go_err" where
  "guard_origin_error (Sentinel e) = Sentinel (GuardOrigin e)"
| "guard_origin_error (Wrapped es) = Wrapped (map guard_origin_error es)"
| "guard_origin_error (Opaque t) = Opaque t"

fun parse_trusted :: "(string \<Rightarrow> bool) \<Rightarrow> string list \<Rightarrow> oerr + origin list" where
  "parse_trusted ip6 [] = Inr []"
| "parse_trusted ip6 (entry # entries) =
     (case parse_origin ip6 entry of
        Inl err \<Rightarrow> Inl err
      | Inr o1 \<Rightarrow> (case parse_trusted ip6 entries of Inl err \<Rightarrow> Inl err | Inr os \<Rightarrow> Inr (o1 # os)))"

definition new_guard ::
  "(string \<Rightarrow> bool) \<Rightarrow> (bytes \<Rightarrow> bytes \<Rightarrow> bytes) \<Rightarrow> 'w authenticator option \<Rightarrow> bool \<Rightarrow> csrf_config \<Rightarrow> guard_error go_err + 'w guard" where
  "new_guard ip6 hmac credentials has_clock cfg =
     (case credentials of
        None \<Rightarrow> Inl (Wrapped [Sentinel ErrInvalidGuardConfig])
      | Some creds \<Rightarrow>
          if \<not> has_clock then Inl (Wrapped [Sentinel ErrInvalidGuardConfig])
          else case validate_csrf ip6 cfg of
            Some err \<Rightarrow> Inl (Wrapped [Sentinel ErrInvalidGuardConfig, guard_origin_error err])
          | None \<Rightarrow>
              (case parse_trusted ip6 (cs_origins cfg) of
                 Inl err \<Rightarrow> Inl (Wrapped [Sentinel ErrInvalidGuardConfig, guard_origin_error err])
               | Inr os \<Rightarrow>
                   Inr \<lparr>gd_key = cs_key cfg, gd_ttl = cs_ttl cfg, gd_trust_forwarded = cs_trust_forwarded cfg,
                        gd_origins = set (map origin_string os), gd_hostnames = set (map og_hostname os),
                        gd_credentials = creds, gd_ip6 = ip6, gd_hmac = hmac\<rparr>))"

definition request_authority :: "'w guard \<Rightarrow> http_request \<Rightarrow> string option" where
  "request_authority g r =
     (if \<not> gd_trust_forwarded g then Some (hr_host r)
      else case header_values r ''X-Forwarded-Host'' of
        [] \<Rightarrow> Some (hr_host r)
      | [v] \<Rightarrow> Some v
      | _ \<Rightarrow> None)"

definition host_trusted :: "'w guard \<Rightarrow> http_request \<Rightarrow> bool" where
  "host_trusted g r =
     (case request_authority g r of
        None \<Rightarrow> False
      | Some authority \<Rightarrow>
          (case canonical_authority authority of Inl err \<Rightarrow> False | Inr hostname \<Rightarrow> hostname \<in> gd_hostnames g))"

text \<open>Whether an Origin header is present, and whether it names a trusted origin.\<close>

definition origin_trusted :: "'w guard \<Rightarrow> http_request \<Rightarrow> bool \<times> bool" where
  "origin_trusted g r =
     (case header_values r ''Origin'' of
        [] \<Rightarrow> (False, False)
      | [v] \<Rightarrow> (case parse_origin (gd_ip6 g) v of Inl err \<Rightarrow> (True, False) | Inr o1 \<Rightarrow> (True, origin_string o1 \<in> gd_origins g))
      | _ \<Rightarrow> (True, False))"

definition claims_websocket_upgrade :: "http_request \<Rightarrow> bool" where
  "claims_websocket_upgrade r =
     list_ex (\<lambda>v. list_ex (\<lambda>t. folds_to (trim_space t) ''websocket'') (split_on CHR '','' v)) (header_values r ''Upgrade'')"

definition state_changing :: "string \<Rightarrow> bool" where
  "state_changing m \<longleftrightarrow> m \<noteq> ''GET'' \<and> m \<noteq> ''HEAD'' \<and> m \<noteq> ''OPTIONS''"

section \<open>Tokens\<close>

definition csrf_mac_domain :: string where
  "csrf_mac_domain = ''factory/csrf/v1''"

definition csrf_nonce_bytes :: nat where
  "csrf_nonce_bytes = 16"

definition csrf_expiry_bytes :: nat where
  "csrf_expiry_bytes = 8"

definition csrf_mac_bytes :: nat where
  "csrf_mac_bytes = 32"

lemmas csrf_sizes = csrf_nonce_bytes_def csrf_expiry_bytes_def csrf_mac_bytes_def

definition token_preimage :: "bytes \<Rightarrow> principal_id \<Rightarrow> bytes" where
  "token_preimage payload p =
     csrf_mac_domain @ length_prefixed (pn_tenant p) @ length_prefixed (pn_subject p) @ length_prefixed (pn_kind p) @ payload"

definition token_mac :: "'w guard \<Rightarrow> bytes \<Rightarrow> principal_id \<Rightarrow> bytes" where
  "token_mac g payload p = gd_hmac g (gd_key g) (token_preimage payload p)"

text \<open>\<open>Time.UnixMilli\<close>, a signed 64-bit count.\<close>

definition unix_milli :: "time \<Rightarrow> u64" where
  "unix_milli t = word_of_int (t div 1000000)"

text \<open>The nonce is the entropy read, absent when the read failed.\<close>

definition issue_token :: "'w guard \<Rightarrow> time \<Rightarrow> bytes option \<Rightarrow> principal_id \<Rightarrow> guard_error go_err + (string \<times> time)" where
  "issue_token g now entropy p =
     (if pn_tenant p = [] \<or> pn_subject p = [] then Inl (Wrapped [Sentinel ErrInvalidGuardConfig])
      else case entropy of
        None \<Rightarrow> Inl (Wrapped [Sentinel ErrInvalidGuardConfig])
      | Some nonce \<Rightarrow>
          let expiry = now + gd_ttl g; milli = unix_milli expiry
          in if milli <s 0 then Inl (Wrapped [Sentinel ErrInvalidGuardConfig])
             else let payload = nonce @ put_uint64 milli
                  in Inr (b64_encode (payload @ token_mac g payload p), expiry))"

definition verify_token :: "'w guard \<Rightarrow> time \<Rightarrow> string \<Rightarrow> principal_id \<Rightarrow> reason option" where
  "verify_token g now token p =
     (case b64_decode token of
        None \<Rightarrow> Some ReasonCSRFInvalid
      | Some raw \<Rightarrow>
          if length raw \<noteq> csrf_nonce_bytes + csrf_expiry_bytes + csrf_mac_bytes then Some ReasonCSRFInvalid
          else let payload = take (csrf_nonce_bytes + csrf_expiry_bytes) raw;
                   mac = drop (csrf_nonce_bytes + csrf_expiry_bytes) raw
               in if mac \<noteq> token_mac g payload p then Some ReasonCSRFInvalid
                  else let expiry_milli = (of_nat (get_bytes (drop csrf_nonce_bytes payload) 0) :: u64); now_milli = unix_milli now
                       in if now_milli <s 0 \<or> now_milli \<ge> expiry_milli then Some ReasonCSRFExpired else None)"

text \<open>The rule that rejects a request, or nothing.\<close>

definition guard_check :: "'w guard \<Rightarrow> time \<Rightarrow> http_request option \<Rightarrow> reason option" where
  "guard_check g now req =
     (case req of
        None \<Rightarrow> Some ReasonNoRequest
      | Some r \<Rightarrow>
          if \<not> host_trusted g r then Some ReasonHostNotTrusted
          else case origin_trusted g r of (present, trusted) \<Rightarrow>
            if present \<and> \<not> trusted then Some ReasonOriginNotTrusted
            else if credential_source (gd_credentials g) (Some r) = Some SourceBearer then None
            else if claims_websocket_upgrade r \<and> \<not> present then Some ReasonUpgradeOriginMissing
            else if \<not> state_changing (hr_method r) then None
            else if \<not> present then Some ReasonOriginMissing
            else (case hr_operation r of
                    None \<Rightarrow> Some ReasonUnauthenticated
                  | Some operation \<Rightarrow>
                      let token = header_get r ''X-Csrf-Token''
                      in if token = [] then Some ReasonCSRFMissing else verify_token g now token (oc_principal operation)))"

text \<open>A rejection is answered 403 in the envelope of every public failure.\<close>

record api_error =
  ae_status :: int
  ae_code :: string
  ae_message :: string
  ae_retry_after :: int

definition rejection :: "reason \<Rightarrow> api_error" where
  "rejection r = \<lparr>ae_status = 403, ae_code = reason_code r, ae_message = reason_message r, ae_retry_after = 0\<rparr>"

definition guard_wrap :: "'w guard \<Rightarrow> (http_request option \<Rightarrow> 'a) \<Rightarrow> time \<Rightarrow> http_request option \<Rightarrow> api_error + 'a" where
  "guard_wrap g next now r =
     (case guard_check g now r of Some reason \<Rightarrow> Inl (rejection reason) | None \<Rightarrow> Inr (next r))"

definition token_handler :: "'w guard \<Rightarrow> time \<Rightarrow> bytes option \<Rightarrow> http_request \<Rightarrow> api_error + (string \<times> time)" where
  "token_handler g now entropy r =
     (case hr_operation r of
        None \<Rightarrow> Inl (rejection ReasonUnauthenticated)
      | Some operation \<Rightarrow>
          (case issue_token g now entropy (oc_principal operation) of
             Inl err \<Rightarrow> Inl (rejection ReasonUnauthenticated)
           | Inr answer \<Rightarrow> Inr answer))"

section \<open>What a token is bound to\<close>

lemma token_preimage_inject: "token_preimage x p = token_preimage y q \<longleftrightarrow> x = y \<and> p = q"
  by (auto simp: token_preimage_def length_prefixed_append_inject)

lemma unix_milli_small:
  assumes "0 \<le> t" "t div 1000000 < 2 ^ 63"
  shows "\<not> unix_milli t <s 0" "uint (unix_milli t) = t div 1000000"
proof -
  have u: "uint (unix_milli t) = t div 1000000"
    using assms by (simp add: unix_milli_def uint_word_of_int pos_imp_zdiv_nonneg_iff take_bit_int_eq_self_iff)
  then show "uint (unix_milli t) = t div 1000000" .
  have "0 \<le> t div 1000000" using assms(1) by (simp add: pos_imp_zdiv_nonneg_iff)
  then show "\<not> unix_milli t <s 0"
    using assms u by (simp add: word_sless_alt sint_uint signed_take_bit_int_eq_self)
qed

lemma get_put_word [simp]: "(of_nat (get_bytes (put_uint64 w) 0) :: u64) = w"
  by (simp add: get_put)

text \<open>Verification of a text made by \<open>issue_token\<close>.\<close>

lemma verify_issued:
  assumes "length nonce = 16" "\<And>k x. length (gd_hmac g k x) = 32"
  shows "verify_token g now (b64_encode ((nonce @ put_uint64 milli) @ token_mac g (nonce @ put_uint64 milli) p)) q =
    (if token_mac g (nonce @ put_uint64 milli) p \<noteq> token_mac g (nonce @ put_uint64 milli) q then Some ReasonCSRFInvalid
     else if unix_milli now <s 0 \<or> unix_milli now \<ge> milli then Some ReasonCSRFExpired else None)"
  using assms by (simp add: verify_token_def csrf_sizes token_mac_def)

text \<open>
  C28. A token admits its principal until it expires, and nobody else. A token issued to a
  principal verifies on every replica with the same key until its expiry and is reported expired
  from that millisecond on. Its tag is the HMAC over its nonce, its expiry and its principal, and
  for any other principal the HMAC is taken over a different input: as long as the HMAC under
  the guard's key separates these two inputs, the token is invalid for that principal at any
  time. Otherwise nothing but the length of its tags, 32 bytes, is needed of the HMAC.
\<close>

theorem token_is_bound_to_its_principal:
  assumes issued: "issue_token g now (Some nonce) p = Inr (token, expiry)"
    and nonce: "length nonce = csrf_nonce_bytes" and tag: "\<And>k x. length (gd_hmac g k x) = csrf_mac_bytes"
    and replica: "gd_key g' = gd_key g" "gd_hmac g' = gd_hmac g"
    and clock: "0 \<le> expiry" "expiry div 1000000 < 2 ^ 63" "0 \<le> later" "later div 1000000 < 2 ^ 63"
  shows "verify_token g' later token p = (if later div 1000000 < expiry div 1000000 then None else Some ReasonCSRFExpired) \<and>
    (let payload = nonce @ put_uint64 (unix_milli expiry) in
       token = b64_encode (payload @ gd_hmac g (gd_key g) (token_preimage payload p)) \<and>
       (\<forall>q. q \<noteq> p \<longrightarrow> token_preimage payload q \<noteq> token_preimage payload p \<and>
          (gd_hmac g (gd_key g) (token_preimage payload q) \<noteq> gd_hmac g (gd_key g) (token_preimage payload p) \<longrightarrow>
             verify_token g' later token q = Some ReasonCSRFInvalid)))"
proof -
  let ?m = "unix_milli expiry"
  let ?pay = "nonce @ put_uint64 ?m"
  have token: "token = b64_encode (?pay @ token_mac g ?pay p)"
    using issued by (auto simp: issue_token_def Let_def split: if_splits)
  have mac: "token_mac g' x q = token_mac g x q" for x q by (simp add: token_mac_def replica)
  have v: "verify_token g' later token q =
      (if token_mac g ?pay p \<noteq> token_mac g ?pay q then Some ReasonCSRFInvalid
       else if unix_milli later <s 0 \<or> unix_milli later \<ge> ?m then Some ReasonCSRFExpired else None)" for q
    using verify_issued [of nonce g' later ?m p q] nonce tag replica by (simp add: token mac csrf_sizes)
  have late: "unix_milli later \<ge> ?m \<longleftrightarrow> \<not> later div 1000000 < expiry div 1000000"
    using unix_milli_small [OF clock(1,2)] unix_milli_small [OF clock(3,4)] by (simp add: word_le_def not_less)
  have other: "token_preimage ?pay q \<noteq> token_preimage ?pay p \<and>
      (gd_hmac g (gd_key g) (token_preimage ?pay q) \<noteq> gd_hmac g (gd_key g) (token_preimage ?pay p) \<longrightarrow>
         verify_token g' later token q = Some ReasonCSRFInvalid)" if "q \<noteq> p" for q
    using that token_preimage_inject [of ?pay q ?pay p] v [of q] by (auto simp: token_mac_def)
  have own: "verify_token g' later token p = (if later div 1000000 < expiry div 1000000 then None else Some ReasonCSRFExpired)"
    using v [of p] late unix_milli_small(1) [OF clock(3,4)] by simp
  show ?thesis
    unfolding Let_def using own other token by (simp add: token_mac_def)
qed

section \<open>What the guard admits\<close>

lemma parse_trusted_entries:
  assumes "parse_trusted ip6 entries = Inr os" "o1 \<in> set os"
  shows "\<exists>entry \<in> set entries. parse_origin ip6 entry = Inr o1"
  using assms by (induction entries arbitrary: os) (auto split: sum.splits)

lemma new_guard_fields:
  assumes "new_guard ip6 hmac creds clk cfg = Inr g"
  obtains os where "parse_trusted ip6 (cs_origins cfg) = Inr os" "gd_origins g = set (map origin_string os)"
    "gd_hostnames g = set (map og_hostname os)" "gd_ip6 g = ip6" "gd_hmac g = hmac" "gd_key g = cs_key cfg"
    "gd_trust_forwarded g = cs_trust_forwarded cfg" "validate_csrf ip6 cfg = None"
  using assms by (auto simp: new_guard_def split: option.splits if_splits sum.splits)

lemma trusted_is_configured:
  assumes "new_guard ip6 hmac creds clk cfg = Inr g" and fold: "\<And>h. ip6 h \<Longrightarrow> ip6 (to_lower h)"
    and "origin_trusted g r = (True, True)"
  shows "\<exists>v o1. header_values r ''Origin'' = [v] \<and> parse_origin ip6 v = Inr o1 \<and>
    (\<exists>entry \<in> set (cs_origins cfg). parse_origin ip6 entry = Inr o1)"
proof -
  obtain os where g: "parse_trusted ip6 (cs_origins cfg) = Inr os" "gd_origins g = set (map origin_string os)" "gd_ip6 g = ip6"
    using new_guard_fields [OF assms(1)] by metis
  obtain v o1 where v: "header_values r ''Origin'' = [v]" "parse_origin ip6 v = Inr o1" "origin_string o1 \<in> gd_origins g"
    using assms(3) by (auto simp: origin_trusted_def g(3) split: list.splits sum.splits)
  then obtain o2 where o2: "o2 \<in> set os" "origin_string o2 = origin_string o1" by (auto simp: g(2))
  from parse_trusted_entries [OF g(1) o2(1)] obtain entry where e: "entry \<in> set (cs_origins cfg)" "parse_origin ip6 entry = Inr o2"
    by blast
  have "o1 = o2"
    using parse_canonical [OF parsed_is_canonical [OF v(2) fold]] parse_canonical [OF parsed_is_canonical [OF e(2) fold]] o2(2)
    by simp
  with v e show ?thesis by blast
qed

lemma host_is_configured:
  assumes "new_guard ip6 hmac creds clk cfg = Inr g" "host_trusted g r"
  shows "\<exists>authority. request_authority g r = Some authority \<and>
    (\<exists>entry \<in> set (cs_origins cfg). \<exists>o1. parse_origin ip6 entry = Inr o1 \<and> canonical_authority authority = Inr (og_hostname o1))"
proof -
  obtain os where g: "parse_trusted ip6 (cs_origins cfg) = Inr os" "gd_hostnames g = set (map og_hostname os)"
    using new_guard_fields [OF assms(1)] by metis
  from assms(2) obtain authority h where "request_authority g r = Some authority" "canonical_authority authority = Inr h" "h \<in> gd_hostnames g"
    by (auto simp: host_trusted_def split: option.splits sum.splits)
  moreover from this(3) obtain o1 where "o1 \<in> set os" "h = og_hostname o1" by (auto simp: g(2))
  ultimately show ?thesis using parse_trusted_entries [OF g(1)] by blast
qed

text \<open>A token for a principal at a time, spelled out.\<close>

definition valid_token :: "'w guard \<Rightarrow> time \<Rightarrow> string \<Rightarrow> principal_id \<Rightarrow> bool" where
  "valid_token g now token p \<longleftrightarrow>
     (\<exists>nonce expiry. b64_decode token = Some (nonce @ expiry @ token_mac g (nonce @ expiry) p) \<and>
        length nonce = csrf_nonce_bytes \<and> length expiry = csrf_expiry_bytes \<and>
        length (token_mac g (nonce @ expiry) p) = csrf_mac_bytes \<and>
        \<not> unix_milli now <s 0 \<and> unix_milli now < of_nat (get_bytes expiry 0))"

lemma verify_token_None: "verify_token g now token p = None \<longleftrightarrow> valid_token g now token p"
proof
  assume "verify_token g now token p = None"
  then obtain raw where raw: "b64_decode token = Some raw" "length raw = 56" "drop 24 raw = token_mac g (take 24 raw) p"
      "\<not> unix_milli now <s 0" "unix_milli now < of_nat (get_bytes (drop 16 (take 24 raw)) 0)"
    by (simp add: verify_token_def csrf_sizes Let_def not_le split: option.splits if_splits)
  define nonce where "nonce = take 16 raw"
  define expiry where "expiry = drop 16 (take 24 raw)"
  have parts: "take 24 raw = nonce @ expiry"
    using append_take_drop_id [of 16 "take 24 raw"] by (simp add: nonce_def expiry_def)
  then have "raw = nonce @ expiry @ token_mac g (nonce @ expiry) p"
    using append_take_drop_id [of 24 raw] raw(3) by simp
  moreover have "length nonce = 16" "length expiry = 8" using raw(2) by (simp_all add: nonce_def expiry_def)
  moreover have "length (token_mac g (nonce @ expiry) p) = 32"
    using raw(2,3) parts length_drop [of 24 raw] by simp
  moreover have "unix_milli now < of_nat (get_bytes expiry 0)" using raw(5) by (simp add: expiry_def)
  ultimately show "valid_token g now token p"
    using raw(1,4) unfolding valid_token_def csrf_sizes by auto
next
  assume "valid_token g now token p"
  then show "verify_token g now token p = None"
    by (auto simp: valid_token_def verify_token_def csrf_sizes not_le)
qed

text \<open>The host a request names, and its one Origin, against the configured entries.\<close>

definition names_configured_host :: "csrf_config \<Rightarrow> 'w guard \<Rightarrow> http_request \<Rightarrow> bool" where
  "names_configured_host cfg g r \<longleftrightarrow>
     (\<exists>authority entry o1. request_authority g r = Some authority \<and> entry \<in> set (cs_origins cfg) \<and>
        parse_origin (gd_ip6 g) entry = Inr o1 \<and> canonical_authority authority = Inr (og_hostname o1))"

definition comes_from_configured_origin :: "csrf_config \<Rightarrow> 'w guard \<Rightarrow> http_request \<Rightarrow> bool" where
  "comes_from_configured_origin cfg g r \<longleftrightarrow>
     (\<exists>v entry o1. header_values r ''Origin'' = [v] \<and> entry \<in> set (cs_origins cfg) \<and>
        parse_origin (gd_ip6 g) v = Inr o1 \<and> parse_origin (gd_ip6 g) entry = Inr o1)"

text \<open>
  C10. What the guard lets through. A request the guard accepts is addressed to the host of a
  configured origin, and carries no Origin header or exactly one that names a configured origin,
  scheme and port included. Unless it presents a bearer credential, a WebSocket handshake carries
  that Origin, and a request with a state-changing method carries it, was authenticated, and holds
  an unexpired token whose tag is the HMAC over its own principal.
\<close>

theorem guard_admits_only_own_pages:
  assumes made: "new_guard ip6 hmac creds clk cfg = Inr g" and fold: "\<And>h. ip6 h \<Longrightarrow> ip6 (to_lower h)"
    and admitted: "guard_check g now (Some r) = None"
  shows "names_configured_host cfg g r \<and>
    (header_values r ''Origin'' = [] \<or> comes_from_configured_origin cfg g r) \<and>
    (credential_source (gd_credentials g) (Some r) = Some SourceBearer \<or>
       (claims_websocket_upgrade r \<longrightarrow> comes_from_configured_origin cfg g r) \<and>
       (state_changing (hr_method r) \<longrightarrow>
          comes_from_configured_origin cfg g r \<and>
          (\<exists>op. hr_operation r = Some op \<and> valid_token g now (header_get r ''X-Csrf-Token'') (oc_principal op))))"
proof -
  have ip6: "gd_ip6 g = ip6" using new_guard_fields [OF made] by metis
  have "host_trusted g r" using admitted by (auto simp: guard_check_def split: if_splits)
  then have host: "names_configured_host cfg g r"
    using host_is_configured [OF made] unfolding names_configured_host_def ip6 by blast
  obtain present trusted where o: "origin_trusted g r = (present, trusted)" by fastforce
  have absent: "\<not> present \<longleftrightarrow> header_values r ''Origin'' = []"
    using o by (auto simp: origin_trusted_def split: list.splits sum.splits)
  have "present \<longrightarrow> trusted" using admitted o by (auto simp: guard_check_def split: if_splits)
  then have origin: "comes_from_configured_origin cfg g r" if present
  proof -
    have "origin_trusted g r = (True, True)" using that o \<open>present \<longrightarrow> trusted\<close> by simp
    from trusted_is_configured [OF made fold this] show ?thesis unfolding comes_from_configured_origin_def ip6 by blast
  qed
  have ambient: "(claims_websocket_upgrade r \<longrightarrow> present) \<and> (state_changing (hr_method r) \<longrightarrow> present \<and>
      (\<exists>op. hr_operation r = Some op \<and> verify_token g now (header_get r ''X-Csrf-Token'') (oc_principal op) = None))"
    if "credential_source (gd_credentials g) (Some r) \<noteq> Some SourceBearer"
    using admitted o that by (auto simp: guard_check_def Let_def split: if_splits option.splits)
  show ?thesis
    using host origin absent ambient by (auto simp: verify_token_None)
qed

section \<open>A page and its token\<close>

definition sample_csrf :: csrf_config where
  "sample_csrf = \<lparr>cs_key = replicate 32 CHR ''k'', cs_ttl = 60000000000, cs_origins = [''https://app.example''], cs_trust_forwarded = False\<rparr>"

definition sample_tag :: "bytes \<Rightarrow> bytes \<Rightarrow> bytes" where
  "sample_tag k x = take 32 (rev x @ replicate 32 CHR ''0'')"

definition sample_guard :: "unit guard" where
  "sample_guard =
     \<lparr>gd_key = replicate 32 CHR ''k'', gd_ttl = 60000000000, gd_trust_forwarded = False, gd_origins = {''https://app.example''},
      gd_hostnames = {''app.example''}, gd_credentials = sample_authenticator, gd_ip6 = (\<lambda>_. False), gd_hmac = sample_tag\<rparr>"

definition sample_person :: principal_id where
  "sample_person = \<lparr>pn_tenant = ''t'', pn_subject = ''ann'', pn_kind = ''actor''\<rparr>"

definition sample_token :: string where
  "sample_token =
     b64_encode ((replicate 16 CHR ''n'' @ put_uint64 60000) @ token_mac sample_guard (replicate 16 CHR ''n'' @ put_uint64 60000) sample_person)"

definition sample_page :: http_request where
  "sample_page =
     \<lparr>hr_method = ''POST'', hr_host = ''app.example:443'',
      hr_header = [''Origin'' \<mapsto> [''https://app.example''], ''X-Csrf-Token'' \<mapsto> [sample_token]],
      hr_operation = Some \<lparr>oc_principal = sample_person, oc_source = Some SourceCookie, oc_trace = []\<rparr>\<rparr>"

lemma sample_tag_length: "length (sample_tag k x) = 32"
  by (simp add: sample_tag_def)

lemma sample_milli: "unix_milli 60000000000 = 60000" "unix_milli 0 = 0"
  by (simp_all add: unix_milli_def)

definition sample_agent :: principal_id where
  "sample_agent = sample_person\<lparr>pn_kind := ''agent''\<rparr>"

lemma sample_tags_differ:
  "length payload = 24 \<Longrightarrow> sample_tag k (token_preimage payload sample_agent) \<noteq> sample_tag k (token_preimage payload sample_person)"
  by (simp add: sample_tag_def token_preimage_def sample_agent_def sample_person_def length_prefixed_def)

theorem token_is_bound_to_its_principal_witness:
  "issue_token sample_guard 0 (Some (replicate 16 CHR ''n'')) sample_person = Inr (sample_token, 60000000000) \<and>
   verify_token sample_guard 59999000000 sample_token sample_person = None \<and>
   verify_token sample_guard 60000000000 sample_token sample_person = Some ReasonCSRFExpired \<and>
   verify_token sample_guard 59999000000 sample_token sample_agent = Some ReasonCSRFInvalid"
proof -
  have issued: "issue_token sample_guard 0 (Some (replicate 16 CHR ''n'')) sample_person = Inr (sample_token, 60000000000)"
    by (simp add: issue_token_def sample_guard_def sample_person_def sample_token_def sample_milli word_sless_alt)
  have tag: "\<And>k x. length (gd_hmac sample_guard k x) = csrf_mac_bytes"
    by (simp add: sample_guard_def sample_tag_length csrf_sizes)
  note bound = token_is_bound_to_its_principal [OF issued _ tag refl refl]
  have own: "verify_token sample_guard 59999000000 sample_token sample_person = None"
      "verify_token sample_guard 60000000000 sample_token sample_person = Some ReasonCSRFExpired"
    using bound [of 59999000000] bound [of 60000000000] by (simp_all add: csrf_sizes)
  have "sample_agent \<noteq> sample_person" by (simp add: sample_agent_def sample_person_def)
  moreover have "gd_hmac sample_guard = sample_tag" by (simp add: sample_guard_def)
  moreover have "length (replicate 16 CHR ''n'' @ put_uint64 (unix_milli 60000000000)) = 24" by simp
  ultimately have "verify_token sample_guard 59999000000 sample_token sample_agent = Some ReasonCSRFInvalid"
    using bound [of 59999000000] sample_tags_differ by (simp add: csrf_sizes Let_def)
  with issued own show ?thesis by simp
qed

theorem guard_admits_only_own_pages_witness:
  "new_guard (\<lambda>_. False) sample_tag (Some sample_authenticator) True sample_csrf = Inr sample_guard \<and>
   guard_check sample_guard 0 (Some sample_page) = None \<and> comes_from_configured_origin sample_csrf sample_guard sample_page"
proof -
  let ?o = "\<lparr>og_scheme = ''https'', og_hostname = ''app.example'', og_port = []\<rparr>"
  have "canonical_origin (\<lambda>_. False) ?o"
    by (simp add: canonical_origin_def is_host_byte_def is_letter_def is_digit_def to_lower_def lower_byte_def canonical_port_def default_port_def)
  from parse_canonical [OF this] have p: "parse_origin (\<lambda>_. False) ''https://app.example'' = Inr ?o"
    by (simp add: origin_string_def origin_host_def)
  have s: "origin_string ?o = ''https://app.example''" by (simp add: origin_string_def origin_host_def)
  have made: "new_guard (\<lambda>_. False) sample_tag (Some sample_authenticator) True sample_csrf = Inr sample_guard"
    by (simp add: new_guard_def sample_csrf_def sample_guard_def validate_csrf_def min_csrf_key_bytes_def p s)
  have "canonical_authority ''app.example:443'' = Inr ''app.example''"
    by (simp add: canonical_authority_def split_authority_host_def split_host_port_def before_last_def after_last_def canonical_port_def
        undecimal_def digit_val_def decimal.simps digit_def char_of_def bit_0 canonical_hostname_def is_host_byte_def is_letter_def
        is_digit_def to_lower_def lower_byte_def is_ascii_def)
  then have host: "host_trusted sample_guard sample_page"
    by (simp add: host_trusted_def request_authority_def sample_guard_def sample_page_def)
  have origin: "origin_trusted sample_guard sample_page = (True, True)"
    by (simp add: origin_trusted_def header_values_def sample_guard_def sample_page_def p s)
  have "verify_token sample_guard 0 sample_token sample_person = None"
    using verify_issued [of "replicate 16 CHR ''n''" sample_guard 0 60000 sample_person sample_person]
    by (simp add: sample_token_def sample_milli word_sless_alt sample_guard_def sample_tag_length)
  moreover have "sample_token \<noteq> []" by (simp add: sample_token_def b64_encode_Nil)
  moreover have "header_get sample_page ''X-Csrf-Token'' = sample_token" "\<not> claims_websocket_upgrade sample_page"
      "hr_operation sample_page = Some \<lparr>oc_principal = sample_person, oc_source = Some SourceCookie, oc_trace = []\<rparr>"
    by (simp_all add: sample_page_def header_get_def header_values_def claims_websocket_upgrade_def del: folds_to.simps)
  ultimately have admitted: "guard_check sample_guard 0 (Some sample_page) = None"
    using host origin by (simp add: guard_check_def)
  have source: "credential_source (gd_credentials sample_guard) (Some sample_page) \<noteq> Some SourceBearer"
    by (simp add: credential_source_def presented_def sample_page_def request_cookie_def request_cookies_def header_values_def map_filter_def
        sample_guard_def sample_authenticator_def)
  have "state_changing (hr_method sample_page)" by (simp add: sample_page_def state_changing_def)
  with guard_admits_only_own_pages [OF made _ admitted] made admitted source show ?thesis by simp
qed

end
