(* ===== verification/Spec2Isabelle.thy ===== *)
theory Spec2Isabelle
  imports Relay Composition Gates Expiry Admission_Queue Journal Guard
begin

text \<open>
  Factory is the control plane of a session runtime. A browser or a client authenticates, admits
  commands to durable inboxes and watches sessions; Factory places each session that has work on a
  Host, relays the records the Host publishes to the clients that watch, and sweeps what deadlines
  and lost owners leave behind. Replicas share nothing but the session store, so the order of store
  calls, the claims they are made under and the epochs they carry are what keeps a session on one
  Host.

  \<^bold>\<open>Who acts.\<close> \<open>Identity\<close> models \<open>identity/principal.go\<close>, \<open>identity/credential.go\<close>,
  \<open>internal/identity/http.go\<close> and \<open>internal/identity/authorize.go\<close>: \<open>new_principal\<close> is the only
  maker of a usable principal, \<open>authenticate_request\<close> derives one from a request and the
  deployment's verifier, and the \<open>authorize_\<close> functions are the tenant boundary. \<open>Origin\<close> models
  \<open>identity/csrf.go\<close>: canonical origins and authorities. \<open>Guard\<close> models
  \<open>internal/httpapi/guard.go\<close>: the rules a request passes and the stateless tokens. The lemmas show that a principal is
  usable or zero, that it follows verified claims, that a subscription is granted exactly on the
  tenant's own channels, that an origin has one text, that the guard lets only the deployment's
  own pages change state on an ambient credential, and that a token is bound to its principal.

  \<^bold>\<open>Placement.\<close> \<open>Policy\<close> is the decision of \<open>internal/placement/policy.go\<close>, \<open>Directory\<close> the owner
  and candidate lookup of \<open>internal/routing/directory.go\<close>, \<open>Attach\<close> the acting half of
  \<open>internal/placement/attach.go\<close>, \<open>Reconciler\<close> one reconciliation of \<open>reconciler.go\<close> with the
  identities of \<open>workload.go\<close>, \<open>Pending\<close> its triggers of \<open>pending.go\<close>, and \<open>Admission_Queue\<close> the
  fast path of \<open>admission_queue.go\<close> with its workers. Calls of the store, the Hosts and the clock
  are seams over an arbitrary world, written in the state monad; \<open>Trace\<close> gives the proof rules for
  the calls such code makes: what it may emit, monitors it obeys, and what it yields. \<open>Discipline\<close>
  proves one monitor over a whole reconciliation and reads the claim, attach and fencing rules from
  it; \<open>Composition\<close> states the claim discipline as the locale of a placer, proves the sweeps
  against it and interprets it by the reconciler.

  \<^bold>\<open>Realtime.\<close> \<open>Delivery\<close> is the bounded queue of \<open>internal/realtime/delivery/queue.go\<close>, \<open>Bindings\<close>
  the routing table of \<open>internal/routing/bindings.go\<close>, \<open>Demand\<close> the watched sessions of
  \<open>demand.go\<close>, and \<open>Relay\<close> the delivery path and repair of \<open>repair.go\<close>. The queue and the table
  are given to their clients as locales, \<open>durable_buffer\<close> and \<open>counted_table\<close>, interpreted by the
  models. The lemmas show that no durable record is lost silently, that a watched session holds one
  route, and that what is published belongs to the session.

  \<^bold>\<open>Sweeps.\<close> \<open>Rotor\<close> is the round robin over control shards, a locale interpreted by each sweep;
  \<open>Gates\<close> models \<open>internal/reconcile/gates.go\<close>, \<open>Expiry\<close> the deadline sweeps of
  \<open>internal/admission/reconciler.go\<close> and \<open>dispositions.go\<close>, \<open>Sweeper\<close> the record sweeper of
  \<open>internal/placement/records.go\<close>. Each sweep writes only for rows a page listed to it, under the
  claims it needs, and every shard is visited.

  \<^bold>\<open>Reads and commands.\<close> \<open>Journal\<close> models \<open>journal.go\<close>, the routing of a journal read by the
  session's binding and the cursor codec. \<open>Command\<close> is the vocabulary of \<open>internal/command\<close>.
  \<open>Prelude\<close> has Go's errors and maps, \<open>Wire\<close> the records of the wire contract, \<open>Go_Strings\<close> what
  is used of the standard library on strings and bytes.

  \<^bold>\<open>Bounds and fuel.\<close> Loops over pages and attempts recurse on the counter the source bounds them
  by, so they need no fuel of their own; the loops that end when a list is used up recurse on the
  list. A mutex is not modelled: an operation that runs under it is one step, and a method that
  releases it around a call takes the interference as an argument. Machine integers are words where
  the source can wrap: epochs, generations and sequences.

  \<^bold>\<open>Parameters.\<close> Core's wire validation and decoders, the session store, the storage backend,
  Centrifuge, the Hosts, SHA-256, HMAC and the clock are code of other modules or services and
  appear as arguments, with what is relied on as hypotheses.

  \<^bold>\<open>Not modelled.\<close> The admission of a command to the inbox (\<open>internal/admission/service.go\<close>,
  \<open>create.go\<close>), whose order of calls rests on whole command records and transitions of the session
  store; the server lifecycle of \<open>serve.go\<close> and \<open>server.go\<close> beside the placement workers; the
  wiring of \<open>compose.go\<close>, \<open>composition.go\<close> and \<open>options.go\<close>; the HTTP handlers beside the guard,
  which decode and encode wire records; the client link, the Host link and the live tail plane,
  which are callbacks and connections of Centrifuge; logging and metrics throughout.
\<close>

section \<open>Placement under claims\<close>

text \<open>What a computation called from a world with an empty log, in order.\<close>

definition calls_of :: "('v \<times> 'c list, 'a) state \<Rightarrow> 'v \<Rightarrow> 'c list" where
  "calls_of m v = snd (snd (run_state m (v, [])))"

definition acts_under_claims :: "string \<Rightarrow> place_event list \<Rightarrow> bool" where
  "acts_under_claims holder cs \<longleftrightarrow>
     claims_taken cs = claims_given cs \<and>
     (\<forall>pre e post. cs = pre @ e # post \<longrightarrow> acting e \<longrightarrow> (\<exists>k. under_claim holder k pre))"

lemma calls_act_under_claims:
  assumes "obeys (claim_track holder) None m (\<lambda>_ s. s = None)"
  shows "acts_under_claims holder (calls_of m v)"
proof -
  obtain x v' cs where run: "run_state m (v, []) = (x, (v', cs))" by (metis prod.exhaust)
  from obeys_claim_trace [OF assms run] have "claim_trace holder None cs" .
  then show ?thesis unfolding acts_under_claims_def claim_trace_def by (simp add: calls_of_def run)
qed

text \<open>
  C2. Placement driven by the sweep or by an admission acts only under claims. Over a whole
  pending-work sweep, however many sessions it places, and over a targeted placement, every call
  of the reconciler that writes desired state, scales, pages capacity, attaches or waits comes
  after an acquisition of a session claim for this replica's own holder that has not been given
  back, with no other claim taken in between; and as many claims are released as were acquired,
  whichever sessions failed.
\<close>

theorem placement_acts_under_claims:
  "acts_under_claims (pc_holder cfg) (calls_of (pending_sweep (with_placer pcfg (reconcile_placer cfg)) who s) (w, rp)) \<and>
   acts_under_claims (pc_holder cfg) (calls_of (place_admission (with_placer pcfg (reconcile_placer cfg)) who n) (w, rp))"
  by (intro conjI calls_act_under_claims reconciling.pending_sweep_quiet reconciling.place_admission_quiet)

section \<open>Every shard is swept\<close>

definition swept :: "('w, 'a list \<times> 'r) state \<Rightarrow> 'w \<Rightarrow> 'a list" where
  "swept m w = fst (fst (run_state m w))"

definition each_shard_once :: "int \<Rightarrow> int list \<Rightarrow> bool" where
  "each_shard_once n xs \<longleftrightarrow> distinct xs \<and> set xs = {0..<n}"



end
